(* ===== verification/Reffs_Prelude.thy ===== *)
theory Reffs_Prelude
  imports Complex_Main "HOL-Library.Word"
begin

text \<open>
  Shared vocabulary of the development: the fixed-width integers of the C sources, the errno
  values the modelled functions return, the allocation oracle that stands for
  \<^verbatim>\<open>calloc\<close>/\<^verbatim>\<open>realloc\<close>, the counted \<^verbatim>\<open>for\<close> loop, and the generic
  lemmas on lists and sums that several components use.
\<close>

unbundle bit_operations_syntax

section \<open>Machine types\<close>

type_synonym u8 = "8 word"
type_synonym u32 = "32 word"
type_synonym u64 = "64 word"

text \<open>
  The errno values that the modelled functions return (as \<^verbatim>\<open>-EINVAL\<close> and so on). A
  fallible function returns \<open>errno + 'a\<close>: \<open>Inl e\<close> is the C return value \<^verbatim>\<open>-e\<close>.
\<close>

datatype errno = EINVAL | ENOMEM | EIO | EBUSY | ENOENT | EALREADY | E2BIG | ENOTSUP
  | EACCES | ENAMETOOLONG

text \<open>
  Memory allocation can fail. Every allocation site of a function has a name, and the oracle
  says whether the allocations of that site succeed, so each \<^verbatim>\<open>-ENOMEM\<close> branch of the
  code is a branch of the model.
\<close>

type_synonym allocs = "string \<Rightarrow> bool"

abbreviation all_allocs :: allocs where
  "all_allocs \<equiv> (\<lambda>_. True)"

section \<open>Loops\<close>

text \<open>\<open>for_upto n body s\<close> is \<^verbatim>\<open>for (i = 0; i < n; i++) body\<close> on the state \<open>s\<close>.\<close>

primrec for_upto :: "nat \<Rightarrow> (nat \<Rightarrow> 's \<Rightarrow> 's) \<Rightarrow> 's \<Rightarrow> 's" where
  "for_upto 0 body s = s"
| "for_upto (Suc n) body s = body n (for_upto n body s)"

text \<open>A loop invariant indexed by the number of completed iterations.\<close>

lemma for_upto_invariant:
  assumes "I 0 s" and "\<And>i s. i < n \<Longrightarrow> I i s \<Longrightarrow> I (Suc i) (body i s)"
  shows "I n (for_upto n body s)"
  using assms by (induction n) auto

lemma for_upto_cong:
  assumes "\<And>i s. i < n \<Longrightarrow> f i s = g i s"
  shows "for_upto n f s = for_upto n g s"
  using assms by (induction n) auto

section \<open>Named theorem collections\<close>

named_theorems gf_simps \<open>arithmetic of GF(2^8), in terms of the field operations\<close>
named_theorems mat_simps \<open>element access of GF(2^8) matrices\<close>

section \<open>Lists\<close>

text \<open>Indexing into a flat array made of equally long blocks.\<close>

lemma length_concat_uniform:
  assumes "\<And>x. x \<in> set xs \<Longrightarrow> length (f x) = l"
  shows "length (concat (map f xs)) = length xs * l"
  using assms by (induction xs) auto

lemma nth_concat_uniform:
  assumes "\<And>x. x \<in> set xs \<Longrightarrow> length (f x) = l" and "i < length xs" and "b < l"
  shows "concat (map f xs) ! (i * l + b) = f (xs ! i) ! b"
  using assms
proof (induction xs arbitrary: i)
  case Nil
  then show ?case by simp
next
  case (Cons x xs)
  then show ?case
    by (cases i) (simp_all add: nth_append)
qed

text \<open>A fold of in-place stores, each to an index of its own.\<close>

lemma length_fold_update [simp]:
  "length (fold (\<lambda>i a. a[p i := g i]) xs arr) = length arr"
  by (induction xs arbitrary: arr) auto

lemma nth_fold_update_other:
  "j \<notin> p ` set xs \<Longrightarrow> fold (\<lambda>i a. a[p i := g i]) xs arr ! j = arr ! j"
  by (induction xs arbitrary: arr) auto

lemma nth_fold_update:
  assumes "inj_on p (set xs)" and "distinct xs" and "i \<in> set xs" and "p i < length arr"
  shows "fold (\<lambda>i a. a[p i := g i]) xs arr ! p i = g i"
  using assms
proof (induction xs arbitrary: arr)
  case Nil
  then show ?case by simp
next
  case (Cons x xs)
  show ?case
  proof (cases "x = i")
    case True
    then have "p i \<notin> p ` set xs"
      using Cons.prems by (auto simp: inj_on_def)
    with True Cons.prems show ?thesis
      by (simp add: nth_fold_update_other)
  next
    case False
    with Cons show ?thesis by auto
  qed
qed

section \<open>Counting in finite maps\<close>

text \<open>The number of entries of a heap whose value satisfies a predicate.\<close>

definition map_count :: "('v \<Rightarrow> bool) \<Rightarrow> ('k \<rightharpoonup> 'v) \<Rightarrow> nat" where
  "map_count P m = card {k. \<exists>v. m k = Some v \<and> P v}"

lemma finite_map_entries: "finite (dom m) \<Longrightarrow> finite {k. \<exists>v. m k = Some v \<and> P v}"
  by (rule finite_subset [of _ "dom m"]) auto

lemma map_count_insert:
  assumes "finite (dom m)" "m k = None"
  shows "map_count P (m(k \<mapsto> v)) = map_count P m + (if P v then 1 else 0)"
proof -
  have "{k'. \<exists>v'. (m(k \<mapsto> v)) k' = Some v' \<and> P v'} =
      (if P v then insert k {k'. \<exists>v'. m k' = Some v' \<and> P v'} else {k'. \<exists>v'. m k' = Some v' \<and> P v'})"
    using assms(2) by auto
  then show ?thesis using assms finite_map_entries [of m P] by (auto simp: map_count_def)
qed

lemma map_count_delete:
  assumes "finite (dom m)" "m k = Some v"
  shows "map_count P m = map_count P (m(k := None)) + (if P v then 1 else 0)"
proof -
  have "m = (m(k := None))(k \<mapsto> v)" using assms(2) by auto
  moreover have "finite (dom (m(k := None)))" using assms(1) by simp
  ultimately show ?thesis using map_count_insert [of "m(k := None)" k P v] by (metis fun_upd_same)
qed

lemma map_count_update:
  assumes "m k = Some v" "P v' = P v"
  shows "map_count P (m(k \<mapsto> v')) = map_count P m"
proof -
  have "{k'. \<exists>u. (m(k \<mapsto> v')) k' = Some u \<and> P u} = {k'. \<exists>u. m k' = Some u \<and> P u}" using assms by auto
  then show ?thesis by (simp add: map_count_def)
qed

lemma map_count_pos: "finite (dom m) \<Longrightarrow> m k = Some v \<Longrightarrow> P v \<Longrightarrow> 0 < map_count P m"
  using finite_map_entries [of m P] by (auto simp: map_count_def card_gt_0_iff)

section \<open>64-bit arithmetic\<close>

lemma unat_u64_of_nat: "n < 2 ^ 64 \<Longrightarrow> unat (of_nat n :: u64) = n"
  by (simp add: unat_of_nat)

lemma unat_ucast_u32_u64: "unat (ucast (a :: u32) :: u64) = unat a"
proof -
  have "unat a < 2 ^ 32" using unsigned_less [of a, where ?'a = nat] by simp
  then show ?thesis by (simp add: unsigned_ucast_eq take_bit_nat_eq_self)
qed

lemma unat_u64_max: "unat (- 1 :: u64) = 2 ^ 64 - 1"
  by transfer (simp add: mask_eq_exp_minus_1)

lemma unat_u64_max_minus: "unat (- 1 - m :: u64) = 2 ^ 64 - 1 - unat m"
proof -
  have "m \<le> - 1" by simp
  then have "unat (- 1 - m) = unat (- 1 :: u64) - unat m" by (rule unat_sub)
  then show ?thesis by (simp add: unat_u64_max)
qed

lemma unat_u64_less: "unat (a :: u64) < 2 ^ 64"
  using unsigned_less [of a, where ?'a = nat] by simp

text \<open>Sums and products that do not wrap.\<close>

lemma unat_u64_add: "unat a + unat b < 2 ^ 64 \<Longrightarrow> unat (a + b :: u64) = unat a + unat b"
  using unat_add_lem [of a b] by simp

lemma unat_u64_mult: "unat a * unat b < 2 ^ 64 \<Longrightarrow> unat (a * b :: u64) = unat a * unat b"
  using unat_mult_lem [of a b] by simp

end
