(* ===== verification/GF256.thy ===== *)
theory GF256
  imports Reffs_Prelude
begin

text \<open>
  Arithmetic of GF(2^8) (\<^verbatim>\<open>src/lib/ec/gf.c\<close>, \<^verbatim>\<open>gf.h\<close>): the log and antilog
  tables that \<^verbatim>\<open>gf_init_tables\<close> builds with the polynomial 0x11d and the generator 2, the
  table-driven operations, and the precomputed multiplication tables of one coefficient. The
  second half proves that the operations make the bytes a field: the type \<open>gf\<close> is an instance
  of the class \<open>field\<close>, and the table of a coefficient multiplies by it.
\<close>

section \<open>The tables\<close>

record gf_tables =
  gf_exp :: "u8 list"
  gf_log :: "u8 list"

text \<open>One turn of the generator loop on the \<^verbatim>\<open>int x\<close> of \<^verbatim>\<open>gf_init_tables\<close>.\<close>

definition gf_next :: "u32 \<Rightarrow> u32" where
  "gf_next x = (let y = push_bit 1 x in if y AND 0x100 \<noteq> 0 then y XOR 0x11d else y)"

definition gf_fill_step :: "nat \<Rightarrow> gf_tables \<times> u32 \<Rightarrow> gf_tables \<times> u32" where
  "gf_fill_step i s =
     (let t = fst s; x = snd s in
      (t\<lparr>gf_exp := (gf_exp t)[i := ucast x],
         gf_log := (gf_log t)[unat (ucast x :: u8) := of_nat i]\<rparr>, gf_next x))"

definition gf_init_tables :: "gf_tables \<Rightarrow> gf_tables" where
  "gf_init_tables t =
     (let t = fst (for_upto 255 gf_fill_step (t, 1));
          t = t\<lparr>gf_exp := fold (\<lambda>i e. e[i := e ! (i - 255)]) [255..<512] (gf_exp t)\<rparr>
      in t\<lparr>gf_log := (gf_log t)[0 := 0]\<rparr>)"

text \<open>
  The static tables: zero-initialised, then filled once by \<^verbatim>\<open>gf_init\<close>, which every
  encoding constructor calls before it uses them.
\<close>

definition gf_zero_tables :: gf_tables where
  "gf_zero_tables = \<lparr>gf_exp = replicate 512 0, gf_log = replicate 256 0\<rparr>"

definition gf_tbl :: gf_tables where
  "gf_tbl = gf_init_tables gf_zero_tables"

abbreviation gf_expv :: "nat \<Rightarrow> u8" where
  "gf_expv i \<equiv> gf_exp gf_tbl ! i"

abbreviation gf_logv :: "u8 \<Rightarrow> nat" where
  "gf_logv a \<equiv> unat (gf_log gf_tbl ! unat a)"

section \<open>The operations\<close>

definition gf_add :: "u8 \<Rightarrow> u8 \<Rightarrow> u8" where
  "gf_add a b = a XOR b"

definition gf_sub :: "u8 \<Rightarrow> u8 \<Rightarrow> u8" where
  "gf_sub a b = a XOR b"

definition gf_mul :: "u8 \<Rightarrow> u8 \<Rightarrow> u8" where
  "gf_mul a b = (if a = 0 \<or> b = 0 then 0 else gf_expv (gf_logv a + gf_logv b))"

definition gf_inv :: "u8 \<Rightarrow> u8" where
  "gf_inv a = (if a = 0 then 0 else gf_expv (255 - gf_logv a))"

definition gf_div :: "u8 \<Rightarrow> u8 \<Rightarrow> u8" where
  "gf_div a b = gf_mul a (gf_inv b)"

definition gf_pow :: "u8 \<Rightarrow> u8 \<Rightarrow> u8" where
  "gf_pow a n =
     (if n = 0 then 1 else if a = 0 then 0
      else gf_expv ((gf_logv a * unat n) mod 255))"

text \<open>The callee fills the 256-entry (32-entry) buffer it is handed.\<close>

definition gf_mul_tbl_init :: "u8 \<Rightarrow> u8 list \<Rightarrow> u8 list" where
  "gf_mul_tbl_init c tbl =
     (let tbl = tbl[0 := 0] in
      if c = 0 then fold (\<lambda>b t. t[b := 0]) [1..<256] tbl
      else let log_c = gf_logv c in
        fold (\<lambda>b t. t[b := gf_expv (log_c + gf_logv (of_nat b))]) [1..<256] tbl)"

definition gf_mul_split_tbl_init :: "u8 \<Rightarrow> u8 list \<Rightarrow> u8 list" where
  "gf_mul_split_tbl_init c tbl =
     (let tbl = tbl[0 := 0, 16 := 0] in
      if c = 0 then fold (\<lambda>i t. t[i := 0, 16 + i := 0]) [1..<16] tbl
      else let log_c = gf_logv c;
        tbl = fold (\<lambda>i t. t[i := gf_expv (log_c + gf_logv (of_nat i))]) [1..<16] tbl
      in fold (\<lambda>i t. t[16 + i := gf_expv (log_c + gf_logv (of_nat (push_bit 4 i)))]) [1..<16] tbl)"

section \<open>Multiplication by the generator\<close>

text \<open>The loop body on bytes: multiply by the polynomial x modulo 0x11d.\<close>

definition gf_x :: "u8 \<Rightarrow> u8" where
  "gf_x a = push_bit 1 a XOR (if bit a 7 then 0x1d else 0)"

definition alpha :: "nat \<Rightarrow> u8" where
  "alpha i = (gf_x ^^ i) 1"

lemma gf_next_overflow:
  "push_bit 1 (ucast (a::u8) :: u32) AND 0x100 \<noteq> 0 \<longleftrightarrow> bit a 7"
proof -
  have "push_bit 1 (ucast a :: u32) AND 0x100 \<noteq> 0 \<longleftrightarrow> bit (push_bit 1 (ucast a :: u32)) 8"
    using and_exp_eq_0_iff_not_bit [of "push_bit 1 (ucast a :: u32)" 8]
    by (simp del: push_bit_Suc)
  also have "\<dots> \<longleftrightarrow> bit a 7"
    by (simp add: bit_simps del: push_bit_Suc)
  finally show ?thesis .
qed

lemma gf_next_ucast: "gf_next (ucast (a::u8)) = ucast (gf_x a)"
proof -
  have poly: "bit (0x11d :: u32) n \<longleftrightarrow> n = 8 \<or> bit (0x1d :: u8) n" for n
    by (cases "n < 32") (auto simp: less_Suc_eq numeral_eq_Suc bit_simps)
  have top: "n = 8 \<longleftrightarrow> \<not> n < 8" if "bit a (n - 1)" "1 \<le> n" for n
    using that bit_imp_le_length [of a "n - 1"] by auto
  have low: "bit (0x1d :: u8) n \<Longrightarrow> n < 8" for n
    using bit_imp_le_length [of "0x1d :: u8"] by simp
  have "bit (gf_next (ucast a)) i = bit (ucast (gf_x a) :: u32) i" for i
    using top [of i] low [of i]
    unfolding gf_next_def gf_x_def Let_def gf_next_overflow
    by (cases "bit a 7"; cases "i = 8";
        simp only: if_True if_False bit_xor_iff bit_push_bit_iff bit_unsigned_iff poly;
        auto simp del: push_bit_Suc)
  then show ?thesis by (intro bit_word_eqI) auto
qed

lemma gf_x_xor: "gf_x (a XOR b) = gf_x a XOR gf_x b"
  by (rule bit_word_eqI) (auto simp: gf_x_def bit_simps)

lemma gf_x_0 [simp]: "gf_x 0 = 0"
  by (simp add: gf_x_def)

lemma gf_x_eq_0D:
  assumes "gf_x a = 0"
  shows "a = 0"
proof -
  have b: "\<not> bit (gf_x a) n" for n using assms by simp
  have c: "\<not> bit a 7"
    using b [of 0] by (auto simp: gf_x_def bit_simps simp del: push_bit_Suc One_nat_def split: if_splits)
  have "\<not> bit a n" if "n < 7" for n
    using b [of "Suc n"] c that by (auto simp: gf_x_def bit_simps simp del: push_bit_Suc)
  with c have "\<not> bit a n" if "n < 8" for n
    using that by (cases "n = 7") auto
  then show ?thesis by (intro bit_word_eqI) auto
qed

lemma gf_x_funpow_xor: "(gf_x ^^ i) (a XOR b) = (gf_x ^^ i) a XOR (gf_x ^^ i) b"
  by (induction i) (simp_all add: gf_x_xor)

lemma gf_x_funpow_0 [simp]: "(gf_x ^^ i) 0 = 0"
  by (induction i) simp_all

lemma xor_eq_0_iff_word: "(a :: 'a::len word) XOR b = 0 \<longleftrightarrow> a = b"
  by (metis xor.assoc xor_self_eq xor.right_neutral xor.left_neutral)

lemma inj_gf_x: "inj gf_x"
proof (rule injI)
  fix a b assume "gf_x a = gf_x b"
  then have "gf_x (a XOR b) = 0" by (simp add: gf_x_xor)
  then show "a = b" using gf_x_eq_0D xor_eq_0_iff_word by blast
qed

lemma inj_gf_x_funpow: "inj (gf_x ^^ i)"
  using inj_gf_x by (rule inj_fn)

lemma alpha_0 [simp]: "alpha 0 = 1"
  by (simp add: alpha_def)

lemma alpha_Suc: "alpha (Suc i) = gf_x (alpha i)"
  by (simp add: alpha_def)

lemma alpha_add: "alpha (i + j) = (gf_x ^^ i) (alpha j)"
  by (simp add: alpha_def funpow_add)

lemma alpha_ne_0 [simp]: "alpha i \<noteq> 0"
  by (induction i) (auto simp: alpha_Suc dest: gf_x_eq_0D)

text \<open>The generator has order 255 = 3 * 5 * 17: its powers at 85, 51 and 15 are not 1.\<close>

lemma alpha_15: "alpha 15 = 0x26"
  by (simp add: numeral_eq_Suc alpha_def) (simp add: gf_x_def)

lemma gf_x_17:
  "(gf_x ^^ 17) 1 = 0x98" "(gf_x ^^ 17) 0x98 = 0x4e" "(gf_x ^^ 17) 0x4e = 0x0a"
  "(gf_x ^^ 17) 0x0a = 0x99" "(gf_x ^^ 17) 0x99 = 0xd6" "(gf_x ^^ 17) 0xd6 = 0x44"
  "(gf_x ^^ 17) 0x44 = 0x93" "(gf_x ^^ 17) 0x93 = 0x4f" "(gf_x ^^ 17) 0x4f = 0x92"
  "(gf_x ^^ 17) 0x92 = 0xd7" "(gf_x ^^ 17) 0xd7 = 0xdc" "(gf_x ^^ 17) 0xdc = 0xdd"
  "(gf_x ^^ 17) 0xdd = 0x45" "(gf_x ^^ 17) 0x45 = 0x0b" "(gf_x ^^ 17) 0x0b = 1"
  by (simp_all add: numeral_eq_Suc) (simp_all add: gf_x_def)

lemma alpha_17_step: "alpha (17 + n) = (gf_x ^^ 17) (alpha n)"
  by (rule alpha_add)

lemma alpha_51: "alpha 51 = 0x0a"
  using alpha_17_step [of 0] alpha_17_step [of 17] alpha_17_step [of 34]
  by (simp add: gf_x_17)

lemma alpha_85: "alpha 85 = 0xd6"
  using alpha_17_step [of 51] alpha_17_step [of 68] by (simp add: gf_x_17 alpha_51)

lemma alpha_170: "alpha 170 = 0xd7"
  using alpha_17_step [of 85] alpha_17_step [of 102] alpha_17_step [of 119]
    alpha_17_step [of 136] alpha_17_step [of 153] by (simp add: gf_x_17 alpha_85)

lemma alpha_255: "alpha 255 = 1"
  using alpha_17_step [of 170] alpha_17_step [of 187] alpha_17_step [of 204]
    alpha_17_step [of 221] alpha_17_step [of 238] by (simp add: gf_x_17 alpha_170)

lemma alpha_eqD: "alpha (i + d) = alpha i \<Longrightarrow> alpha d = 1"
  using injD [OF inj_gf_x_funpow, of i "alpha d" 1] by (simp add: alpha_def funpow_add)

lemma alpha_mult_1: "alpha d = 1 \<Longrightarrow> alpha (n * d) = 1"
  by (induction n) (simp_all add: alpha_add, simp add: alpha_def)

lemma alpha_gcd: "alpha a = 1 \<Longrightarrow> alpha b = 1 \<Longrightarrow> alpha (gcd a b) = 1"
proof (induction a b rule: gcd_nat_induct)
  case (step m n)
  have "alpha (m div n * n + m mod n) = alpha (m div n * n)"
    using step.prems alpha_mult_1 [of n "m div n"] by simp
  then have "alpha (m mod n) = 1" by (rule alpha_eqD)
  with step show ?case by (simp add: gcd_red_nat [of m n])
qed simp

lemma dvd_255_cases:
  assumes "(g::nat) dvd 255" and "g < 255"
  shows "g dvd 85 \<or> g dvd 51 \<or> g dvd 15"
proof -
  let ?P = "\<lambda>g. (85::nat) mod g = 0 \<or> 51 mod g = 0 \<or> 15 mod g = 0"
  have small: "list_all (\<lambda>g. (255::nat) mod g = 0 \<longrightarrow> ?P g) [1..<16]"
    and large: "list_all (\<lambda>q. (255::nat) mod q = 0 \<longrightarrow> ?P (255 div q)) [2..<16]"
    by (simp_all add: upt_rec numeral_2_eq_2 [symmetric])
  obtain q where q: "255 = g * q" using assms(1) by blast
  have "g < 16 \<or> q < 16"
    using mult_le_mono [of 16 g 16 q] q by linarith
  then have "?P g"
  proof
    assume "g < 16"
    with q have "g \<in> set [1..<16]" by (cases g) auto
    with small q show ?thesis unfolding list_all_iff by (metis mod_mult_self1_is_0)
  next
    assume "q < 16"
    moreover have "q \<noteq> 0" "q \<noteq> 1" using q assms(2) by (cases "q = 0"; auto)+
    ultimately have "q \<in> set [2..<16]" unfolding set_upt by simp
    moreover have "255 mod q = 0" "255 div q = g"
      using \<open>q \<noteq> 0\<close> unfolding q by simp_all
    ultimately show ?thesis using large unfolding list_all_iff by metis
  qed
  then show ?thesis by (simp add: dvd_eq_mod_eq_0)
qed

lemma alpha_order:
  assumes "0 < d" and "d < 255"
  shows "alpha d \<noteq> 1"
proof
  assume "alpha d = 1"
  then have g: "alpha (gcd d 255) = 1" using alpha_255 by (rule alpha_gcd)
  have "gcd d 255 dvd 255" by simp
  moreover have "gcd d 255 < 255"
    using assms gcd_le1_nat [of d 255] by linarith
  ultimately have "gcd d 255 dvd 85 \<or> gcd d 255 dvd 51 \<or> gcd d 255 dvd 15"
    by (rule dvd_255_cases)
  moreover have "alpha n = 1" if "gcd d 255 dvd n" for n
    using g alpha_mult_1 [of "gcd d 255" "n div gcd d 255"] that by simp
  ultimately show False
    using alpha_85 alpha_51 alpha_15 by fastforce
qed

lemma alpha_inj: "inj_on alpha {..<255}"
proof (rule linorder_inj_onI')
  fix i j assume "i \<in> {..<255}" "j \<in> {..<255}" and "i < (j::nat)"
  then show "alpha i \<noteq> alpha j"
    using alpha_eqD [of i "j - i"] alpha_order [of "j - i"] by auto
qed

lemma alpha_mod: "alpha (i mod 255) = alpha i"
proof -
  have "alpha (i mod 255 + i div 255 * 255) = (gf_x ^^ (i mod 255)) (alpha (i div 255 * 255))"
    by (rule alpha_add)
  then show ?thesis using alpha_mult_1 [OF alpha_255, of "i div 255"] by (simp add: alpha_def)
qed

lemma alpha_surj:
  assumes "a \<noteq> 0"
  obtains i where "i < 255" and "a = alpha i"
proof -
  have "card (UNIV :: u8 set) = 256" by (simp add: card_word)
  then have "card (UNIV - {0} :: u8 set) = 255" by (simp add: card_Diff_singleton)
  moreover have "card (alpha ` {..<255}) = 255" by (simp add: card_image alpha_inj)
  moreover have "alpha ` {..<255} \<subseteq> UNIV - {0}" by auto
  ultimately have "alpha ` {..<255} = UNIV - {0}"
    by (intro card_subset_eq) auto
  with assms that show thesis by auto
qed

section \<open>The tables hold the powers of the generator\<close>

definition gf_fill_inv :: "nat \<Rightarrow> gf_tables \<times> u32 \<Rightarrow> bool" where
  "gf_fill_inv n s \<longleftrightarrow> snd s = ucast (alpha n)
     \<and> length (gf_exp (fst s)) = 512 \<and> length (gf_log (fst s)) = 256
     \<and> (\<forall>j<n. gf_exp (fst s) ! j = alpha j)
     \<and> (\<forall>j<n. gf_log (fst s) ! unat (alpha j) = of_nat j)"

lemma unat_u8_less [simp]: "unat (a :: u8) < 256"
  using unsigned_less [of a, where ?'a = nat] by simp

lemma unat_u8_eq_iff: "unat (a :: u8) = unat b \<longleftrightarrow> a = b"
  by (rule word_unat_eq_iff [symmetric])

lemma ucast_u8_u32_u8 [simp]: "ucast (ucast a :: u32) = (a :: u8)"
  by (rule bit_word_eqI) (simp add: bit_simps)

lemma gf_fill_inv_step:
  assumes "n < 255" and "gf_fill_inv n s"
  shows "gf_fill_inv (Suc n) (gf_fill_step n s)"
proof -
  have "unat (alpha n) \<noteq> unat (alpha j)" if "j < n" for j
    using inj_onD [OF alpha_inj, of j n] that assms(1) by (auto simp: unat_u8_eq_iff)
  with assms show ?thesis
    by (auto simp: gf_fill_inv_def gf_fill_step_def Let_def gf_next_ucast alpha_Suc
        nth_list_update less_Suc_eq)
qed

lemma gf_fill: "gf_fill_inv 255 (for_upto 255 gf_fill_step (gf_zero_tables, 1))"
proof (rule for_upto_invariant)
  show "gf_fill_inv 0 (gf_zero_tables, 1)"
    unfolding gf_fill_inv_def gf_zero_tables_def
    by simp
qed (rule gf_fill_inv_step)

lemma gf_exp_double:
  assumes "length e = 512" and "\<And>j. j < 255 \<Longrightarrow> e ! j = alpha j" and "255 + n \<le> 512"
    and "i < 255 + n"
  shows "fold (\<lambda>i e. e[i := e ! (i - 255)]) [255..<255 + n] e ! i = alpha i"
  using assms(3,4)
proof (induction n arbitrary: i)
  case 0
  then show ?case using assms by simp
next
  case (Suc n)
  have len: "length (fold (\<lambda>i e. e[i := e ! (i - 255)]) xs e) = 512" for xs
    using assms(1) by (induction xs arbitrary: e) auto
  have "alpha (255 + n) = alpha n"
    using alpha_mod [of "255 + n"] alpha_mod [of n] by simp
  moreover have "[255..<255 + Suc n] = [255..<255 + n] @ [255 + n]"
    using upt_Suc_append [of 255 "255 + n"] by simp
  ultimately show ?case
    using Suc.IH [of i] Suc.IH [of n] Suc.prems len
    by (cases "i = 255 + n") (simp_all only: fold_append, simp_all)
qed

text \<open>The generator loop of \<^verbatim>\<open>gf_init_tables\<close> ends with the powers 0 to 254 in place.\<close>

lemma gf_tbl_eq:
  obtains t where "gf_fill_inv 255 (t, ucast (alpha 255))"
    and "gf_exp gf_tbl = fold (\<lambda>i e. e[i := e ! (i - 255)]) [255..<512] (gf_exp t)"
    and "gf_log gf_tbl = (gf_log t)[0 := 0]"
proof (rule that)
  let ?s = "for_upto 255 gf_fill_step (gf_zero_tables, 1)"
  show "gf_fill_inv 255 (fst ?s, ucast (alpha 255))"
    using gf_fill by (simp add: gf_fill_inv_def del: upt_rec_numeral)
qed (simp_all add: gf_tbl_def gf_init_tables_def Let_def del: upt_rec_numeral)

lemma gf_exp_tbl:
  assumes "i < 512"
  shows "gf_expv i = alpha i"
proof -
  obtain t where "gf_fill_inv 255 (t, ucast (alpha 255))"
    and "gf_exp gf_tbl = fold (\<lambda>i e. e[i := e ! (i - 255)]) [255..<512] (gf_exp t)"
    by (rule gf_tbl_eq)
  with gf_exp_double [of "gf_exp t" 257 i] assms show ?thesis
    by (simp add: gf_fill_inv_def del: upt_rec_numeral)
qed

lemma gf_log_tbl:
  assumes "i < 255"
  shows "gf_logv (alpha i) = i"
proof -
  have "unat (alpha i) \<noteq> 0" by (simp add: unat_eq_zero)
  moreover obtain t where "gf_fill_inv 255 (t, ucast (alpha 255))"
    and "gf_log gf_tbl = (gf_log t)[0 := 0]"
    by (rule gf_tbl_eq)
  ultimately show ?thesis using assms
    by (simp add: gf_fill_inv_def unat_of_nat)
qed

section \<open>The operations on powers of the generator\<close>

lemma gf_mul_alpha:
  assumes "i < 255"
  shows "gf_mul (alpha i) b = (gf_x ^^ i) b"
proof (cases "b = 0")
  case True
  then show ?thesis by (simp add: gf_mul_def)
next
  case False
  then obtain j where "j < 255" "b = alpha j" by (rule alpha_surj)
  with assms show ?thesis by (simp add: gf_mul_def gf_log_tbl gf_exp_tbl alpha_add)
qed

lemma gf_mul_alpha_alpha: "gf_mul (alpha i) (alpha j) = alpha (i + j)"
proof -
  have "gf_mul (alpha (i mod 255)) (alpha j) = alpha (i mod 255 + j)"
    by (simp add: gf_mul_alpha alpha_add)
  also have "\<dots> = alpha (i + j)"
    using alpha_mod [of "i mod 255 + j"] alpha_mod [of "i + j"] by (simp add: mod_simps)
  finally show ?thesis by (simp add: alpha_mod)
qed

lemma gf_mul_0 [simp]: "gf_mul 0 a = 0" "gf_mul a 0 = 0"
  by (simp_all add: gf_mul_def)

lemma gf_mul_commute: "gf_mul a b = gf_mul b a"
  by (simp add: gf_mul_def add.commute)

lemma gf_mul_assoc: "gf_mul (gf_mul a b) c = gf_mul a (gf_mul b c)"
proof (cases "a = 0 \<or> b = 0 \<or> c = 0")
  case True
  then show ?thesis by auto
next
  case False
  then obtain i j k where "a = alpha i" "b = alpha j" "c = alpha k"
    using alpha_surj [of a] alpha_surj [of b] alpha_surj [of c] by metis
  then show ?thesis by (simp add: gf_mul_alpha_alpha add.assoc)
qed

lemma gf_mul_distrib: "gf_mul a (b XOR c) = gf_mul a b XOR gf_mul a c"
proof (cases "a = 0")
  case False
  then obtain i where "i < 255" "a = alpha i" by (rule alpha_surj)
  then show ?thesis by (simp add: gf_mul_alpha gf_x_funpow_xor)
qed simp

lemma gf_mul_1 [simp]: "gf_mul 1 a = a"
  using gf_mul_alpha [of 0 a] by simp

lemma gf_inv_alpha:
  assumes "i < 255"
  shows "gf_inv (alpha i) = alpha (255 - i)"
  using assms by (simp add: gf_inv_def gf_log_tbl gf_exp_tbl)

lemma gf_mul_inv:
  assumes "a \<noteq> 0"
  shows "gf_mul (gf_inv a) a = 1"
proof -
  from assms obtain i where "i < 255" "a = alpha i" by (rule alpha_surj)
  then show ?thesis by (simp add: gf_inv_alpha gf_mul_alpha_alpha alpha_255)
qed

text \<open>\<open>gf_pow\<close> iterates multiplication, for every base and every exponent of a byte.\<close>

lemma gf_mul_funpow_alpha: "(gf_mul (alpha i) ^^ n) 1 = alpha (i * n)"
  by (induction n) (simp_all add: gf_mul_alpha_alpha algebra_simps)

lemma gf_pow_funpow: "gf_pow a n = (gf_mul a ^^ unat n) 1"
proof (cases "n = 0 \<or> a = 0")
  case True
  then show ?thesis
    by (cases "unat n") (auto simp: gf_pow_def unat_eq_zero)
next
  case False
  then obtain i where "i < 255" "a = alpha i" using alpha_surj by metis
  with False show ?thesis
    by (simp add: gf_pow_def gf_log_tbl gf_exp_tbl alpha_mod gf_mul_funpow_alpha)
qed

section \<open>The field of bytes\<close>

text \<open>
  \<open>gf\<close> wraps a byte so that the library's \<open>field\<close>, sums and powers apply to the operations
  above: its class operations are exactly \<open>gf_add\<close>, \<open>gf_sub\<close>, \<open>gf_mul\<close>,
  \<open>gf_inv\<close> and \<open>gf_div\<close>.
\<close>

datatype gf = GF (un_gf: u8)

instantiation gf :: field
begin

definition zero_gf :: gf where "zero_gf = GF 0"
definition one_gf :: gf where "one_gf = GF 1"
definition plus_gf :: "gf \<Rightarrow> gf \<Rightarrow> gf" where
  "plus_gf a b = GF (gf_add (un_gf a) (un_gf b))"
definition minus_gf :: "gf \<Rightarrow> gf \<Rightarrow> gf" where
  "minus_gf a b = GF (gf_sub (un_gf a) (un_gf b))"
definition uminus_gf :: "gf \<Rightarrow> gf" where
  "uminus_gf a = a"
definition times_gf :: "gf \<Rightarrow> gf \<Rightarrow> gf" where
  "times_gf a b = GF (gf_mul (un_gf a) (un_gf b))"
definition inverse_gf :: "gf \<Rightarrow> gf" where
  "inverse_gf a = GF (gf_inv (un_gf a))"
definition divide_gf :: "gf \<Rightarrow> gf \<Rightarrow> gf" where
  "divide_gf a b = GF (gf_div (un_gf a) (un_gf b))"

lemmas gf_class_defs = zero_gf_def one_gf_def plus_gf_def minus_gf_def uminus_gf_def
  times_gf_def inverse_gf_def divide_gf_def

instance
proof
  fix a b c :: gf
  show "a * b * c = a * (b * c)" by (simp add: gf_class_defs gf_mul_assoc)
  show "a * b = b * a" by (simp add: gf_class_defs gf_mul_commute)
  show "1 * a = a" by (simp add: gf_class_defs)
  show "a + b + c = a + (b + c)" by (simp add: gf_class_defs gf_add_def xor.assoc)
  show "a + b = b + a" by (simp add: gf_class_defs gf_add_def xor.commute)
  show "0 + a = a" by (simp add: gf_class_defs gf_add_def)
  show "- a + a = 0" by (simp add: gf_class_defs gf_add_def)
  show "a - b = a + - b" by (simp add: gf_class_defs gf_add_def gf_sub_def)
  show "(a + b) * c = a * c + b * c"
    by (simp add: gf_class_defs gf_add_def gf_mul_distrib gf_mul_commute [of _ "un_gf c"])
  show "(0 :: gf) \<noteq> 1" by (simp add: gf_class_defs)
  show "inverse a * a = 1" if "a \<noteq> 0"
    using that by (cases a) (simp add: gf_class_defs gf_mul_inv)
  show "a div b = a * inverse b" by (simp add: gf_class_defs gf_div_def)
  show "inverse (0 :: gf) = 0" by (simp add: gf_class_defs gf_inv_def)
qed

end

lemma gf_add_self [simp]: "(a :: gf) + a = 0"
  by (simp add: gf_class_defs gf_add_def)

lemma gf_uminus [simp]: "- (a :: gf) = a"
  by (simp add: uminus_gf_def)

lemma gf_minus_plus: "(a :: gf) - b = a + b"
  by (simp add: gf_class_defs gf_add_def gf_sub_def)

lemma GF_eq_0 [simp]: "GF a = 0 \<longleftrightarrow> a = 0"
  by (simp add: zero_gf_def)

text \<open>The code's byte operations are the field's operations.\<close>

lemma GF_ops [gf_simps]:
  "GF (gf_add a b) = GF a + GF b" "GF (gf_sub a b) = GF a - GF b"
  "GF (a XOR b) = GF a + GF b"
  "GF (gf_mul a b) = GF a * GF b" "GF (gf_inv a) = inverse (GF a)"
  "GF (gf_div a b) = GF a / GF b" "GF 0 = 0" "GF 1 = 1"
  by (simp_all add: gf_class_defs gf_add_def)

lemma GF_gf_pow [gf_simps]: "GF (gf_pow a n) = GF a ^ unat n"
proof -
  have "GF ((gf_mul a ^^ k) 1) = GF a ^ k" for k
    by (induction k) (simp_all add: gf_simps)
  then show ?thesis by (simp add: gf_pow_funpow)
qed

section \<open>Multiplication tables of a coefficient\<close>

lemma gf_exp_log_mul:
  "a \<noteq> 0 \<Longrightarrow> b \<noteq> 0 \<Longrightarrow> gf_expv (gf_logv a + gf_logv b) = gf_mul a b"
  by (simp add: gf_mul_def)

lemma length_gf_mul_tbl_init [simp]: "length (gf_mul_tbl_init c tbl) = length tbl"
  by (simp add: gf_mul_tbl_init_def Let_def del: upt_rec_numeral)

lemma of_nat_u8_ne_0: "0 < n \<Longrightarrow> n < 256 \<Longrightarrow> (of_nat n :: u8) \<noteq> 0"
  by (simp add: word_unat_eq_iff unat_of_nat)

text \<open>\<^verbatim>\<open>gf_mul_tbl_init\<close> fills in the whole row of the multiplication table.\<close>

lemma gf_mul_tbl_init_nth:
  assumes "length tbl = 256"
  shows "gf_mul_tbl_init c tbl ! unat b = gf_mul c b"
proof (cases "b = 0")
  case True
  then show ?thesis using assms
    by (simp add: gf_mul_tbl_init_def Let_def nth_fold_update_other [where p = "\<lambda>b. b"]
        del: upt_rec_numeral)
next
  case False
  then have b: "unat b \<in> set [1..<256]"
    using unat_u8_less [of b] by (simp add: unat_gt_0 Suc_le_eq del: upt_rec_numeral)
  have *: "fold (\<lambda>b t. t[b := g b]) [1..<256] t ! unat b = g (unat b)"
    if "length t = 256" for g :: "nat \<Rightarrow> u8" and t
    using nth_fold_update [where p = "\<lambda>b. b" and xs = "[1..<256]" and i = "unat b" and arr = t] b that
    by (simp del: upt_rec_numeral)
  show ?thesis
    using assms False
    by (simp add: gf_mul_tbl_init_def Let_def * gf_exp_log_mul del: upt_rec_numeral One_nat_def)
qed

text \<open>The split tables: the low nibble selects in the first half, the high nibble in the second.\<close>

lemma length_gf_mul_split_tbl_init [simp]:
  "length (gf_mul_split_tbl_init c tbl) = length tbl"
proof -
  have "length (fold (\<lambda>i t. t[i := 0, 16 + i := (0::u8)]) xs t) = length t" for xs t
    by (induction xs arbitrary: t) auto
  then show ?thesis
    by (simp add: gf_mul_split_tbl_init_def Let_def del: upt_rec_numeral)
qed

lemma fold_update_two_zero:
  "length t = 32 \<Longrightarrow> t ! j = 0 \<or> j \<in> set xs \<or> (16 \<le> j \<and> j - 16 \<in> set xs) \<Longrightarrow> j < 32 \<Longrightarrow>
   fold (\<lambda>i t. t[i := 0, 16 + i := (0::u8)]) xs t ! j = 0"
proof (induction xs arbitrary: t)
  case (Cons a xs)
  have "t[a := 0, 16 + a := 0] ! j = 0" if "t ! j = 0 \<or> j = a \<or> j = 16 + a"
    using that Cons.prems by (cases "j = 16 + a"; cases "j = a") auto
  with Cons show ?case by auto
qed simp

lemma gf_mul_split_tbl_init_nth:
  assumes "length tbl = 32" and "i < 16"
  shows "gf_mul_split_tbl_init c tbl ! i = gf_mul c (of_nat i)"
    and "gf_mul_split_tbl_init c tbl ! (16 + i) = gf_mul c (of_nat (push_bit 4 i))"
proof -
  let ?g = "\<lambda>i. gf_expv (gf_logv c + gf_logv (of_nat i))"
  let ?t = "tbl[0 := 0, 16 := 0]"
  let ?lo = "fold (\<lambda>i t. t[i := ?g i]) [1..<16] ?t"
  let ?hi = "fold (\<lambda>i t. t[16 + i := ?g (push_bit 4 i)]) [1..<16] ?lo"
  have mul: "?g n = gf_mul c (of_nat n)" if "c \<noteq> 0" "0 < n" "n < 256" for n
    using that of_nat_u8_ne_0 [of n] by (simp add: gf_exp_log_mul)
  have lo: "?lo ! i = (if 0 < i then ?g i else 0)" "?lo ! 16 = 0"
    using nth_fold_update [of "\<lambda>i. i" "[1..<16]" i ?t ?g] assms
      nth_fold_update_other [of i "\<lambda>i. i" "[1..<16]" ?g ?t]
      nth_fold_update_other [of 16 "\<lambda>i. i" "[1..<16]" ?g ?t]
    by (auto simp: nth_list_update simp del: upt_rec_numeral)
  have hi: "?hi ! (16 + i) = (if 0 < i then ?g (push_bit 4 i) else ?lo ! 16)" "?hi ! i = ?lo ! i"
    using nth_fold_update [of "\<lambda>i. 16 + i" "[1..<16]" i ?lo "\<lambda>i. ?g (push_bit 4 i)"] assms
      nth_fold_update_other [of "16 + i" "\<lambda>i. 16 + i" "[1..<16]" "\<lambda>i. ?g (push_bit 4 i)" ?lo]
      nth_fold_update_other [of i "\<lambda>i. 16 + i" "[1..<16]" "\<lambda>i. ?g (push_bit 4 i)" ?lo]
    by (auto simp: inj_on_def simp del: upt_rec_numeral)
  have zero: "fold (\<lambda>i t. t[i := 0, 16 + i := 0]) [1..<16] ?t ! j = 0" if "j < 32" for j
  proof (rule fold_update_two_zero)
    show "?t ! j = 0 \<or> j \<in> set [1..<16] \<or> (16 \<le> j \<and> j - 16 \<in> set [1..<16])"
      using that assms(1) by (cases "j = 0 \<or> j = 16") (auto simp del: upt_rec_numeral)
  qed (use that assms(1) in simp_all)
  have tbl: "gf_mul_split_tbl_init c tbl =
      (if c = 0 then fold (\<lambda>i t. t[i := 0, 16 + i := 0]) [1..<16] ?t else ?hi)"
    by (simp only: gf_mul_split_tbl_init_def Let_def)
  have push: "0 < push_bit 4 i" "push_bit 4 i < 256" if "0 < i"
    using that assms(2) by (simp_all add: push_bit_eq_mult)
  show "gf_mul_split_tbl_init c tbl ! i = gf_mul c (of_nat i)"
    using zero [of i] assms(2) mul [of i] hi(2) lo(1) unfolding tbl by auto
  show "gf_mul_split_tbl_init c tbl ! (16 + i) = gf_mul c (of_nat (push_bit 4 i))"
    using zero [of "16 + i"] assms(2) mul [of "push_bit 4 i"] push hi(1) lo(2) unfolding tbl
    by (auto simp: push_bit_eq_mult)
qed

text \<open>
  A byte is the sum of its nibbles, so two lookups in the split table multiply by the
  coefficient. This is what the SIMD byte shuffles of \<^verbatim>\<open>rs.c\<close> compute.
\<close>

definition gf_split_lookup :: "u8 list \<Rightarrow> u8 \<Rightarrow> u8" where
  "gf_split_lookup tbl b = tbl ! unat (b AND 0x0f) XOR tbl ! (16 + unat (drop_bit 4 b))"

lemma u8_nibbles: "(b :: u8) = (b AND 0x0f) XOR push_bit 4 (drop_bit 4 b)"
proof (rule bit_word_eqI)
  fix n assume "n < LENGTH(8)"
  moreover have "bit (0x0f :: u8) n \<longleftrightarrow> n < 4"
    using bit_mask_iff [of 4 n, where ?'a = u8] by (auto simp: mask_numeral)
  ultimately show "bit b n = bit ((b AND 0x0f) XOR push_bit 4 (drop_bit 4 b)) n"
    by (auto simp: bit_xor_iff bit_and_iff bit_push_bit_iff bit_drop_bit_eq)
qed

lemma gf_split_lookup_mul:
  assumes "length tbl = 32"
  shows "gf_split_lookup (gf_mul_split_tbl_init c tbl) b = gf_mul c b"
proof -
  have lo: "unat (b AND 0x0f) < 16"
    using word_and_le1 [of b "0x0f"] by (simp add: word_le_nat_alt)
  have hi: "unat (drop_bit 4 b) < 16"
    using unat_u8_less [of b] unfolding unat_drop_bit_eq
    by (simp add: drop_bit_eq_div div_less_iff_less_mult del: unat_u8_less)
  have "gf_split_lookup (gf_mul_split_tbl_init c tbl) b
      = gf_mul c (b AND 0x0f) XOR gf_mul c (of_nat (push_bit 4 (unat (drop_bit 4 b))))"
    using gf_mul_split_tbl_init_nth [OF assms lo] gf_mul_split_tbl_init_nth [OF assms hi]
    by (simp add: gf_split_lookup_def)
  also have "(of_nat (push_bit 4 (unat (drop_bit 4 b))) :: u8) = push_bit 4 (drop_bit 4 b)"
    by (simp add: push_bit_eq_mult)
  finally show ?thesis
    using gf_mul_distrib [of c "b AND 0x0f" "push_bit 4 (drop_bit 4 b)"] u8_nibbles [of b]
    by simp
qed

text \<open>Multiplication of polynomials over GF(2), reduced bit by bit modulo \<open>x^8 + x^4 + x^3 + x^2 + 1\<close>.\<close>

definition gf_poly_mul :: "u8 \<Rightarrow> u8 \<Rightarrow> u8" where
  "gf_poly_mul a b = foldr (\<lambda>i acc. (if bit b i then (gf_x ^^ i) a else 0) XOR acc) [0..<8] 0"

lemma u8_bits: "(b :: u8) = foldr (\<lambda>i acc. (if bit b i then push_bit i 1 else 0) XOR acc) [0..<8] 0"
proof (rule bit_word_eqI)
  fix n assume n: "n < LENGTH(8)"
  have one: "bit (if bit b i then push_bit i 1 else (0 :: u8)) n \<longleftrightarrow> n = i \<and> bit b n" for i
    using n by (auto simp: bit_push_bit_iff bit_1_iff simp del: push_bit_of_1)
  have "bit (foldr (\<lambda>i acc. (if bit b i then push_bit i 1 else 0) XOR acc) xs (0 :: u8)) n
      \<longleftrightarrow> n \<in> set xs \<and> bit b n" if "distinct xs" for xs
    using that by (induction xs) (auto simp only: foldr.simps o_apply id_apply bit_xor_iff one
        distinct.simps list.set bit_0_eq insert_iff empty_iff bot_apply bot_bool_def)
  from this [of "[0..<8]"] show "bit b n =
      bit (foldr (\<lambda>i acc. (if bit b i then push_bit i 1 else 0) XOR acc) [0..<8] (0 :: u8)) n"
    using n by auto
qed

lemma gf_mul_foldr:
  "gf_mul a (foldr (\<lambda>i acc. f i XOR acc) xs 0) = foldr (\<lambda>i acc. gf_mul a (f i) XOR acc) xs 0"
  by (induction xs) (simp_all add: gf_mul_distrib)

lemma alpha_push_bit: "i < 8 \<Longrightarrow> alpha i = push_bit i 1"
proof (induction i)
  case (Suc i)
  then have IH: "alpha i = push_bit i 1" by simp
  have "\<not> bit (push_bit i (1 :: u8)) 7" using Suc.prems by (simp add: bit_push_bit_iff bit_1_iff del: push_bit_of_1)
  then have "alpha (Suc i) = push_bit 1 (push_bit i 1)" unfolding alpha_Suc gf_x_def IH by simp
  then show ?case by (simp only: push_bit_push_bit) (simp only: plus_1_eq_Suc)
qed simp

lemma gf_mul_alpha_funpow: "gf_mul a (alpha i) = (gf_x ^^ i) a"
proof (cases "a = 0")
  case True
  have "(gf_x ^^ i) 0 = 0" by (induction i) (auto simp: gf_x_def)
  then show ?thesis using True by simp
next
  case False
  then obtain j where "j < 255" "a = alpha j" by (rule alpha_surj)
  then show ?thesis by (simp add: gf_mul_alpha_alpha alpha_add add.commute [of j])
qed

section \<open>Properties\<close>

text \<open>
  C39. Multiplication through the logarithm and exponential tables that \<^verbatim>\<open>gf_init_tables\<close>
  builds is multiplication of polynomials over GF(2) modulo the primitive polynomial 0x11d.
\<close>

theorem gf_mul_polynomial: "gf_mul a b = gf_poly_mul a b"
proof -
  have "gf_mul a b = gf_mul a (foldr (\<lambda>i acc. (if bit b i then push_bit i 1 else 0) XOR acc) [0..<8] 0)"
    using u8_bits [of b] by simp
  also have "\<dots> = foldr (\<lambda>i acc. gf_mul a (if bit b i then push_bit i 1 else 0) XOR acc) [0..<8] 0"
    by (rule gf_mul_foldr)
  also have "\<dots> = foldr (\<lambda>i acc. (if bit b i then (gf_x ^^ i) a else 0) XOR acc) [0..<8] 0"
    by (rule foldr_cong) (auto simp del: push_bit_of_1 simp flip: alpha_push_bit simp: gf_mul_alpha_funpow)
  finally show ?thesis by (simp only: gf_poly_mul_def)
qed

text \<open>
  Division undoes multiplication by any non-zero byte, and every non-zero byte has the inverse
  that \<^verbatim>\<open>gf_inv\<close> looks up.
\<close>

theorem gf_div_mul:
  assumes "b \<noteq> 0"
  shows "gf_div (gf_mul a b) b = a \<and> gf_mul b (gf_inv b) = 1"
proof -
  have inv: "gf_mul b (gf_inv b) = 1" using gf_mul_inv [OF assms] by (simp add: gf_mul_commute)
  then have "gf_mul (gf_mul a b) (gf_inv b) = a" by (simp add: gf_mul_assoc gf_mul_commute [of a 1])
  with inv show ?thesis by (simp add: gf_div_def)
qed

theorem gf_div_mul_witness: "gf_div (gf_mul 0x53 0xca) 0xca = 0x53 \<and> gf_mul 0xca (gf_inv 0xca) = 1"
  by (rule gf_div_mul) simp

end
