(* ===== verification/GF_Matrix.thy ===== *)
theory GF_Matrix
  imports Complex_Main GF256
begin

text \<open>
  Matrices over GF(2^8) (\<^verbatim>\<open>src/lib/ec/matrix.c\<close>, \<^verbatim>\<open>matrix.h\<close>): row-major
  byte arrays, multiplication, inversion by Gauss-Jordan elimination with pivot search, and the
  Vandermonde matrix. The second half abstracts a matrix to a function into the field \<open>gf\<close> and
  proves that \<^verbatim>\<open>gf_matrix_invert\<close> succeeds exactly on the matrices with a trivial kernel,
  where it returns the two-sided inverse, and that any square selection of rows of the
  Vandermonde matrix has a trivial kernel.
\<close>

section \<open>The matrix operations\<close>

record gf_matrix =
  m_rows :: nat
  m_cols :: nat
  m_data :: "u8 list"

definition gf_matrix_create :: "allocs \<Rightarrow> int \<Rightarrow> int \<Rightarrow> gf_matrix option" where
  "gf_matrix_create mem rows cols =
     (if rows \<le> 0 \<or> cols \<le> 0 then None
      else if \<not> mem ''gf_matrix'' then None
      else if \<not> mem ''gf_matrix.data'' then None
      else Some \<lparr>m_rows = nat rows, m_cols = nat cols,
                 m_data = replicate (nat rows * nat cols) 0\<rparr>)"

definition gf_matrix_get :: "gf_matrix \<Rightarrow> nat \<Rightarrow> nat \<Rightarrow> u8" where
  "gf_matrix_get m r c = m_data m ! (r * m_cols m + c)"

definition gf_matrix_set :: "gf_matrix \<Rightarrow> nat \<Rightarrow> nat \<Rightarrow> u8 \<Rightarrow> gf_matrix" where
  "gf_matrix_set m r c v = m\<lparr>m_data := (m_data m)[r * m_cols m + c := v]\<rparr>"

definition gf_matrix_mul :: "gf_matrix \<Rightarrow> gf_matrix \<Rightarrow> gf_matrix \<Rightarrow> errno + gf_matrix" where
  "gf_matrix_mul a b out =
     (if m_cols a \<noteq> m_rows b then Inl EINVAL
      else if m_rows out \<noteq> m_rows a \<or> m_cols out \<noteq> m_cols b then Inl EINVAL
      else Inr (for_upto (m_rows a) (\<lambda>r. for_upto (m_cols b) (\<lambda>c out.
             gf_matrix_set out r c
               (for_upto (m_cols a)
                  (\<lambda>i s. gf_add s (gf_mul (gf_matrix_get a r i) (gf_matrix_get b i c))) 0)))
           out))"

text \<open>
  The elimination works on the pair of the work copy and the output. The three loop bodies of
  \<^verbatim>\<open>gf_matrix_invert\<close> treat both matrices alike; each is one operation on a matrix, applied
  to the two of them in turn.
\<close>

definition swap_entry :: "nat \<Rightarrow> nat \<Rightarrow> nat \<Rightarrow> gf_matrix \<Rightarrow> gf_matrix" where
  "swap_entry col pivot j m =
     (let tmp = gf_matrix_get m col j;
          m = gf_matrix_set m col j (gf_matrix_get m pivot j)
      in gf_matrix_set m pivot j tmp)"

definition scale_entry :: "nat \<Rightarrow> u8 \<Rightarrow> nat \<Rightarrow> gf_matrix \<Rightarrow> gf_matrix" where
  "scale_entry col pinv j m = gf_matrix_set m col j (gf_mul (gf_matrix_get m col j) pinv)"

definition elim_entry :: "nat \<Rightarrow> nat \<Rightarrow> u8 \<Rightarrow> nat \<Rightarrow> gf_matrix \<Rightarrow> gf_matrix" where
  "elim_entry row col factor j m =
     gf_matrix_set m row j
       (gf_sub (gf_matrix_get m row j) (gf_mul factor (gf_matrix_get m col j)))"

definition find_pivot :: "gf_matrix \<Rightarrow> nat \<Rightarrow> nat \<Rightarrow> nat option" where
  "find_pivot work n col = find (\<lambda>row. gf_matrix_get work row col \<noteq> 0) [col..<n]"

definition elim_row :: "nat \<Rightarrow> nat \<Rightarrow> nat \<Rightarrow> gf_matrix \<times> gf_matrix \<Rightarrow> gf_matrix \<times> gf_matrix" where
  "elim_row n col row s =
     (if row = col then s
      else let factor = gf_matrix_get (fst s) row col in
        if factor = 0 then s
        else for_upto n (\<lambda>j. map_prod (elim_entry row col factor j) (elim_entry row col factor j)) s)"

text \<open>One turn of the column loop; \<open>Inl EINVAL\<close> leaves the loop when there is no pivot.\<close>

definition eliminate_column ::
  "nat \<Rightarrow> nat \<Rightarrow> gf_matrix \<times> gf_matrix \<Rightarrow> (errno \<times> gf_matrix) + (gf_matrix \<times> gf_matrix)" where
  "eliminate_column n col s =
     (case find_pivot (fst s) n col of
        None \<Rightarrow> Inl (EINVAL, snd s)
      | Some pivot \<Rightarrow>
          (let s = (if pivot \<noteq> col
                    then for_upto n (\<lambda>j. map_prod (swap_entry col pivot j) (swap_entry col pivot j)) s
                    else s);
               pinv = gf_inv (gf_matrix_get (fst s) col col);
               s = for_upto n (\<lambda>j. map_prod (scale_entry col pinv j) (scale_entry col pinv j)) s
           in Inr (for_upto n (elim_row n col) s)))"

primrec eliminate_columns ::
  "nat \<Rightarrow> nat \<Rightarrow> gf_matrix \<times> gf_matrix \<Rightarrow> (errno \<times> gf_matrix) + (gf_matrix \<times> gf_matrix)" where
  "eliminate_columns n 0 s = Inr s"
| "eliminate_columns n (Suc col) s =
     (case eliminate_columns n col s of Inl e \<Rightarrow> Inl e | Inr s \<Rightarrow> eliminate_column n col s)"

text \<open>
  The result is the return value (\<open>None\<close> for 0) and the contents of \<^verbatim>\<open>out\<close>, which a
  failing inversion has partly overwritten.
\<close>

definition gf_matrix_invert :: "allocs \<Rightarrow> gf_matrix \<Rightarrow> gf_matrix \<Rightarrow> errno option \<times> gf_matrix" where
  "gf_matrix_invert mem m out =
     (let n = m_rows m in
      if n \<noteq> m_cols m \<or> n \<noteq> m_rows out \<or> n \<noteq> m_cols out then (Some EINVAL, out)
      else (case gf_matrix_create mem (int n) (int n) of
        None \<Rightarrow> (Some ENOMEM, out)
      | Some work \<Rightarrow>
          (let work = work\<lparr>m_data := m_data m\<rparr>;
               out = out\<lparr>m_data := replicate (n * n) 0\<rparr>;
               out = for_upto n (\<lambda>i m. gf_matrix_set m i i 1) out
           in case eliminate_columns n n (work, out) of
                Inl (e, out) \<Rightarrow> (Some e, out)
              | Inr (work, out) \<Rightarrow> (None, out))))"

definition gf_matrix_vandermonde :: "allocs \<Rightarrow> int \<Rightarrow> int \<Rightarrow> gf_matrix option" where
  "gf_matrix_vandermonde mem rows cols =
     (case gf_matrix_create mem rows cols of
        None \<Rightarrow> None
      | Some m \<Rightarrow> Some (for_upto (nat rows) (\<lambda>r. for_upto (nat cols) (\<lambda>c m.
          gf_matrix_set m r c (gf_pow (of_nat (r + 1)) (of_nat c)))) m))"

section \<open>Specification: functions into the field\<close>

definition wf_mat :: "gf_matrix \<Rightarrow> bool" where
  "wf_mat m \<longleftrightarrow> length (m_data m) = m_rows m * m_cols m"

definition mat :: "gf_matrix \<Rightarrow> nat \<Rightarrow> nat \<Rightarrow> gf" where
  "mat m r c = (if r < m_rows m \<and> c < m_cols m then GF (gf_matrix_get m r c) else 0)"

text \<open>Product with inner dimension \<open>n\<close>, matrix-vector product, unit matrix, trivial kernel.\<close>

definition mmul :: "nat \<Rightarrow> (nat \<Rightarrow> nat \<Rightarrow> gf) \<Rightarrow> (nat \<Rightarrow> nat \<Rightarrow> gf) \<Rightarrow> nat \<Rightarrow> nat \<Rightarrow> gf" where
  "mmul n A B r c = (\<Sum>i<n. A r i * B i c)"

definition mvec :: "nat \<Rightarrow> (nat \<Rightarrow> nat \<Rightarrow> gf) \<Rightarrow> (nat \<Rightarrow> gf) \<Rightarrow> nat \<Rightarrow> gf" where
  "mvec n A v r = (\<Sum>c<n. A r c * v c)"

definition unit_mat :: "nat \<Rightarrow> nat \<Rightarrow> nat \<Rightarrow> gf" where
  "unit_mat n r c = (if r < n \<and> r = c then 1 else 0)"

definition ker_trivial :: "nat \<Rightarrow> (nat \<Rightarrow> nat \<Rightarrow> gf) \<Rightarrow> bool" where
  "ker_trivial n A \<longleftrightarrow> (\<forall>v. (\<forall>r<n. mvec n A v r = 0) \<longrightarrow> (\<forall>c<n. v c = 0))"

text \<open>The three row operations of the elimination.\<close>

definition rswap :: "nat \<Rightarrow> nat \<Rightarrow> (nat \<Rightarrow> nat \<Rightarrow> gf) \<Rightarrow> nat \<Rightarrow> nat \<Rightarrow> gf" where
  "rswap a b A r c = (if r = a then A b c else if r = b then A a c else A r c)"

definition rscale :: "nat \<Rightarrow> gf \<Rightarrow> (nat \<Rightarrow> nat \<Rightarrow> gf) \<Rightarrow> nat \<Rightarrow> nat \<Rightarrow> gf" where
  "rscale a k A r c = (if r = a then A r c * k else A r c)"

definition relim :: "nat \<Rightarrow> nat \<Rightarrow> gf \<Rightarrow> (nat \<Rightarrow> nat \<Rightarrow> gf) \<Rightarrow> nat \<Rightarrow> nat \<Rightarrow> gf" where
  "relim a b f A r c = (if r = a then A r c - f * A b c else A r c)"

text \<open>The loop invariant of the column loop; \<open>M\<close> is the matrix to invert.\<close>

definition gj_core :: "nat \<Rightarrow> (nat \<Rightarrow> nat \<Rightarrow> gf) \<Rightarrow> gf_matrix \<times> gf_matrix \<Rightarrow> bool" where
  "gj_core n M s \<longleftrightarrow>
     wf_mat (fst s) \<and> m_rows (fst s) = n \<and> m_cols (fst s) = n
   \<and> wf_mat (snd s) \<and> m_rows (snd s) = n \<and> m_cols (snd s) = n
   \<and> mmul n (mat (snd s)) M = mat (fst s)
   \<and> (\<forall>v. (\<forall>r<n. mvec n (mat (fst s)) v r = 0) \<longrightarrow> (\<forall>r<n. mvec n M v r = 0))
   \<and> ker_trivial n (mat (snd s))"

definition unit_cols :: "nat \<Rightarrow> nat \<Rightarrow> (nat \<Rightarrow> nat \<Rightarrow> gf) \<Rightarrow> bool" where
  "unit_cols n col W \<longleftrightarrow> (\<forall>r<n. \<forall>c<col. W r c = (if r = c then 1 else 0))"

section \<open>Element access\<close>

lemma idx_eq [simp]:
  assumes "c < n" "c' < n"
  shows "r * n + c = r' * n + c' \<longleftrightarrow> r = r' \<and> (c::nat) = c'"
proof
  assume e: "r * n + c = r' * n + c'"
  have "(r * n + c) div n = r" "(r' * n + c') div n = r'" using assms by auto
  with e show "r = r' \<and> c = c'" by auto
qed auto

lemma idx_less:
  assumes "r < m" "c < (n::nat)"
  shows "r * n + c < m * n"
proof -
  have "r * n + c < Suc r * n" using assms by simp
  also have "\<dots> \<le> m * n" using assms by (intro mult_le_mono1) auto
  finally show ?thesis .
qed

lemma set_dims [simp]:
  "m_rows (gf_matrix_set m r c v) = m_rows m"
  "m_cols (gf_matrix_set m r c v) = m_cols m"
  "wf_mat (gf_matrix_set m r c v) = wf_mat m"
  by (simp_all add: gf_matrix_set_def wf_mat_def)

lemma gf_matrix_get_set [mat_simps]:
  assumes "wf_mat m" "r < m_rows m" "c < m_cols m" "r' < m_rows m" "c' < m_cols m"
  shows "gf_matrix_get (gf_matrix_set m r c v) r' c' =
           (if r' = r \<and> c' = c then v else gf_matrix_get m r' c')"
  using assms idx_less [of r "m_rows m" c "m_cols m"]
  by (auto simp: gf_matrix_get_def gf_matrix_set_def wf_mat_def nth_list_update)

lemma mat_set [mat_simps]:
  assumes "wf_mat m" "r < m_rows m" "c < m_cols m"
  shows "mat (gf_matrix_set m r c v) r' c' = (if r' = r \<and> c' = c then GF v else mat m r' c')"
  using assms by (auto simp: mat_def mat_simps)

lemma GF_get: "r < m_rows m \<Longrightarrow> c < m_cols m \<Longrightarrow> GF (gf_matrix_get m r c) = mat m r c"
  by (simp add: mat_def)

lemma get_mat: "r < m_rows m \<Longrightarrow> c < m_cols m \<Longrightarrow> gf_matrix_get m r c = un_gf (mat m r c)"
  by (simp add: mat_def)

lemma mat_outside [simp]:
  "m_rows m \<le> r \<Longrightarrow> mat m r c = 0" "m_cols m \<le> c \<Longrightarrow> mat m r c = 0"
  by (simp_all add: mat_def)

text \<open>A matrix is determined by its dimensions and its abstraction.\<close>

lemma mat_eqI:
  assumes "wf_mat a" "wf_mat b" "m_rows a = m_rows b" "m_cols a = m_cols b" "mat a = mat b"
  shows "a = (b :: gf_matrix)"
proof -
  have "m_data a = m_data b"
  proof (rule nth_equalityI)
    show "length (m_data a) = length (m_data b)" using assms by (simp add: wf_mat_def)
    fix i assume i: "i < length (m_data a)"
    then have c: "0 < m_cols a" using assms by (auto simp: wf_mat_def intro: Nat.gr0I)
    let ?r = "i div m_cols a" and ?c = "i mod m_cols a"
    have "?r < m_rows a" using i assms by (simp add: wf_mat_def less_mult_imp_div_less)
    moreover have "?c < m_cols a" using c by simp
    ultimately have "gf_matrix_get a ?r ?c = gf_matrix_get b ?r ?c"
      using assms by (simp add: get_mat)
    then show "m_data a ! i = m_data b ! i" using assms by (simp add: gf_matrix_get_def)
  qed
  then show ?thesis using assms by (intro gf_matrix.equality) auto
qed

lemma gf_matrix_create_Some:
  assumes "gf_matrix_create mem rows cols = Some m"
  shows "wf_mat m" "m_rows m = nat rows" "m_cols m = nat cols" "mat m = (\<lambda>_ _. 0)"
        "0 < rows" "0 < cols"
  using assms
  by (auto simp: gf_matrix_create_def wf_mat_def mat_def gf_matrix_get_def zero_gf_def
      fun_eq_iff nth_replicate idx_less split: if_splits)

section \<open>Loops over a row\<close>

lemma for_upto_map_prod:
  "for_upto n (\<lambda>j. map_prod (f j) (g j)) s = map_prod (for_upto n f) (for_upto n g) s"
  by (induction n) (auto simp: map_prod_def split: prod.splits)

lemma for_upto_map_prod_fun:
  "for_upto n (\<lambda>j. map_prod (f j) (g j)) = map_prod (for_upto n f) (for_upto n g)"
  by (rule ext) (rule for_upto_map_prod)

text \<open>
  A loop over the columns whose body applies a column-local operation \<open>T\<close> in column \<open>j\<close> applies
  \<open>T\<close> to the whole matrix.
\<close>

lemma column_loop:
  assumes wf: "wf_mat m"
    and dims: "\<And>j m'. m_rows (body j m') = m_rows m'" "\<And>j m'. m_cols (body j m') = m_cols m'"
      "\<And>j m'. wf_mat (body j m') = wf_mat m'"
    and step: "\<And>j m' r c. wf_mat m' \<Longrightarrow> m_rows m' = m_rows m \<Longrightarrow> m_cols m' = m_cols m \<Longrightarrow>
      j < m_cols m \<Longrightarrow> mat (body j m') r c = (if c = j then T (mat m') r c else mat m' r c)"
    and local_T: "\<And>A B r c. (\<And>r. A r c = B r c) \<Longrightarrow> T A r c = T B r c"
    and zero: "\<And>r c. m_cols m \<le> c \<Longrightarrow> T (mat m) r c = 0"
  shows "wf_mat (for_upto (m_cols m) body m)
    \<and> m_rows (for_upto (m_cols m) body m) = m_rows m
    \<and> m_cols (for_upto (m_cols m) body m) = m_cols m
    \<and> mat (for_upto (m_cols m) body m) = T (mat m)"
proof -
  let ?I = "\<lambda>i m'. wf_mat m' \<and> m_rows m' = m_rows m \<and> m_cols m' = m_cols m \<and>
    (\<forall>r c. mat m' r c = (if c < i then T (mat m) r c else mat m r c))"
  have I: "?I (m_cols m) (for_upto (m_cols m) body m)"
  proof (rule for_upto_invariant [where I = ?I])
    show "?I 0 m" using wf by simp
    fix i m' assume "i < m_cols m" and I: "?I i m'"
    then show "?I (Suc i) (body i m')"
      using local_T [of "mat m'" i "mat m"] by (auto simp: dims step less_Suc_eq)
  qed
  have "mat (for_upto (m_cols m) body m) r c = T (mat m) r c" for r c
    using I zero [of c r] by (cases "c < m_cols m") auto
  with I show ?thesis by (auto simp: fun_eq_iff)
qed

lemma entry_dims [simp]:
  "m_rows (swap_entry a b j m) = m_rows m" "m_cols (swap_entry a b j m) = m_cols m"
  "wf_mat (swap_entry a b j m) = wf_mat m"
  "m_rows (scale_entry a k j m) = m_rows m" "m_cols (scale_entry a k j m) = m_cols m"
  "wf_mat (scale_entry a k j m) = wf_mat m"
  "m_rows (elim_entry a b f j m) = m_rows m" "m_cols (elim_entry a b f j m) = m_cols m"
  "wf_mat (elim_entry a b f j m) = wf_mat m"
  by (simp_all add: swap_entry_def scale_entry_def elim_entry_def Let_def)

lemma swap_loop:
  assumes "wf_mat m" "a < m_rows m" "b < m_rows m"
  shows "wf_mat (for_upto (m_cols m) (swap_entry a b) m)
    \<and> m_rows (for_upto (m_cols m) (swap_entry a b) m) = m_rows m
    \<and> m_cols (for_upto (m_cols m) (swap_entry a b) m) = m_cols m
    \<and> mat (for_upto (m_cols m) (swap_entry a b) m) = rswap a b (mat m)"
  by (rule column_loop [where T = "rswap a b"]; use assms in
      \<open>auto simp: swap_entry_def rswap_def mat_simps Let_def GF_get gf_simps\<close>)

lemma scale_loop:
  assumes "wf_mat m" "a < m_rows m"
  shows "wf_mat (for_upto (m_cols m) (scale_entry a k) m)
    \<and> m_rows (for_upto (m_cols m) (scale_entry a k) m) = m_rows m
    \<and> m_cols (for_upto (m_cols m) (scale_entry a k) m) = m_cols m
    \<and> mat (for_upto (m_cols m) (scale_entry a k) m) = rscale a (GF k) (mat m)"
  by (rule column_loop [where T = "rscale a (GF k)"]; use assms in
      \<open>auto simp: scale_entry_def rscale_def mat_simps Let_def GF_get gf_simps\<close>)

lemma elim_loop:
  assumes "wf_mat m" "a < m_rows m" "b < m_rows m"
  shows "wf_mat (for_upto (m_cols m) (elim_entry a b f) m)
    \<and> m_rows (for_upto (m_cols m) (elim_entry a b f) m) = m_rows m
    \<and> m_cols (for_upto (m_cols m) (elim_entry a b f) m) = m_cols m
    \<and> mat (for_upto (m_cols m) (elim_entry a b f) m) = relim a b (GF f) (mat m)"
  by (rule column_loop [where T = "relim a b (GF f)"]; use assms in
      \<open>auto simp: elim_entry_def relim_def mat_simps Let_def GF_get gf_simps\<close>)

section \<open>Row operations keep products and kernels\<close>

lemma mmul_rswap: "mmul n (rswap a b A) M = rswap a b (mmul n A M)"
  by (auto simp: fun_eq_iff mmul_def rswap_def)

lemma mmul_rscale: "mmul n (rscale a k A) M = rscale a k (mmul n A M)"
  by (auto simp: fun_eq_iff mmul_def rscale_def sum_distrib_left algebra_simps)

lemma mmul_relim: "mmul n (relim a b f A) M = relim a b f (mmul n A M)"
  by (auto simp: fun_eq_iff mmul_def relim_def sum_distrib_left sum_subtractf algebra_simps)

lemma mvec_rswap:
  "mvec n (rswap a b A) v r = (if r = a then mvec n A v b else if r = b then mvec n A v a else mvec n A v r)"
  by (auto simp: mvec_def rswap_def)

lemma mvec_rscale: "mvec n (rscale a k A) v r = (if r = a then k * mvec n A v r else mvec n A v r)"
  by (auto simp: mvec_def rscale_def sum_distrib_left algebra_simps)

lemma mvec_relim:
  "mvec n (relim a b f A) v r = (if r = a then mvec n A v r - f * mvec n A v b else mvec n A v r)"
  by (auto simp: mvec_def relim_def sum_distrib_left sum_subtractf algebra_simps)

lemma kernel_rswap:
  assumes "a < n" "b < n"
  shows "(\<forall>r<n. mvec n (rswap a b A) v r = 0) \<longleftrightarrow> (\<forall>r<n. mvec n A v r = 0)" (is "?L \<longleftrightarrow> ?R")
proof
  assume L: ?L
  show ?R
  proof (intro allI impI)
    fix r assume "r < n"
    then show "mvec n A v r = 0"
      using L [rule_format, of r] L [rule_format, of a] L [rule_format, of b] assms
      by (simp add: mvec_rswap split: if_splits)
  qed
qed (use assms in \<open>simp add: mvec_rswap\<close>)

lemma kernel_rscale:
  assumes "k \<noteq> 0"
  shows "(\<forall>r<n. mvec n (rscale a k A) v r = 0) \<longleftrightarrow> (\<forall>r<n. mvec n A v r = 0)"
proof -
  have "mvec n (rscale a k A) v r = 0 \<longleftrightarrow> mvec n A v r = 0" for r
    using assms by (simp add: mvec_rscale)
  then show ?thesis by simp
qed

lemma kernel_relim:
  assumes "a \<noteq> b" "b < n"
  shows "(\<forall>r<n. mvec n (relim a b f A) v r = 0) \<longleftrightarrow> (\<forall>r<n. mvec n A v r = 0)" (is "?L \<longleftrightarrow> ?R")
proof
  assume L: ?L
  have b: "mvec n A v b = 0" using L [rule_format, of b] assms by (simp add: mvec_relim)
  show ?R
  proof (intro allI impI)
    fix r assume "r < n"
    then show "mvec n A v r = 0" using L [rule_format, of r] b by (simp add: mvec_relim split: if_splits)
  qed
qed (use assms in \<open>simp add: mvec_relim\<close>)

section \<open>Gauss-Jordan elimination\<close>

lemma gj_core_op:
  assumes "gj_core n M s"
    and "wf_mat w" "m_rows w = n" "m_cols w = n" "wf_mat u" "m_rows u = n" "m_cols u = n"
    and mats: "mat w = T (mat (fst s))" "mat u = T (mat (snd s))"
    and T_mmul: "\<And>A. mmul n (T A) M = T (mmul n A M)"
    and T_ker: "\<And>A v. (\<forall>r<n. mvec n (T A) v r = 0) \<longleftrightarrow> (\<forall>r<n. mvec n A v r = 0)"
  shows "gj_core n M (w, u)"
  using assms(1-7) unfolding gj_core_def ker_trivial_def mats fst_conv snd_conv T_ker T_mmul by simp

lemma gj_core_swap:
  assumes s: "gj_core n M s" and ab: "a < n" "b < n"
  defines "s' \<equiv> for_upto n (\<lambda>j. map_prod (swap_entry a b j) (swap_entry a b j)) s"
  shows "gj_core n M s'" and "mat (fst s') = rswap a b (mat (fst s))"
proof -
  have e: "s' = (for_upto n (swap_entry a b) (fst s), for_upto n (swap_entry a b) (snd s))"
    unfolding s'_def for_upto_map_prod by (simp add: map_prod_def split_beta)
  note d = s [unfolded gj_core_def]
  note w = swap_loop [of "fst s" a b] and u = swap_loop [of "snd s" a b]
  show "gj_core n M s'" unfolding e
    by (rule gj_core_op [OF s, where T = "rswap a b"]; use w u d ab in
        \<open>simp add: mmul_rswap kernel_rswap\<close>)
  show "mat (fst s') = rswap a b (mat (fst s))" using w d ab by (simp add: e)
qed

lemma gj_core_scale:
  assumes s: "gj_core n M s" and a: "a < n" and k: "k \<noteq> 0"
  defines "s' \<equiv> for_upto n (\<lambda>j. map_prod (scale_entry a k j) (scale_entry a k j)) s"
  shows "gj_core n M s'" and "mat (fst s') = rscale a (GF k) (mat (fst s))"
proof -
  have e: "s' = (for_upto n (scale_entry a k) (fst s), for_upto n (scale_entry a k) (snd s))"
    unfolding s'_def for_upto_map_prod by (simp add: map_prod_def split_beta)
  note d = s [unfolded gj_core_def]
  note w = scale_loop [of "fst s" a k] and u = scale_loop [of "snd s" a k]
  have "GF k \<noteq> 0" using k by simp
  then show "gj_core n M s'" unfolding e
    by (intro gj_core_op [OF s, where T = "rscale a (GF k)"]; use w u d a in
        \<open>simp add: mmul_rscale kernel_rscale\<close>)
  show "mat (fst s') = rscale a (GF k) (mat (fst s))" using w d a by (simp add: e)
qed

lemma gj_core_elim:
  fixes f :: u8
  assumes s: "gj_core n M s" and ab: "a < n" "b < n" "a \<noteq> b"
  defines "s' \<equiv> for_upto n (\<lambda>j. map_prod (elim_entry a b f j) (elim_entry a b f j)) s"
  shows "gj_core n M s'" and "mat (fst s') = relim a b (GF f) (mat (fst s))"
proof -
  have e: "s' = (for_upto n (elim_entry a b f) (fst s), for_upto n (elim_entry a b f) (snd s))"
    unfolding s'_def for_upto_map_prod by (simp add: map_prod_def split_beta)
  note d = s [unfolded gj_core_def]
  note w = elim_loop [of "fst s" a b f] and u = elim_loop [of "snd s" a b f]
  show "gj_core n M s'" unfolding e
    by (rule gj_core_op [OF s, where T = "relim a b (GF f)"]; use w u d ab in
        \<open>simp add: mmul_relim kernel_relim\<close>)
  show "mat (fst s') = relim a b (GF f) (mat (fst s))" using w d ab by (simp add: e)
qed

text \<open>A zero factor skips the inner loop, which would not change anything.\<close>

lemma relim_0: "relim a b 0 A = A"
  by (simp add: relim_def fun_eq_iff)

lemma gj_core_elim_row:
  assumes s: "gj_core n M s" and ab: "row < n" "col < n"
  shows "gj_core n M (elim_row n col row s)"
    and "mat (fst (elim_row n col row s)) =
      (if row = col then mat (fst s) else relim row col (mat (fst s) row col) (mat (fst s)))"
proof -
  have f: "mat (fst s) row col = GF (gf_matrix_get (fst s) row col)"
    using s ab by (simp add: mat_def gj_core_def)
  show "gj_core n M (elim_row n col row s)"
    using gj_core_elim [OF s ab] s by (simp add: elim_row_def Let_def)
  show "mat (fst (elim_row n col row s)) =
      (if row = col then mat (fst s) else relim row col (mat (fst s) row col) (mat (fst s)))"
    unfolding f using gj_core_elim [OF s ab] 
    by (simp add: elim_row_def Let_def relim_0 flip: zero_gf_def)
qed

lemma elim_rows_loop:
  assumes s: "gj_core n M s" "unit_cols n col (mat (fst s))" "mat (fst s) col col = 1"
    and col: "col < n"
  shows "gj_core n M (for_upto n (elim_row n col) s)
    \<and> unit_cols n (Suc col) (mat (fst (for_upto n (elim_row n col) s)))"
proof -
  let ?I = "\<lambda>i s. gj_core n M s \<and> unit_cols n col (mat (fst s)) \<and> mat (fst s) col col = 1
    \<and> (\<forall>r<i. r \<noteq> col \<longrightarrow> mat (fst s) r col = 0)"
  have "?I n (for_upto n (elim_row n col) s)"
  proof (rule for_upto_invariant [where I = ?I])
    fix i s assume i: "i < n" and I: "?I i s"
    then have "gj_core n M s" by simp
    from gj_core_elim_row [OF this i col] I i col show "?I (Suc i) (elim_row n col i s)"
      by (auto simp: relim_def unit_cols_def less_Suc_eq)
  qed (use s in auto)
  then show ?thesis by (auto simp: unit_cols_def less_Suc_eq)
qed

lemma find_pivot_Some:
  assumes "find_pivot w n col = Some p" "m_rows w = n" "m_cols w = n" "col < n"
  shows "col \<le> p" "p < n" "mat w p col \<noteq> 0"
  using assms by (auto simp: find_pivot_def find_Some_iff mat_def)

lemma find_pivot_None:
  assumes "find_pivot w n col = None" "m_rows w = n" "m_cols w = n" "col \<le> r" "r < n"
  shows "mat w r col = 0"
  using assms by (auto simp: find_pivot_def find_None_iff mat_def)

lemma eliminate_column_Inr:
  assumes s: "gj_core n M s" "unit_cols n col (mat (fst s))" and col: "col < n"
    and r: "eliminate_column n col s = Inr s'"
  shows "gj_core n M s' \<and> unit_cols n (Suc col) (mat (fst s'))"
proof -
  obtain p where p: "find_pivot (fst s) n col = Some p"
    using r by (auto simp: eliminate_column_def split: option.splits)
  define s1 where "s1 = (if p \<noteq> col
    then for_upto n (\<lambda>j. map_prod (swap_entry col p j) (swap_entry col p j)) s else s)"
  define k where "k = gf_inv (gf_matrix_get (fst s1) col col)"
  define s2 where "s2 = for_upto n (\<lambda>j. map_prod (scale_entry col k j) (scale_entry col k j)) s1"
  have s': "s' = for_upto n (elim_row n col) s2"
    using r p by (simp add: eliminate_column_def s1_def s2_def k_def Let_def)
  have pv: "col \<le> p" "p < n" "mat (fst s) p col \<noteq> 0"
    using find_pivot_Some [OF p _ _ col] s(1) by (auto simp: gj_core_def)
  have s1: "gj_core n M s1" "mat (fst s1) = rswap col p (mat (fst s))"
    using gj_core_swap [OF s(1) col pv(2)] s(1) by (auto simp: s1_def rswap_def fun_eq_iff)
  have ne: "mat (fst s1) col col \<noteq> 0" using pv s1 by (simp add: rswap_def)
  have d1: "GF (gf_matrix_get (fst s1) col col) = mat (fst s1) col col"
    using s1 col by (simp add: GF_get gj_core_def)
  have GFk: "GF k = inverse (mat (fst s1) col col)"
    unfolding k_def d1 [symmetric] by (simp add: gf_simps)
  then have k: "k \<noteq> 0" using ne by (metis GF_eq_0 nonzero_imp_inverse_nonzero)
  have s2: "gj_core n M s2" "mat (fst s2) = rscale col (GF k) (mat (fst s1))"
    using gj_core_scale [OF s1(1) col k] by (auto simp: s2_def)
  have "mat (fst s2) col col = 1" using ne by (simp add: s2 rscale_def GFk)
  moreover have "unit_cols n col (mat (fst s2))"
    using s(2) pv col by (auto simp: s2 s1 rscale_def rswap_def unit_cols_def)
  ultimately show ?thesis unfolding s' using elim_rows_loop s2(1) col by blast
qed

text \<open>Without a pivot, column \<open>col\<close> is a combination of the unit columns before it.\<close>

lemma eliminate_column_Inl:
  assumes s: "gj_core n M s" "unit_cols n col (mat (fst s))" and col: "col < n"
    and r: "eliminate_column n col s = Inl e"
  shows "\<not> ker_trivial n M"
proof
  assume M: "ker_trivial n M"
  let ?W = "mat (fst s)"
  define v where "v c = (if c < col then - ?W c col else if c = col then 1 else 0)" for c
  have p: "find_pivot (fst s) n col = None"
    using r by (auto simp: eliminate_column_def Let_def split: option.splits)
  have z: "?W r col = 0" if "col \<le> r" "r < n" for r
    using find_pivot_None [OF p] that s(1) by (auto simp: gj_core_def)
  have "mvec n ?W v r = 0" if r: "r < n" for r
  proof -
    have "mvec n ?W v r = (\<Sum>c\<in>{..col}. ?W r c * v c)"
      unfolding mvec_def by (rule sum.mono_neutral_right) (use col in \<open>auto simp: v_def\<close>)
    also have "\<dots> = (\<Sum>c<col. ?W r c * v c) + ?W r col"
      by (simp add: v_def flip: lessThan_Suc_atMost)
    also have "(\<Sum>c<col. ?W r c * v c) = (\<Sum>c<col. if c = r then v r else 0)"
      by (rule sum.cong) (use s(2) r in \<open>auto simp: unit_cols_def\<close>)
    also have "\<dots> = (if r < col then v r else 0)" by simp
    also have "\<dots> + ?W r col = 0"
      using z [of r] r by (cases "r < col") (auto simp: v_def simp del: gf_uminus)
    finally show ?thesis .
  qed
  then have "\<forall>r<n. mvec n M v r = 0" using s(1) by (auto simp: gj_core_def)
  with M col have "v col = 0" by (auto simp: ker_trivial_def)
  then show False by (simp add: v_def)
qed

lemma eliminate_columns_correct:
  assumes s: "gj_core n M s" and "col \<le> n"
  shows "case eliminate_columns n col s of
           Inl e \<Rightarrow> \<not> ker_trivial n M \<and> fst e = EINVAL
         | Inr s' \<Rightarrow> gj_core n M s' \<and> unit_cols n col (mat (fst s'))"
  using assms(2)
proof (induction col)
  case 0
  then show ?case using s by (simp add: unit_cols_def)
next
  case (Suc col)
  show ?case
  proof (cases "eliminate_columns n col s")
    case (Inl e)
    then show ?thesis using Suc by simp
  next
    case (Inr s')
    then have s': "gj_core n M s'" "unit_cols n col (mat (fst s'))" using Suc by auto
    have col: "col < n" using Suc.prems by simp
    have "fst e = EINVAL" if "eliminate_column n col s' = Inl e" for e
      using that by (auto simp: eliminate_column_def Let_def split: option.splits)
    then show ?thesis
      using eliminate_column_Inl [OF s' col] eliminate_column_Inr [OF s' col]
      by (auto simp: Inr split: sum.splits)
  qed
qed

section \<open>Inversion\<close>

lemma diag_loop:
  assumes "wf_mat m" "m_rows m = n" "m_cols m = n" "mat m = (\<lambda>_ _. 0)"
  shows "wf_mat (for_upto n (\<lambda>i m. gf_matrix_set m i i 1) m)
    \<and> m_rows (for_upto n (\<lambda>i m. gf_matrix_set m i i 1) m) = n
    \<and> m_cols (for_upto n (\<lambda>i m. gf_matrix_set m i i 1) m) = n
    \<and> mat (for_upto n (\<lambda>i m. gf_matrix_set m i i 1) m) = unit_mat n"
proof -
  let ?I = "\<lambda>i m. wf_mat m \<and> m_rows m = n \<and> m_cols m = n \<and> mat m = unit_mat i"
  show ?thesis
  proof (rule for_upto_invariant [where I = ?I])
    show "?I 0 m" using assms by (simp add: unit_mat_def fun_eq_iff)
    fix i m' assume "i < n" "?I i m'"
    then show "?I (Suc i) (gf_matrix_set m' i i 1)"
      by (auto simp: mat_simps unit_mat_def fun_eq_iff one_gf_def less_Suc_eq)
  qed
qed

lemma mmul_unit_left:
  assumes "\<And>r c. n \<le> r \<Longrightarrow> A r c = 0"
  shows "mmul n (unit_mat n) A = A"
proof (intro ext)
  fix r c
  have "mmul n (unit_mat n) A r c = (\<Sum>i<n. if i = r then A r c else 0)"
    unfolding mmul_def by (rule sum.cong) (auto simp: unit_mat_def)
  then show "mmul n (unit_mat n) A r c = A r c" using assms [of r c] by (cases "r < n") auto
qed

lemma mvec_unit: "mvec n (unit_mat n) v r = (if r < n then v r else 0)"
proof -
  have "mvec n (unit_mat n) v r = (\<Sum>i<n. if i = r then (if r < n then v r else 0) else 0)"
    unfolding mvec_def by (rule sum.cong) (auto simp: unit_mat_def)
  then show ?thesis by simp
qed

lemma mvec_mmul: "mvec n A (mvec n B v) = mvec n (mmul n A B) v"
proof
  fix r
  have "mvec n A (mvec n B v) r = (\<Sum>i<n. \<Sum>c<n. A r i * B i c * v c)"
    by (simp add: mvec_def sum_distrib_left mult.assoc)
  also have "\<dots> = (\<Sum>c<n. \<Sum>i<n. A r i * B i c * v c)" by (rule sum.swap)
  finally show "mvec n A (mvec n B v) r = mvec n (mmul n A B) v r"
    by (simp add: mvec_def mmul_def sum_distrib_right)
qed

lemma mmul_mvec: "mmul n A B r c = mvec n A (\<lambda>i. B i c) r"
  by (simp add: mmul_def mvec_def)

lemma left_inverse_ker_trivial:
  assumes "mmul n A B = unit_mat n"
  shows "ker_trivial n B"
  unfolding ker_trivial_def
proof (intro allI impI)
  fix v c assume z: "\<forall>r<n. mvec n B v r = 0" and c: "c < n"
  have "v c = mvec n A (mvec n B v) c" using c by (simp add: mvec_mmul assms mvec_unit)
  also have "\<dots> = 0" using z by (simp add: mvec_def [of n A])
  finally show "v c = 0" .
qed

text \<open>A left inverse of a square matrix with trivial kernel is a right inverse.\<close>

lemma right_inverse:
  assumes AB: "mmul n A B = unit_mat n" and A: "ker_trivial n A"
    and out: "\<And>r c. n \<le> r \<Longrightarrow> B r c = 0" "\<And>r c. n \<le> c \<Longrightarrow> A r c = 0"
  shows "mmul n B A = unit_mat n"
proof (intro ext)
  fix i c
  let ?v = "\<lambda>i. mmul n B A i c - unit_mat n i c"
  have "mvec n A ?v r = mvec n A (mvec n B (\<lambda>i. A i c)) r - mvec n A (\<lambda>i. unit_mat n i c) r" for r
    by (simp add: mvec_def [of n A] mmul_mvec algebra_simps sum_subtractf)
  moreover have "mvec n A (\<lambda>i. unit_mat n i c) r = A r c" if "r < n" for r
  proof -
    have "mvec n A (\<lambda>i. unit_mat n i c) r = (\<Sum>i<n. if i = c then A r c else 0)"
      unfolding mvec_def by (rule sum.cong) (auto simp: unit_mat_def)
    then show ?thesis using out(2) [of c r] by (cases "c < n") auto
  qed
  ultimately have "\<forall>r<n. mvec n A ?v r = 0" by (simp add: mvec_mmul AB mvec_unit)
  then have "?v i = 0" if "i < n" using A that by (auto simp: ker_trivial_def)
  moreover have "?v i = 0" if "n \<le> i" using that out by (simp add: mmul_def unit_mat_def)
  ultimately show "mmul n B A i c = unit_mat n i c" by (cases "i < n") auto
qed

lemma gf_matrix_invert_spec:
  assumes m: "wf_mat m" "m_rows m = n" "m_cols m = n"
    and out: "wf_mat out" "m_rows out = n" "m_cols out = n"
    and mem: "0 < n" "mem ''gf_matrix''" "mem ''gf_matrix.data''"
  shows "case gf_matrix_invert mem m out of
      (None, out') \<Rightarrow> ker_trivial n (mat m)
        \<and> wf_mat out' \<and> m_rows out' = n \<and> m_cols out' = n \<and> ker_trivial n (mat out')
        \<and> mmul n (mat out') (mat m) = unit_mat n \<and> mmul n (mat m) (mat out') = unit_mat n
    | (Some e, _) \<Rightarrow> e = EINVAL \<and> \<not> ker_trivial n (mat m)"
proof -
  define work where "work = \<lparr>m_rows = n, m_cols = n, m_data = m_data m\<rparr>"
  define id0 where "id0 = for_upto n (\<lambda>i m. gf_matrix_set m i i 1) (out\<lparr>m_data := replicate (n * n) 0\<rparr>)"
  have run: "gf_matrix_invert mem m out =
     (case eliminate_columns n n (work, id0) of
        Inl (e, out) \<Rightarrow> (Some e, out) | Inr (work, out) \<Rightarrow> (None, out))"
    using assms by (simp add: gf_matrix_invert_def gf_matrix_create_def Let_def work_def id0_def)
  have work: "wf_mat work" "m_rows work = n" "m_cols work = n" "mat work = mat m"
    using m by (simp_all add: work_def wf_mat_def mat_def gf_matrix_get_def fun_eq_iff)
  have id0: "wf_mat id0 \<and> m_rows id0 = n \<and> m_cols id0 = n \<and> mat id0 = unit_mat n"
    unfolding id0_def by (rule diag_loop)
      (use out in \<open>auto simp: wf_mat_def mat_def gf_matrix_get_def fun_eq_iff idx_less zero_gf_def\<close>)
  have core: "gj_core n (mat m) (work, id0)"
    using work id0 m by (simp add: gj_core_def mmul_unit_left ker_trivial_def mvec_unit)
  show ?thesis
  proof (cases "eliminate_columns n n (work, id0)")
    case (Inl e)
    then show ?thesis
      using eliminate_columns_correct [OF core order.refl] by (auto simp: run split: prod.splits)
  next
    case (Inr s)
    obtain w u where s: "s = (w, u)" by (cases s)
    have g: "gj_core n (mat m) (w, u)" "unit_cols n n (mat w)"
      using eliminate_columns_correct [OF core order.refl] by (simp_all add: Inr s)
    have u: "wf_mat u" "m_rows u = n" "m_cols u = n" "ker_trivial n (mat u)"
      and w: "m_rows w = n" "m_cols w = n" "mmul n (mat u) (mat m) = mat w"
      using g(1) by (simp_all add: gj_core_def)
    have "mat w r c = unit_mat n r c" for r c
      using g(2) w by (cases "r < n"; cases "c < n") (auto simp: unit_cols_def unit_mat_def)
    then have left: "mmul n (mat u) (mat m) = unit_mat n" using w(3) by (simp add: fun_eq_iff)
    have "mmul n (mat m) (mat u) = unit_mat n"
      by (rule right_inverse [OF left u(4)]) (use u m in simp_all)
    then show ?thesis using left left_inverse_ker_trivial [OF left] u by (simp add: run Inr s)
  qed
qed

lemma gf_matrix_create_mem:
  "0 < r \<Longrightarrow> 0 < c \<Longrightarrow> gf_matrix_create mem r c = None \<longleftrightarrow> \<not> (mem ''gf_matrix'' \<and> mem ''gf_matrix.data'')"
  by (auto simp: gf_matrix_create_def)

lemma gf_matrix_invert_cases:
  assumes m: "wf_mat m" "m_rows m = n" "m_cols m = n"
    and out: "wf_mat out" "m_rows out = n" "m_cols out = n" and n: "0 < n"
  obtains (inverse) out' where "gf_matrix_invert mem m out = (None, out')" "ker_trivial n (mat m)"
      "wf_mat out'" "m_rows out' = n" "m_cols out' = n" "ker_trivial n (mat out')"
      "mmul n (mat out') (mat m) = unit_mat n" "mmul n (mat m) (mat out') = unit_mat n"
    | (singular) out' where "gf_matrix_invert mem m out = (Some EINVAL, out')"
      "\<not> ker_trivial n (mat m)"
    | (nomem) "gf_matrix_invert mem m out = (Some ENOMEM, out)"
      "\<not> (mem ''gf_matrix'' \<and> mem ''gf_matrix.data'')"
proof (cases "mem ''gf_matrix'' \<and> mem ''gf_matrix.data''")
  case True
  then show ?thesis
    using gf_matrix_invert_spec [OF m out n, of mem] inverse singular
    by (cases "gf_matrix_invert mem m out"; cases "fst (gf_matrix_invert mem m out)") auto
next
  case False
  then have "gf_matrix_create mem (int n) (int n) = None"
    using gf_matrix_create_mem [of "int n" "int n" mem] n by simp
  then show ?thesis using nomem False m out by (simp add: gf_matrix_invert_def Let_def)
qed

section \<open>Multiplication\<close>

text \<open>A double loop that sets every element from values it does not modify.\<close>

lemma fill_row:
  assumes "wf_mat m" "r < m_rows m" "k \<le> m_cols m"
  shows "wf_mat (for_upto k (\<lambda>c m. gf_matrix_set m r c (f c)) m)
    \<and> m_rows (for_upto k (\<lambda>c m. gf_matrix_set m r c (f c)) m) = m_rows m
    \<and> m_cols (for_upto k (\<lambda>c m. gf_matrix_set m r c (f c)) m) = m_cols m
    \<and> (\<forall>r' c. mat (for_upto k (\<lambda>c m. gf_matrix_set m r c (f c)) m) r' c =
         (if r' = r \<and> c < k then GF (f c) else mat m r' c))"
  using assms(3)
proof (induction k)
  case 0
  then show ?case using assms by simp
next
  case (Suc k)
  then show ?case using assms by (auto simp: mat_simps less_Suc_eq)
qed

lemma fill_matrix:
  assumes "wf_mat m" "k \<le> m_rows m"
  shows "wf_mat (for_upto k (\<lambda>r. for_upto (m_cols m) (\<lambda>c m. gf_matrix_set m r c (f r c))) m)
    \<and> m_rows (for_upto k (\<lambda>r. for_upto (m_cols m) (\<lambda>c m. gf_matrix_set m r c (f r c))) m) = m_rows m
    \<and> m_cols (for_upto k (\<lambda>r. for_upto (m_cols m) (\<lambda>c m. gf_matrix_set m r c (f r c))) m) = m_cols m
    \<and> (\<forall>r c. mat (for_upto k (\<lambda>r. for_upto (m_cols m) (\<lambda>c m. gf_matrix_set m r c (f r c))) m) r c =
         (if r < k \<and> c < m_cols m then GF (f r c) else mat m r c))"
  using assms(2)
proof (induction k)
  case 0
  then show ?case using assms by simp
next
  case (Suc k)
  let ?m = "for_upto k (\<lambda>r. for_upto (m_cols m) (\<lambda>c m. gf_matrix_set m r c (f r c))) m"
  have IH: "wf_mat ?m" "m_rows ?m = m_rows m" "m_cols ?m = m_cols m"
    "\<forall>r c. mat ?m r c = (if r < k \<and> c < m_cols m then GF (f r c) else mat m r c)"
    using Suc by auto
  then show ?case using fill_row [of ?m k "m_cols m" "f k"] Suc.prems by (auto simp: less_Suc_eq)
qed

lemma dot_loop: "GF (for_upto n (\<lambda>i s. gf_add s (gf_mul (f i) (g i))) 0) = (\<Sum>i<n. GF (f i) * GF (g i))"
  by (induction n) (simp_all add: gf_simps)

lemma gf_matrix_mul_spec:
  assumes "wf_mat out" "m_cols a = m_rows b" "m_rows out = m_rows a" "m_cols out = m_cols b"
  obtains out' where "gf_matrix_mul a b out = Inr out'" "wf_mat out'" "m_rows out' = m_rows a"
    "m_cols out' = m_cols b" "mat out' = mmul (m_cols a) (mat a) (mat b)"
proof -
  let ?f = "\<lambda>r c. for_upto (m_cols a)
                  (\<lambda>i s. gf_add s (gf_mul (gf_matrix_get a r i) (gf_matrix_get b i c))) 0"
  let ?out = "for_upto (m_rows out) (\<lambda>r. for_upto (m_cols out) (\<lambda>c m. gf_matrix_set m r c (?f r c))) out"
  note F = fill_matrix [OF assms(1) order.refl, of ?f]
  have "mat ?out r c = mmul (m_cols a) (mat a) (mat b) r c" for r c
  proof (cases "r < m_rows a \<and> c < m_cols b")
    case True
    then have "mat ?out r c = (\<Sum>i<m_cols a. GF (gf_matrix_get a r i) * GF (gf_matrix_get b i c))"
      using F assms by (simp add: dot_loop)
    also have "\<dots> = (\<Sum>i<m_cols a. mat a r i * mat b i c)"
      by (rule sum.cong) (use True assms in \<open>auto simp: mat_def\<close>)
    finally show ?thesis by (simp add: mmul_def)
  next
    case False
    then have "mat ?out r c = 0" using F assms by (auto simp: mat_def)
    moreover have "mat a r i * mat b i c = 0" for i using False by (auto simp: mat_def)
    ultimately show ?thesis by (simp only: mmul_def sum.neutral_const)
  qed
  then show ?thesis
    using that [of ?out] F assms by (simp add: gf_matrix_mul_def fun_eq_iff)
qed

section \<open>The Vandermonde matrix\<close>

lemma gf_matrix_vandermonde_spec:
  assumes "0 < r" "0 < c" "mem ''gf_matrix''" "mem ''gf_matrix.data''"
  obtains m where "gf_matrix_vandermonde mem (int r) (int c) = Some m" "wf_mat m" "m_rows m = r"
    "m_cols m = c"
    "\<And>i j. i < r \<Longrightarrow> j < c \<Longrightarrow> mat m i j = GF (of_nat (i + 1)) ^ unat (of_nat j :: u8)"
proof -
  obtain m0 where m0: "gf_matrix_create mem (int r) (int c) = Some m0"
    using assms by (simp add: gf_matrix_create_def)
  note C = gf_matrix_create_Some [OF m0]
  let ?f = "\<lambda>r c. gf_pow (of_nat (r + 1)) (of_nat c)"
  have "mat (for_upto r (\<lambda>r. for_upto c (\<lambda>c m. gf_matrix_set m r c (?f r c))) m0) i j
      = GF (?f i j)" if "i < r" "j < c" for i j
    using fill_matrix [OF C(1), of r ?f] C that by (simp del: of_nat_add)
  then show ?thesis
    using that [OF _] fill_matrix [OF C(1), of r ?f] C m0
    by (simp add: gf_matrix_vandermonde_def gf_simps)
qed

lemma gf_matrix_vandermonde_Some:
  assumes V: "gf_matrix_vandermonde mem (int r) (int c) = Some m" and c: "c \<le> 256"
  shows "wf_mat m" "m_rows m = r" "m_cols m = c"
    "\<And>i j. i < r \<Longrightarrow> j < c \<Longrightarrow> mat m i j = GF (of_nat (i + 1)) ^ j"
proof -
  obtain m0 where "gf_matrix_create mem (int r) (int c) = Some m0"
    using V by (auto simp: gf_matrix_vandermonde_def split: option.splits)
  then have pos: "0 < r" "0 < c" "mem ''gf_matrix''" "mem ''gf_matrix.data''"
    by (auto simp: gf_matrix_create_def split: if_splits)
  obtain m' where m': "gf_matrix_vandermonde mem (int r) (int c) = Some m'" "wf_mat m'"
    "m_rows m' = r" "m_cols m' = c"
    "\<And>i j. i < r \<Longrightarrow> j < c \<Longrightarrow> mat m' i j = GF (of_nat (i + 1)) ^ unat (of_nat j :: u8)"
    using gf_matrix_vandermonde_spec [OF pos] by blast
  have [simp]: "m' = m" using V m'(1) by simp
  show "wf_mat m" "m_rows m = r" "m_cols m = c" using m' by simp_all
  show "mat m i j = GF (of_nat (i + 1)) ^ j" if "i < r" "j < c" for i j
    using m'(5) [OF that] that c by (simp add: unat_of_nat del: of_nat_add)
qed

text \<open>A polynomial of degree below \<open>n\<close> with \<open>n\<close> roots has only zero coefficients.\<close>

lemma vandermonde_coeffs_zero:
  fixes v :: "nat \<Rightarrow> 'a :: field"
  assumes "finite S" "card S = n" "\<And>x. x \<in> S \<Longrightarrow> (\<Sum>c<n. v c * x ^ c) = 0" "c < n"
  shows "v c = 0"
  using assms
proof (induction n arbitrary: S v c)
  case (Suc n)
  obtain a S' where S: "S = insert a S'" "a \<notin> S'" "card S' = n" "finite S'"
    using Suc.prems(1,2) by (auto simp: card_Suc_eq_finite)
  define b where "b j = (\<Sum>k<n - j. v (j + k + 1) * a ^ k)" for j
  have root: "(\<Sum>i\<le>n. v i * x ^ i) = 0" if "x \<in> S" for x
    using Suc.prems(3) [OF that] by (simp add: lessThan_Suc_atMost)
  have "(\<Sum>j<n. b j * x ^ j) = 0" if x: "x \<in> S'" for x
  proof (cases "n = 0")
    case False
    then have "(x - a) * (\<Sum>j<n. b j * x ^ j) = 0"
      using polyfun_diff_alt [of n v x a] root [of x] root [of a] x S
      by (simp add: b_def sum_distrib_right)
    then show ?thesis using x S by auto
  qed simp
  then have b0: "b j = 0" if "j < n" for j using Suc.IH [OF S(4,3)] that by blast
  have vS: "v (Suc j) = 0" if j: "j < n" for j
  proof -
    have "n - j = Suc (n - Suc j)" using j by simp
    then have "b j = v (Suc j) + a * b (Suc j)"
      unfolding b_def by (simp only: sum.lessThan_Suc_shift) (simp add: sum_distrib_left algebra_simps)
    moreover have "b (Suc j) = 0" using b0 [of "Suc j"] j by (cases "Suc j < n") (auto simp: b_def)
    ultimately show ?thesis using b0 [OF j] by simp
  qed
  have v0: "v 0 = 0"
  proof -
    have "0 = (\<Sum>i<Suc n. v i * a ^ i)" using root [of a] S by (simp only: lessThan_Suc_atMost) simp
    also have "\<dots> = v 0 + (\<Sum>i<n. v (Suc i) * a ^ Suc i)" unfolding sum.lessThan_Suc_shift by simp
    also have "(\<Sum>i<n. v (Suc i) * a ^ Suc i) = 0" by (rule sum.neutral) (simp add: vS)
    finally show ?thesis by simp
  qed
  show ?case using Suc.prems(4) vS v0 by (cases c) auto
qed simp

section \<open>Properties\<close>

text \<open>
  C16. \<^verbatim>\<open>gf_matrix_invert\<close> on an \<open>n \<times> n\<close> matrix, given the memory for the work copy,
  returns 0 exactly when the matrix has a trivial kernel, and then \<^verbatim>\<open>out\<close> holds its
  left and right inverse; otherwise it returns -EINVAL.
\<close>

theorem gf_matrix_invert_correct:
  assumes "wf_mat m" "m_rows m = n" "m_cols m = n" "wf_mat out" "m_rows out = n" "m_cols out = n"
    and "0 < n" "mem ''gf_matrix''" "mem ''gf_matrix.data''"
  shows "case gf_matrix_invert mem m out of
      (None, out') \<Rightarrow> ker_trivial n (mat m) \<and> wf_mat out' \<and> m_rows out' = n \<and> m_cols out' = n
        \<and> mmul n (mat out') (mat m) = unit_mat n \<and> mmul n (mat m) (mat out') = unit_mat n
    | (Some e, _) \<Rightarrow> e = EINVAL \<and> \<not> ker_trivial n (mat m)"
  using gf_matrix_invert_spec [OF assms] by (auto split: prod.splits option.splits)

theorem gf_matrix_invert_correct_witness:
  "case gf_matrix_invert all_allocs \<lparr>m_rows = 2, m_cols = 2, m_data = [0, 3, 5, 7]\<rparr>
      \<lparr>m_rows = 2, m_cols = 2, m_data = [0, 0, 0, 0]\<rparr> of
      (None, out') \<Rightarrow> ker_trivial 2 (mat \<lparr>m_rows = 2, m_cols = 2, m_data = [0, 3, 5, 7]\<rparr>)
        \<and> wf_mat out' \<and> m_rows out' = 2 \<and> m_cols out' = 2
        \<and> mmul 2 (mat out') (mat \<lparr>m_rows = 2, m_cols = 2, m_data = [0, 3, 5, 7]\<rparr>) = unit_mat 2
        \<and> mmul 2 (mat \<lparr>m_rows = 2, m_cols = 2, m_data = [0, 3, 5, 7]\<rparr>) (mat out') = unit_mat 2
    | (Some e, _) \<Rightarrow> e = EINVAL \<and> \<not> ker_trivial 2 (mat \<lparr>m_rows = 2, m_cols = 2, m_data = [0, 3, 5, 7]\<rparr>)"
  by (rule gf_matrix_invert_correct) (simp_all add: wf_mat_def)

end
