(* ===== verification/EC_Interface.thy ===== *)
theory EC_Interface
  imports Reffs_Prelude
begin

text \<open>
  The erasure-coding interface of \<^verbatim>\<open>src/lib/include/reffs/ec.h\<close>: the
  \<^verbatim>\<open>struct ec_encoding\<close> record and, as the locale \<open>erasure_code\<close>, the contract its
  comments promise of \<^verbatim>\<open>ec_encode\<close> and \<^verbatim>\<open>ec_decode\<close>. The encodings that
  meet the contract interpret the locale in their own theories; what a client may conclude from
  the contract alone is proved here once.
\<close>

section \<open>Encodings and shard buffers\<close>

text \<open>
  The function pointers of \<^verbatim>\<open>struct ec_encoding\<close> are the operations the interface
  locale fixes; the record holds the data members. \<open>'p\<close> is the type behind
  \<^verbatim>\<open>ec_private\<close>.
\<close>

record 'p ec_encoding =
  ec_name :: string
  ec_k :: nat
  ec_m :: nat
  ec_private :: 'p

type_synonym shard = "u8 list"

definition shards_ok :: "nat \<Rightarrow> nat \<Rightarrow> shard list \<Rightarrow> bool" where
  "shards_ok n len sh \<longleftrightarrow> length sh = n \<and> (\<forall>b \<in> set sh. length b = len)"

definition num_present :: "bool list \<Rightarrow> nat" where
  "num_present present = length (filter id present)"

text \<open>The present shards hold the valid contents \<open>full\<close>; the others are arbitrary.\<close>

definition survivors :: "shard list \<Rightarrow> bool list \<Rightarrow> shard list \<Rightarrow> bool" where
  "survivors full present sh \<longleftrightarrow> (\<forall>i < length present. present ! i \<longrightarrow> sh ! i = full ! i)"

text \<open>
  A repair history: in each round the shards outside \<open>present\<close> are replaced by \<open>junk\<close> and the
  stripe is decoded in place. The run stops at the first failing round.
\<close>

definition lose :: "bool list \<Rightarrow> shard list \<Rightarrow> shard list \<Rightarrow> shard list" where
  "lose present junk sh = map (\<lambda>i. if present ! i then sh ! i else junk ! i) [0..<length present]"

primrec repair_rounds ::
  "(shard list \<Rightarrow> bool list \<Rightarrow> errno option \<times> shard list) \<Rightarrow> (bool list \<times> shard list) list
   \<Rightarrow> shard list \<Rightarrow> errno + shard list" where
  "repair_rounds dec [] sh = Inr sh"
| "repair_rounds dec (l # ls) sh =
     (case dec (lose (fst l) (snd l) sh) (fst l) of
        (Some e, _) \<Rightarrow> Inl e
      | (None, sh') \<Rightarrow> repair_rounds dec ls sh')"

lemma shards_ok_nth: "shards_ok n len sh \<Longrightarrow> i < n \<Longrightarrow> length (sh ! i) = len"
  by (auto simp: shards_ok_def)

lemma shards_okI: "length sh = n \<Longrightarrow> (\<And>i. i < n \<Longrightarrow> length (sh ! i) = len) \<Longrightarrow> shards_ok n len sh"
  by (auto simp: shards_ok_def in_set_conv_nth)

lemma shards_ok_append: "shards_ok a len x \<Longrightarrow> shards_ok b len y \<Longrightarrow> shards_ok (a + b) len (x @ y)"
  by (auto simp: shards_ok_def)

lemma shards_ok_update: "shards_ok n len sh \<Longrightarrow> length b = len \<Longrightarrow> shards_ok n len (sh[i := b])"
  using set_update_subset_insert [of sh i b] by (auto simp: shards_ok_def)

lemma shards_ok_lose:
  assumes "shards_ok n len sh" "shards_ok n len junk" "length p = n"
  shows "shards_ok n len (lose p junk sh)"
  by (rule shards_okI) (use assms in \<open>auto simp: lose_def shards_ok_nth\<close>)

lemma present_count:
  assumes "length present = n"
  shows "length (filter (\<lambda>i. present ! i) [0..<n]) = num_present present"
proof -
  have "num_present present = card {i. i < n \<and> present ! i}"
    using assms by (simp add: num_present_def length_filter_conv_card)
  also have "\<dots> = card (set (filter (\<lambda>i. present ! i) [0..<n]))"
    by (rule arg_cong [where f = card]) auto
  also have "\<dots> = length (filter (\<lambda>i. present ! i) [0..<n])" by (rule distinct_card) simp
  finally show ?thesis by simp
qed

section \<open>The contract\<close>

locale erasure_code =
  fixes create :: "int \<Rightarrow> int \<Rightarrow> 'p ec_encoding option"
    and encode :: "'p ec_encoding \<Rightarrow> shard list \<Rightarrow> shard list \<Rightarrow> nat \<Rightarrow> shard list"
    and decode :: "'p ec_encoding \<Rightarrow> shard list \<Rightarrow> bool list \<Rightarrow> nat \<Rightarrow> errno option \<times> shard list"
  assumes encode_shape:
    "create k m = Some e \<Longrightarrow> shards_ok (nat k) len data \<Longrightarrow> shards_ok (nat m) len parity \<Longrightarrow>
       shards_ok (nat m) len (encode e data parity len)"
    and decode_enough:
    "create k m = Some e \<Longrightarrow> shards_ok (nat k) len data \<Longrightarrow> shards_ok (nat m) len parity \<Longrightarrow>
       shards_ok (nat k + nat m) len sh \<Longrightarrow> length present = nat k + nat m \<Longrightarrow>
       nat k \<le> num_present present \<Longrightarrow>
       survivors (data @ encode e data parity len) present sh \<Longrightarrow>
       decode e sh present len = (None, data @ encode e data parity len)"
    and decode_too_few:
    "create k m = Some e \<Longrightarrow> shards_ok (nat k + nat m) len sh \<Longrightarrow>
       length present = nat k + nat m \<Longrightarrow> num_present present < nat k \<Longrightarrow>
       decode e sh present len = (Some EIO, sh)"
begin

text \<open>Which of the sufficient sets of shards survived makes no difference.\<close>

lemma survivor_set_irrelevant:
  assumes "create k m = Some e" "shards_ok (nat k) len data" "shards_ok (nat m) len parity"
    and "shards_ok (nat k + nat m) len sh" "shards_ok (nat k + nat m) len sh'"
    and "length p = nat k + nat m" "length p' = nat k + nat m"
    and "nat k \<le> num_present p" "nat k \<le> num_present p'"
    and "survivors (data @ encode e data parity len) p sh"
    and "survivors (data @ encode e data parity len) p' sh'"
  shows "decode e sh p len = decode e sh' p' len"
  using decode_enough [OF assms(1-4,6,8,10)] decode_enough [OF assms(1-3,5,7,9,11)] by simp

text \<open>
  A stripe survives any number of rounds of loss and repair in which no round loses more than
  \<open>m\<close> shards, whatever the lost buffers are filled with.
\<close>

lemma repair_rounds_intact:
  assumes e: "create k m = Some e" "shards_ok (nat k) len data" "shards_ok (nat m) len parity"
    and ls: "\<And>p junk. (p, junk) \<in> set ls \<Longrightarrow> length p = nat k + nat m \<and> nat k \<le> num_present p
               \<and> shards_ok (nat k + nat m) len junk"
  shows "repair_rounds (\<lambda>sh p. decode e sh p len) ls (data @ encode e data parity len)
           = Inr (data @ encode e data parity len)"
  using ls
proof (induction ls)
  case (Cons l ls)
  let ?full = "data @ encode e data parity len"
  have full: "shards_ok (nat k + nat m) len ?full"
    using e encode_shape [OF e] by (intro shards_ok_append)
  have l: "length (fst l) = nat k + nat m" "nat k \<le> num_present (fst l)"
    "shards_ok (nat k + nat m) len (snd l)" using Cons.prems [of "fst l" "snd l"] by auto
  have "shards_ok (nat k + nat m) len (lose (fst l) (snd l) ?full)"
    using full l by (intro shards_ok_lose)
  moreover have "survivors ?full (fst l) (lose (fst l) (snd l) ?full)"
    by (simp add: survivors_def lose_def)
  ultimately have "decode e (lose (fst l) (snd l) ?full) (fst l) len = (None, ?full)"
    using decode_enough [OF e] l by blast
  moreover have "repair_rounds (\<lambda>sh p. decode e sh p len) ls ?full = Inr ?full"
    using Cons.IH Cons.prems by (meson list.set_intros(2))
  ultimately show ?case by simp
qed simp

end

end
