(* ===== verification/ReedSolomon.thy ===== *)
theory ReedSolomon
  imports GF_Matrix EC_Interface
begin

text \<open>
  The systematic Reed-Solomon encoding of \<^verbatim>\<open>src/lib/ec/rs.c\<close>: construction of the
  encoding matrix, the multiplication tables, the vector and the scalar path of the inner loop,
  encode and decode with every allocation failure. The theory proves that the encoding matrix has
  the MDS property for each of its three constructions, that the table-driven inner loop computes
  the field's linear combination on either path, and that decoding any sufficient set of shards
  restores the stripe; it then interprets the erasure-coding contract.
\<close>

section \<open>Encoding matrix\<close>

text \<open>Allocations are named by the variable that receives them.\<close>

abbreviation site :: "string \<Rightarrow> allocs \<Rightarrow> allocs" where
  "site s mem \<equiv> \<lambda>x. mem (s @ ''.'' @ x)"

record rs_private =
  rsp_encode :: gf_matrix
  rsp_parity :: gf_matrix
  parity_tbl :: "u8 list"
  parity_split_tbl :: "u8 list"

definition build_encoding_matrix :: "allocs \<Rightarrow> nat \<Rightarrow> nat \<Rightarrow> gf_matrix option" where
  "build_encoding_matrix mem k m =
     (if m \<le> 2 then
        (case gf_matrix_create (site ''enc'' mem) (int (k + m)) (int k) of
           None \<Rightarrow> None
         | Some enc \<Rightarrow>
             (let enc = for_upto k (\<lambda>r enc. gf_matrix_set enc r r 1) enc;
                  enc = for_upto k (\<lambda>c enc. gf_matrix_set enc k c 1) enc
              in Some (if m = 2
                       then fst (for_upto k
                              (\<lambda>c (enc, coef). (gf_matrix_set enc (k + 1) c coef, gf_mul coef 2))
                              (enc, 1))
                       else enc)))
      else
        (case gf_matrix_vandermonde (site ''vand'' mem) (int (k + m)) (int k) of
           None \<Rightarrow> None
         | Some vand \<Rightarrow>
        (case gf_matrix_create (site ''top'' mem) (int k) (int k) of
           None \<Rightarrow> None
         | Some top_m \<Rightarrow>
        (let top_m = for_upto k (\<lambda>r. for_upto k (\<lambda>c top_m.
                     gf_matrix_set top_m r c (gf_matrix_get vand r c))) top_m in
         case gf_matrix_create (site ''top_inv'' mem) (int k) (int k) of
           None \<Rightarrow> None
         | Some top_inv \<Rightarrow>
        (case gf_matrix_invert (site ''work'' mem) top_m top_inv of
           (Some _, _) \<Rightarrow> None
         | (None, top_inv) \<Rightarrow>
        (case gf_matrix_create (site ''enc'' mem) (int (k + m)) (int k) of
           None \<Rightarrow> None
         | Some enc \<Rightarrow>
        (case gf_matrix_mul vand top_inv enc of
           Inl _ \<Rightarrow> None
         | Inr enc \<Rightarrow> Some enc)))))))"

section \<open>The inner loop\<close>

text \<open>
  One 16-byte vector step: the two table registers are looked up at the low and the high nibbles,
  the products are added, and unless \<open>init\<close> the old contents are added too.
\<close>

definition simd_block :: "u8 list \<Rightarrow> u8 list \<Rightarrow> bool \<Rightarrow> nat \<Rightarrow> u8 list \<Rightarrow> u8 list" where
  "simd_block inb split_tbl init p out =
     (let lo_tbl = take 16 split_tbl;
          hi_tbl = take 16 (drop 16 split_tbl);
          dv = take 16 (drop p inb);
          lo_idx = map (\<lambda>b. b AND 0x0f) dv;
          hi_idx = map (\<lambda>b. drop_bit 4 b) dv;
          prod = map2 (XOR) (map (\<lambda>i. lo_tbl ! unat i) lo_idx) (map (\<lambda>i. hi_tbl ! unat i) hi_idx);
          prod = (if \<not> init then map2 (XOR) prod (take 16 (drop p out)) else prod)
      in take p out @ prod @ drop (p + 16) out)"

text \<open>
  \<open>simd\<close> says whether the build has one of the vector extensions. The result is the number of
  bytes consumed, a multiple of 16, and the new contents of \<^verbatim>\<open>out\<close>.
\<close>

definition rs_mul_add_16 :: "bool \<Rightarrow> u8 list \<Rightarrow> u8 list \<Rightarrow> u8 list \<Rightarrow> nat \<Rightarrow> bool \<Rightarrow> nat \<times> u8 list" where
  "rs_mul_add_16 simd out inb split_tbl len init =
     (let bytes = 16 * (len div 16) in
      if bytes = 0 then (0, out)
      else if simd
      then (bytes, for_upto (len div 16) (\<lambda>q. simd_block inb split_tbl init (16 * q)) out)
      else (0, out))"

text \<open>The pointers \<^verbatim>\<open>out + off\<close> and \<^verbatim>\<open>in + off\<close> are passed as buffer and offset.\<close>

definition rs_mul_add_scalar :: "u8 list \<Rightarrow> u8 list \<Rightarrow> nat \<Rightarrow> u8 list \<Rightarrow> nat \<Rightarrow> bool \<Rightarrow> u8 list" where
  "rs_mul_add_scalar out inb off tbl len init =
     (if init
      then for_upto len (\<lambda>p out. out[off + p := tbl ! unat (inb ! (off + p))]) out
      else for_upto len (\<lambda>p out. out[off + p := out ! (off + p) XOR tbl ! unat (inb ! (off + p))]) out)"

text \<open>The body the three inner loops of the file share.\<close>

definition rs_mul_add ::
  "bool \<Rightarrow> u8 list \<Rightarrow> u8 list \<Rightarrow> u8 list \<Rightarrow> u8 list \<Rightarrow> nat \<Rightarrow> bool \<Rightarrow> u8 list" where
  "rs_mul_add simd out inb stbl tbl len init =
     (case rs_mul_add_16 simd out inb stbl len init of (simd_done, out) \<Rightarrow>
        if simd_done < len then rs_mul_add_scalar out inb simd_done tbl (len - simd_done) init
        else out)"

definition rs_row ::
  "bool \<Rightarrow> u8 list \<Rightarrow> u8 list \<Rightarrow> nat \<Rightarrow> nat \<Rightarrow> (nat \<Rightarrow> u8 list) \<Rightarrow> nat \<Rightarrow> u8 list \<Rightarrow> u8 list" where
  "rs_row simd stbl tbl k i src len out =
     for_upto k (\<lambda>j out. rs_mul_add simd out (src j)
       (drop ((i * k + j) * 32) stbl) (drop ((i * k + j) * 256) tbl) len (j = 0)) out"

section \<open>Creation, encode and decode\<close>

text \<open>A callee that fills the \<open>n\<close> bytes at offset \<open>off\<close> of a buffer.\<close>

definition fill_at :: "nat \<Rightarrow> nat \<Rightarrow> (u8 list \<Rightarrow> u8 list) \<Rightarrow> u8 list \<Rightarrow> u8 list" where
  "fill_at off n f buf = take off buf @ f (take n (drop off buf)) @ drop (off + n) buf"

text \<open>The loop that fills both kinds of tables for an \<open>a \<times> k\<close> coefficient matrix.\<close>

definition rs_fill_tables :: "nat \<Rightarrow> nat \<Rightarrow> gf_matrix \<Rightarrow> u8 list \<times> u8 list \<Rightarrow> u8 list \<times> u8 list" where
  "rs_fill_tables a k mtx =
     for_upto a (\<lambda>r. for_upto k (\<lambda>c.
       map_prod (fill_at ((r * k + c) * 256) 256 (gf_mul_tbl_init (gf_matrix_get mtx r c)))
                (fill_at ((r * k + c) * 32) 32 (gf_mul_split_tbl_init (gf_matrix_get mtx r c)))))"

definition ec_rs_create :: "allocs \<Rightarrow> int \<Rightarrow> int \<Rightarrow> rs_private ec_encoding option" where
  "ec_rs_create mem k m =
     (if k < 1 \<or> m < 1 \<or> k + m > 255 then None
      else if \<not> mem ''encoding'' then None
      else if \<not> mem ''rsp'' then None
      else (case build_encoding_matrix mem (nat k) (nat m) of
        None \<Rightarrow> None
      | Some enc \<Rightarrow>
     (case gf_matrix_create (site ''rsp_parity'' mem) m k of
        None \<Rightarrow> None
      | Some par \<Rightarrow>
     (let par = for_upto (nat m) (\<lambda>r. for_upto (nat k) (\<lambda>c par.
                  gf_matrix_set par r c (gf_matrix_get enc (nat k + r) c))) par in
      if \<not> mem ''parity_tbl'' \<or> \<not> mem ''parity_split_tbl'' then None
      else (let (tbl, stbl) = rs_fill_tables (nat m) (nat k) par
                  (replicate (nat m * nat k * 256) 0, replicate (nat m * nat k * 32) 0)
            in Some \<lparr>ec_name = ''reed-solomon'', ec_k = nat k, ec_m = nat m,
                 ec_private = \<lparr>rsp_encode = enc, rsp_parity = par, parity_tbl = tbl,
                               parity_split_tbl = stbl\<rparr>\<rparr>)))))"

definition rs_encode ::
  "bool \<Rightarrow> rs_private ec_encoding \<Rightarrow> shard list \<Rightarrow> shard list \<Rightarrow> nat \<Rightarrow> shard list" where
  "rs_encode simd encoding data parity shard_len =
     (let rsp = ec_private encoding; k = ec_k encoding; m = ec_m encoding in
      for_upto m (\<lambda>i parity. parity[i :=
        rs_row simd (parity_split_tbl rsp) (parity_tbl rsp) k i ((!) data) shard_len (parity ! i)])
      parity)"

definition avail_rows :: "nat \<Rightarrow> nat \<Rightarrow> bool list \<Rightarrow> nat list" where
  "avail_rows k n present = take k (filter (\<lambda>i. present ! i) [0..<n])"

text \<open>Copying recovered data and re-encoding missing parity, the tail of the decoder.\<close>

definition rs_restore_data :: "nat \<Rightarrow> bool list \<Rightarrow> shard list \<Rightarrow> nat \<Rightarrow> shard list \<Rightarrow> shard list" where
  "rs_restore_data k present recovered shard_len shards =
     for_upto k (\<lambda>i shards. if \<not> present ! i
       then shards[i := take shard_len (recovered ! i) @ drop shard_len (shards ! i)] else shards) shards"

definition rs_restore_parity ::
  "bool \<Rightarrow> rs_private \<Rightarrow> nat \<Rightarrow> nat \<Rightarrow> bool list \<Rightarrow> shard list \<Rightarrow> nat \<Rightarrow> shard list \<Rightarrow> shard list" where
  "rs_restore_parity simd rsp k m present recovered shard_len shards =
     for_upto m (\<lambda>i shards. if present ! (k + i) then shards else shards[k + i :=
        rs_row simd (parity_split_tbl rsp) (parity_tbl rsp) k i
          (\<lambda>j. if present ! j then shards ! j else recovered ! j) shard_len (shards ! (k + i))])
     shards"

text \<open>
  The result is the return value and the shard buffers. Each goto to the cleanup label returns
  the error with the buffers as they are at that point.
\<close>

definition rs_decode ::
  "allocs \<Rightarrow> bool \<Rightarrow> rs_private ec_encoding \<Rightarrow> shard list \<Rightarrow> bool list \<Rightarrow> nat
   \<Rightarrow> errno option \<times> shard list" where
  "rs_decode mem simd encoding shards present shard_len =
     (let rsp = ec_private encoding; k = ec_k encoding; m = ec_m encoding; n = k + m;
          avail = length (filter (\<lambda>i. present ! i) [0..<n])
      in if avail < k then (Some EIO, shards)
      else if avail = n then (None, shards)
      else if \<not> mem ''avail_idx'' then (Some ENOMEM, shards)
      else let avail_idx = avail_rows k n present in
     (case gf_matrix_create (site ''sub'' mem) (int k) (int k) of
        None \<Rightarrow> (Some ENOMEM, shards)
      | Some sub \<Rightarrow>
     (case gf_matrix_create (site ''sub_inv'' mem) (int k) (int k) of
        None \<Rightarrow> (Some ENOMEM, shards)
      | Some sub_inv \<Rightarrow>
     (let sub = for_upto k (\<lambda>r. for_upto k (\<lambda>c sub.
            gf_matrix_set sub r c (gf_matrix_get (rsp_encode rsp) (avail_idx ! r) c))) sub in
      case gf_matrix_invert (site ''work'' mem) sub sub_inv of
        (Some e, _) \<Rightarrow> (Some e, shards)
      | (None, sub_inv) \<Rightarrow>
      if \<not> mem ''decode_tbl'' \<or> \<not> mem ''decode_split_tbl'' then (Some ENOMEM, shards)
      else let (tbl, stbl) = rs_fill_tables k k sub_inv
             (replicate (k * k * 256) 0, replicate (k * k * 32) 0) in
      if \<not> mem ''recovered'' \<or> \<not> list_all (\<lambda>i. mem (''recovered.'' @ replicate i (CHR ''i''))) [0..<k]
      then (Some ENOMEM, shards)
      else let recovered = map (\<lambda>r. rs_row simd stbl tbl k r (\<lambda>c. shards ! (avail_idx ! c)) shard_len
                                      (replicate shard_len 0)) [0..<k];
               shards = rs_restore_data k present recovered shard_len shards
      in if list_all (\<lambda>i. present ! i) [k..<n] then (None, shards)
      else if \<not> mem ''data_ptrs'' then (Some ENOMEM, shards)
      else (None, rs_restore_parity simd rsp k m present recovered shard_len shards)))))"

section \<open>The inner loop computes the field product\<close>

lemma length_simd_block:
  assumes "p + 16 \<le> length out" "p + 16 \<le> length inb"
  shows "length (simd_block inb stbl init p out) = length out"
  using assms by (simp add: simd_block_def Let_def)

lemma nth_simd_block:
  assumes "p + 16 \<le> length out" "p + 16 \<le> length inb" "i < length out"
    and tbl: "\<And>b. take 16 stbl ! unat (b AND 0x0f) XOR take 16 (drop 16 stbl) ! unat (drop_bit 4 b) = gf_mul x b"
  shows "simd_block inb stbl init p out ! i =
    (if p \<le> i \<and> i < p + 16 then (if init then 0 else out ! i) XOR gf_mul x (inb ! i) else out ! i)"
  using assms(1-3)
  by (auto simp: simd_block_def Let_def nth_append tbl xor.commute less_diff_conv2)

lemma rs_mul_add_16_spec:
  assumes len: "len \<le> length out" "len \<le> length inb"
    and tbl: "\<And>b. take 16 stbl ! unat (b AND 0x0f) XOR take 16 (drop 16 stbl) ! unat (drop_bit 4 b) = gf_mul x b"
    and r: "rs_mul_add_16 simd out inb stbl len init = (n, out')"
  shows "n \<le> len \<and> length out' = length out \<and> (\<forall>i < length out. out' ! i =
    (if i < n then (if init then 0 else out ! i) XOR gf_mul x (inb ! i) else out ! i))"
proof -
  let ?I = "\<lambda>q o'. length o' = length out \<and> (\<forall>i < length out. o' ! i =
    (if i < 16 * q then (if init then 0 else out ! i) XOR gf_mul x (inb ! i) else out ! i))"
  have "?I (len div 16) (for_upto (len div 16) (\<lambda>q. simd_block inb stbl init (16 * q)) out)"
  proof (rule for_upto_invariant [where I = ?I])
    fix q o' assume q: "q < len div 16" and "?I q o'"
    then have l: "length o' = length out"
      and n: "\<And>i. i < length out \<Longrightarrow> o' ! i =
        (if i < 16 * q then (if init then 0 else out ! i) XOR gf_mul x (inb ! i) else out ! i)"
      by blast+
    have "16 * q + 16 \<le> len" using q by linarith
    then have b: "16 * q + 16 \<le> length o'" "16 * q + 16 \<le> length inb" using len l by linarith+
    have "simd_block inb stbl init (16 * q) o' ! i =
        (if i < 16 * Suc q then (if init then 0 else out ! i) XOR gf_mul x (inb ! i) else out ! i)"
      if i: "i < length out" for i
    proof -
      have i': "i < length o'" using i l by simp
      show ?thesis unfolding nth_simd_block [OF b i' tbl] n [OF i] by (simp only: mult_Suc_right) auto
    qed
    then show "?I (Suc q) (simd_block inb stbl init (16 * q) o')"
      using l unfolding length_simd_block [OF b] by blast
  qed simp
  moreover have "(n, out') = (if len div 16 \<noteq> 0 \<and> simd
      then (16 * (len div 16), for_upto (len div 16) (\<lambda>q. simd_block inb stbl init (16 * q)) out)
      else (0, out))"
    using r by (simp add: rs_mul_add_16_def Let_def split: if_splits)
  ultimately show ?thesis by (cases "len div 16 \<noteq> 0 \<and> simd") (simp_all only: if_True if_False prod.inject, auto)
qed

lemma rs_mul_add_scalar_spec:
  assumes "off + len \<le> length out"
    and tbl: "\<And>b. tbl ! unat b = gf_mul x b"
  shows "length (rs_mul_add_scalar out inb off tbl len init) = length out \<and>
    (\<forall>i < length out. rs_mul_add_scalar out inb off tbl len init ! i =
      (if off \<le> i \<and> i < off + len then (if init then 0 else out ! i) XOR gf_mul x (inb ! i) else out ! i))"
  using assms(1)
proof (induction len)
  case 0
  then show ?case by (auto simp: rs_mul_add_scalar_def)
next
  case (Suc len)
  then show ?case
    by (cases init) (auto simp: rs_mul_add_scalar_def tbl nth_list_update less_Suc_eq)
qed

lemma rs_mul_add_spec:
  assumes len: "length out = len" "len \<le> length inb"
    and stbl: "\<And>b. take 16 stbl ! unat (b AND 0x0f) XOR take 16 (drop 16 stbl) ! unat (drop_bit 4 b) = gf_mul x b"
    and tbl: "\<And>b. tbl ! unat b = gf_mul x b"
  shows "length (rs_mul_add simd out inb stbl tbl len init) = len \<and>
    (\<forall>i < len. rs_mul_add simd out inb stbl tbl len init ! i =
       (if init then 0 else out ! i) XOR gf_mul x (inb ! i))"
proof -
  obtain n out1 where r: "rs_mul_add_16 simd out inb stbl len init = (n, out1)" by fastforce
  have A: "n \<le> len" "length out1 = len" "\<And>i. i < len \<Longrightarrow> out1 ! i =
    (if i < n then (if init then 0 else out ! i) XOR gf_mul x (inb ! i) else out ! i)"
    using rs_mul_add_16_spec [OF _ len(2) stbl r] len(1) by auto
  have "n + (len - n) \<le> length out1" using A by simp
  from rs_mul_add_scalar_spec [OF this tbl, of inb init] A show ?thesis
    by (auto simp: rs_mul_add_def r)
qed

section \<open>Multiplication tables\<close>

definition tables_ok :: "nat \<Rightarrow> nat \<Rightarrow> (nat \<Rightarrow> nat \<Rightarrow> u8) \<Rightarrow> u8 list \<times> u8 list \<Rightarrow> bool" where
  "tables_ok a k C t \<longleftrightarrow> (\<forall>r<a. \<forall>c<k. \<forall>b.
     drop ((r * k + c) * 256) (fst t) ! unat b = gf_mul (C r c) b \<and>
     take 16 (drop ((r * k + c) * 32) (snd t)) ! unat (b AND 0x0f)
       XOR take 16 (drop 16 (drop ((r * k + c) * 32) (snd t))) ! unat (drop_bit 4 b)
     = gf_mul (C r c) b)"

definition slot :: "nat \<Rightarrow> u8 list \<Rightarrow> nat \<Rightarrow> u8 list" where
  "slot w t q = take w (drop (q * w) t)"

lemma length_fill_at:
  assumes "length (f (take n (drop off t))) = n" "off + n \<le> length t"
  shows "length (fill_at off n f t) = length t"
  using assms by (simp add: fill_at_def)

lemma slot_fill_at:
  assumes f: "length (f (slot w t q)) = w" and q: "q < d" "q' < d" and t: "length t = d * w"
  shows "slot w (fill_at (q * w) w f t) q' = (if q' = q then f (slot w t q) else slot w t q')"
proof -
  have l: "q * w + w \<le> length t"
    using mult_le_mono1 [of "Suc q" d w] q t by simp
  consider "q' = q" | "q' < q" | "q < q'" by linarith
  then show ?thesis
  proof cases
    case 1
    then show ?thesis using l f by (simp add: slot_def fill_at_def)
  next
    case 2
    then have le: "q' * w + w \<le> q * w" using mult_le_mono1 [of "Suc q'" q w] by simp
    then have "q' * w - q * w = 0" "w - (q * w - q' * w) = 0" "min w (q * w - q' * w) = w" by linarith+
    then show ?thesis using 2 l by (simp add: slot_def fill_at_def drop_take)
  next
    case 3
    then have le: "q * w + w \<le> q' * w" using mult_le_mono1 [of "Suc q" q' w] by simp
    have f': "length (f (take w (drop (q * w) t))) = w" using f by (simp add: slot_def)
    have "drop (q' * w) (fill_at (q * w) w f t) = drop (q' * w - (q * w + w)) (drop (q * w + w) t)"
      using le l f' 3 by (simp add: fill_at_def)
    then show ?thesis using 3 le by (simp add: slot_def)
  qed
qed

lemma fill_slots:
  fixes f :: "nat \<Rightarrow> nat \<Rightarrow> u8"
  assumes g: "\<And>x b. length b = w \<Longrightarrow> length (g x b) = w" and t: "length t = a * k * w"
  defines "t' \<equiv> for_upto a (\<lambda>r. for_upto k (\<lambda>c. fill_at ((r * k + c) * w) w (g (f r c)))) t"
  shows "length t' = a * k * w \<and> (\<forall>r<a. \<forall>c<k. \<exists>b. length b = w \<and> slot w t' (r * k + c) = g (f r c) b)"
proof -
  let ?D = "\<lambda>R C t'. length t' = a * k * w \<and> (\<forall>r<a. \<forall>c<k. r < R \<or> r = R \<and> c < C \<longrightarrow>
     (\<exists>b. length b = w \<and> slot w t' (r * k + c) = g (f r c) b))"
  have "?D a 0 t'"
    unfolding t'_def
  proof (rule for_upto_invariant [where I = "\<lambda>R. ?D R 0"])
    fix R t1 assume R: "R < a" and D: "?D R 0 t1"
    have "?D R k (for_upto k (\<lambda>c. fill_at ((R * k + c) * w) w (g (f R c))) t1)"
    proof (rule for_upto_invariant [where I = "?D R"])
      fix C t2 assume C: "C < k" and D: "?D R C t2"
      have q: "R * k + C < a * k" using idx_less [OF R C] .
      have ls: "length (slot w t2 (R * k + C)) = w"
        using D mult_le_mono1 [of "Suc (R * k + C)" "a * k" w] q by (simp add: slot_def)
      have l: "length (fill_at ((R * k + C) * w) w (g (f R C)) t2) = a * k * w"
        using length_fill_at [of "g (f R C)" w "(R * k + C) * w" t2] ls g D q
          mult_le_mono1 [of "Suc (R * k + C)" "a * k" w] by (simp add: slot_def)
      have sl: "slot w (fill_at ((R * k + C) * w) w (g (f R C)) t2) (r * k + c) =
          (if r = R \<and> c = C then g (f R C) (slot w t2 (R * k + C)) else slot w t2 (r * k + c))"
        if "r < a" "c < k" for r c
        using slot_fill_at [of "g (f R C)" w t2 "R * k + C" "a * k" "r * k + c"]
          g [OF ls] q idx_less [OF that] D that C by simp
      show "?D R (Suc C) (fill_at ((R * k + C) * w) w (g (f R C)) t2)"
      proof (intro conjI l allI impI)
        fix r c assume rc: "r < a" "c < k" "r < R \<or> r = R \<and> c < Suc C"
        show "\<exists>b. length b = w \<and>
          slot w (fill_at ((R * k + C) * w) w (g (f R C)) t2) (r * k + c) = g (f r c) b"
        proof (cases "r = R \<and> c = C")
          case True
          then show ?thesis using sl [OF rc(1,2)] ls by (intro exI [of _ "slot w t2 (R * k + C)"]) simp
        next
          case False
          then have "r < R \<or> r = R \<and> c < C" using rc(3) by auto
          with D rc(1,2) obtain b where "length b = w" "slot w t2 (r * k + c) = g (f r c) b" by blast
          then show ?thesis using sl [OF rc(1,2)] False by auto
        qed
      qed
    qed (use D in simp)
    then show "?D (Suc R) 0 (for_upto k (\<lambda>c. fill_at ((R * k + c) * w) w (g (f R c))) t1)"
      by (simp add: less_Suc_eq)
  qed (use t in simp)
  then show ?thesis by simp
qed

lemma split_halves_mul:
  assumes "length t = 32"
  shows "take 16 (gf_mul_split_tbl_init c t) ! unat (b AND 0x0f)
    XOR take 16 (drop 16 (gf_mul_split_tbl_init c t)) ! unat (drop_bit 4 b) = gf_mul c b"
proof -
  have lo: "unat (b AND 0x0f) < 16"
    using word_and_le1 [of b "0x0f"] by (simp add: word_le_nat_alt)
  have hi: "unat (drop_bit 4 b) < 16"
    using unat_u8_less [of b] unfolding unat_drop_bit_eq
    by (simp add: drop_bit_eq_div div_less_iff_less_mult del: unat_u8_less)
  show ?thesis
    using gf_split_lookup_mul [OF assms, of c b] lo hi assms by (simp add: gf_split_lookup_def)
qed

lemma rs_fill_tables_ok:
  assumes "length t = a * k * 256" "length u = a * k * 32"
  shows "tables_ok a k (gf_matrix_get M) (rs_fill_tables a k M (t, u))"
proof -
  let ?T = "for_upto a (\<lambda>r. for_upto k (\<lambda>c. fill_at ((r * k + c) * 256) 256
    (gf_mul_tbl_init (gf_matrix_get M r c)))) t"
  let ?U = "for_upto a (\<lambda>r. for_upto k (\<lambda>c. fill_at ((r * k + c) * 32) 32
    (gf_mul_split_tbl_init (gf_matrix_get M r c)))) u"
  have tabs: "rs_fill_tables a k M (t, u) = (?T, ?U)"
    unfolding rs_fill_tables_def for_upto_map_prod_fun by (rule map_prod_simp)
  have T: "length ?T = a * k * 256 \<and> (\<forall>r<a. \<forall>c<k. \<exists>b. length b = 256 \<and>
      slot 256 ?T (r * k + c) = gf_mul_tbl_init (gf_matrix_get M r c) b)"
    by (rule fill_slots [OF _ assms(1)]) simp
  have U: "length ?U = a * k * 32 \<and> (\<forall>r<a. \<forall>c<k. \<exists>b. length b = 32 \<and>
      slot 32 ?U (r * k + c) = gf_mul_split_tbl_init (gf_matrix_get M r c) b)"
    by (rule fill_slots [OF _ assms(2)]) simp
  have "drop ((r * k + c) * 256) ?T ! unat b = gf_mul (gf_matrix_get M r c) b"
    if rc: "r < a" "c < k" for r c b
  proof -
    obtain t' where "length t' = 256"
      "slot 256 ?T (r * k + c) = gf_mul_tbl_init (gf_matrix_get M r c) t'"
      using T rc by blast
    then have "slot 256 ?T (r * k + c) ! unat b = gf_mul (gf_matrix_get M r c) b"
      by (simp add: gf_mul_tbl_init_nth)
    then show ?thesis using unat_u8_less [of b] by (simp add: slot_def del: unat_u8_less)
  qed
  moreover have "take 16 (drop ((r * k + c) * 32) ?U) ! unat (b AND 0x0f)
       XOR take 16 (drop 16 (drop ((r * k + c) * 32) ?U)) ! unat (drop_bit 4 b)
     = gf_mul (gf_matrix_get M r c) b" if rc: "r < a" "c < k" for r c b
  proof -
    obtain u' where u': "length u' = 32"
      "slot 32 ?U (r * k + c) = gf_mul_split_tbl_init (gf_matrix_get M r c) u'"
      using U rc by blast
    have "take 16 (drop ((r * k + c) * 32) ?U) = take 16 (slot 32 ?U (r * k + c))"
      "take 16 (drop 16 (drop ((r * k + c) * 32) ?U)) = take 16 (drop 16 (slot 32 ?U (r * k + c)))"
      by (simp_all add: slot_def drop_take)
    then show ?thesis using split_halves_mul [OF u'(1)] by (simp only: u'(2))
  qed
  ultimately show ?thesis unfolding tabs tables_ok_def fst_conv snd_conv by blast
qed

text \<open>A row of the code is the linear combination of the source shards, byte by byte.\<close>

lemma rs_row_spec:
  assumes t: "tables_ok a k C (tbl, stbl)" and i: "i < a" and k: "0 < k"
    and out: "length out = len" and src: "\<And>j. j < k \<Longrightarrow> length (src j) = len"
  shows "length (rs_row simd stbl tbl k i src len out) = len \<and>
    (\<forall>p < len. GF (rs_row simd stbl tbl k i src len out ! p) = (\<Sum>j<k. GF (C i j) * GF (src j ! p)))"
proof -
  let ?I = "\<lambda>j out'. length out' = len \<and>
    (\<forall>p < len. GF (out' ! p) = (if j = 0 then GF (out ! p) else (\<Sum>j<j. GF (C i j) * GF (src j ! p))))"
  have "?I k (rs_row simd stbl tbl k i src len out)"
    unfolding rs_row_def
  proof (rule for_upto_invariant [where I = ?I])
    fix j out' assume j: "j < k" and I: "?I j out'"
    have T: "drop ((i * k + j) * 256) tbl ! unat b = gf_mul (C i j) b"
      "take 16 (drop ((i * k + j) * 32) stbl) ! unat (b AND 0x0f)
       XOR take 16 (drop 16 (drop ((i * k + j) * 32) stbl)) ! unat (drop_bit 4 b) = gf_mul (C i j) b" for b
      using t i j by (auto simp: tables_ok_def)
    have l: "length out' = len" "len \<le> length (src j)" using I src [OF j] by auto
    show "?I (Suc j) (rs_mul_add simd out' (src j) (drop ((i * k + j) * 32) stbl)
        (drop ((i * k + j) * 256) tbl) len (j = 0))"
      using rs_mul_add_spec [OF l T(2) T(1), of simd "j = 0"] I by (auto simp: gf_simps)
  qed (use out in simp)
  with k show ?thesis by simp
qed

section \<open>The encoding matrix is systematic and MDS\<close>

definition enc_ok :: "nat \<Rightarrow> nat \<Rightarrow> gf_matrix \<Rightarrow> bool" where
  "enc_ok k m E \<longleftrightarrow> wf_mat E \<and> m_rows E = k + m \<and> m_cols E = k
   \<and> (\<forall>r<k. \<forall>c<k. mat E r c = (if r = c then 1 else 0))
   \<and> (\<forall>idx. length idx = k \<longrightarrow> distinct idx \<longrightarrow> set idx \<subseteq> {..<k + m} \<longrightarrow>
        ker_trivial k (\<lambda>r. mat E (idx ! r)))"

lemma GF_alpha: "GF (alpha n) = GF 2 ^ n"
proof (induction n)
  case (Suc n)
  have "alpha 1 = 2" by (simp add: alpha_def gf_x_def)
  then have "GF (alpha (Suc n)) = GF (gf_mul 2 (alpha n))"
    using gf_mul_alpha_alpha [of 1 n] by simp
  then show ?case using Suc by (simp add: gf_simps)
qed (simp add: alpha_0 gf_simps)

lemma GF_2_pow_inj:
  assumes "a < 255" "b < 255" "a \<noteq> b"
  shows "GF 2 ^ a \<noteq> GF 2 ^ b"
  using alpha_inj assms by (auto simp: inj_on_def simp flip: GF_alpha)

lemma build_small:
  assumes b: "build_encoding_matrix mem k m = Some E" and k: "0 < k" and m: "m = 1 \<or> m = 2"
  shows "wf_mat E \<and> m_rows E = k + m \<and> m_cols E = k \<and>
    (\<forall>r<k + m. \<forall>c<k. mat E r c = (if r < k then if r = c then 1 else 0 else if r = k then 1 else GF 2 ^ c))"
proof -
  obtain e0 where e0: "gf_matrix_create (site ''enc'' mem) (int (k + m)) (int k) = Some e0"
    using b m by (auto simp: build_encoding_matrix_def split: option.splits)
  note C = gf_matrix_create_Some [OF e0]
  define e1 where "e1 = for_upto k (\<lambda>r enc. gf_matrix_set enc r r 1) e0"
  define e2 where "e2 = for_upto k (\<lambda>c enc. gf_matrix_set enc k c 1) e1"
  define e3 where "e3 = fst (for_upto k
    (\<lambda>c (enc, coef). (gf_matrix_set enc (k + 1) c coef, gf_mul coef 2)) (e2, 1))"
  have E: "E = (if m = 2 then e3 else e2)"
  proof -
    have "m \<le> 2" using m by auto
    with b e0 show ?thesis unfolding build_encoding_matrix_def e1_def e2_def e3_def Let_def by simp
  qed
  let ?dims = "\<lambda>e. wf_mat e \<and> m_rows e = k + m \<and> m_cols e = k"
  let ?I = "\<lambda>i e. ?dims e \<and> (\<forall>r c. mat e r c = (if r < i \<and> r = c then 1 else 0))"
  have e1: "?I k e1" unfolding e1_def
  proof (rule for_upto_invariant [where I = ?I])
    fix i e assume "i < k" "?I i e"
    then show "?I (Suc i) (gf_matrix_set e i i 1)" by (auto simp: mat_simps gf_simps less_Suc_eq)
  qed (use C in auto)
  have e2: "?dims e2" "\<And>r c. mat e2 r c = (if r = k \<and> c < k then 1 else if r < k \<and> r = c then 1 else 0)"
    using fill_row [of e1 k k "\<lambda>_. 1"] e1 m unfolding e2_def by (auto simp: gf_simps)
  let ?J = "\<lambda>i (e, coef). ?dims e \<and> GF coef = GF 2 ^ i \<and>
    (\<forall>r c. mat e r c = (if r = k + 1 \<and> c < i then GF 2 ^ c else mat e2 r c))"
  have e3: "?dims e3" "\<And>r c. mat e3 r c = (if r = k + 1 \<and> c < k then GF 2 ^ c else mat e2 r c)" if "m = 2"
  proof -
    have "?J k (for_upto k (\<lambda>c (enc, coef). (gf_matrix_set enc (k + 1) c coef, gf_mul coef 2)) (e2, 1))"
    proof (rule for_upto_invariant [where I = ?J])
      fix i s assume "i < k" "?J i s"
      then show "?J (Suc i) (case s of (enc, coef) \<Rightarrow> (gf_matrix_set enc (k + 1) i coef, gf_mul coef 2))"
        using that by (auto simp: mat_simps gf_simps less_Suc_eq)
    qed (use e2 in \<open>auto simp: gf_simps\<close>)
    then show "?dims e3" "\<And>r c. mat e3 r c = (if r = k + 1 \<and> c < k then GF 2 ^ c else mat e2 r c)"
      by (auto simp: e3_def split: prod.splits)
  qed
  show ?thesis using m
  proof
    assume "m = 1"
    then show ?thesis using e2 E by auto
  next
    assume "m = 2"
    then show ?thesis using e2 e3 E by (auto simp: less_Suc_eq)
  qed
qed

text \<open>
  A kernel vector of \<open>k\<close> selected rows vanishes at every selected data row, so it is supported on
  the missing data rows \<open>U\<close>; there are as many of those as selected parity rows.
\<close>

lemma select_rows:
  assumes "length idx = k" "distinct idx" "set idx \<subseteq> {..<k + m}"
  defines "U \<equiv> {..<k} - set idx"
  shows "card U = card (set idx \<inter> {k..<k + m})"
proof -
  have "card (set idx) = card (set idx \<inter> {..<k}) + card (set idx \<inter> {k..<k + m})"
    by (subst card_Un_disjoint [symmetric]) (use assms(3) in \<open>auto intro!: arg_cong [where f = card]\<close>)
  moreover have "card U = k - card (set idx \<inter> {..<k})"
    unfolding U_def by (subst card_Diff_subset_Int) (auto simp: Int_commute)
  moreover have "card (set idx) = k" using assms by (simp add: distinct_card)
  ultimately show ?thesis by simp
qed

lemma kernel_on_missing:
  assumes idx: "length idx = k" and z: "\<forall>r<k. mvec k (\<lambda>r. A (idx ! r)) v r = 0"
    and top: "\<And>r c. r < k \<Longrightarrow> c < k \<Longrightarrow> A r c = (if r = c then 1 else 0)"
  defines "U \<equiv> {..<k} - set idx"
  shows "c < k \<Longrightarrow> c \<notin> U \<Longrightarrow> v c = 0" and "p \<in> set idx \<Longrightarrow> (\<Sum>c\<in>U. A p c * v c) = 0"
proof -
  have row: "(\<Sum>c<k. A p c * v c) = 0" if "p \<in> set idx" for p
    using that z idx by (auto simp: in_set_conv_nth mvec_def)
  show v0: "v c = 0" if c: "c < k" "c \<notin> U" for c
  proof -
    have "0 = (\<Sum>i<k. A c i * v i)" using row [of c] c by (simp add: U_def)
    also have "\<dots> = (\<Sum>i<k. if i = c then v c else 0)"
      by (rule sum.cong) (use c top in auto)
    also have "\<dots> = v c" using c by simp
    finally show ?thesis by simp
  qed
  show "(\<Sum>c\<in>U. A p c * v c) = 0" if "p \<in> set idx" for p
  proof -
    have "(\<Sum>c<k. A p c * v c) = (\<Sum>c\<in>U. A p c * v c)"
      by (rule sum.mono_neutral_right) (auto simp: U_def v0)
    then show ?thesis using row [OF that] by simp
  qed
qed

lemma small_mds:
  assumes top: "\<And>r c. r < k \<Longrightarrow> c < k \<Longrightarrow> A r c = (if r = c then 1 else 0)"
    and P: "\<And>c. c < k \<Longrightarrow> A k c = 1" and Q: "\<And>c. m = 2 \<Longrightarrow> c < k \<Longrightarrow> A (k + 1) c = GF 2 ^ c"
    and m: "m = 1 \<or> m = 2" "k + m \<le> 255"
    and idx: "length idx = k" "distinct idx" "set idx \<subseteq> {..<k + m}"
  shows "ker_trivial k (\<lambda>r. A (idx ! r))"
  unfolding ker_trivial_def
proof (intro allI impI)
  fix v c0 assume z: "\<forall>r<k. mvec k (\<lambda>r. A (idx ! r)) v r = 0" and c0: "c0 < k"
  define U where "U = {..<k} - set idx"
  have K1: "v c = 0" if "c < k" "c \<notin> U" for c
    using kernel_on_missing(1) [OF idx(1) z, of c] top that unfolding U_def by blast
  have K2: "(\<Sum>c\<in>U. A p c * v c) = 0" if "p \<in> set idx" for p
    using kernel_on_missing(2) [OF idx(1) z, of p] top that unfolding U_def by blast
  have cU: "card U = card (set idx \<inter> {k..<k + m})" unfolding U_def by (rule select_rows [OF idx])
  have fU: "finite U" "U \<subseteq> {..<k}" by (auto simp: U_def)
  have ne: "A p c \<noteq> 0" if "p \<in> {k..<k + m}" "c < k" for p c
    using that m P [of c] Q [of c] by (cases "p = k") (auto simp: less_Suc_eq)
  have "card U \<le> card {k..<k + m}" unfolding cU by (rule card_mono) auto
  then consider "card U = 0" | "card U = 1" | "card U = 2" "m = 2" using m by fastforce
  then have "c \<in> U \<Longrightarrow> v c = 0" for c
  proof cases
    case 1
    then show "c \<in> U \<Longrightarrow> v c = 0" using fU by simp
  next
    case 2
    then obtain a where a: "U = {a}" by (auto simp: card_1_singleton_iff)
    obtain p where p: "p \<in> set idx" "p \<in> {k..<k + m}"
      using 2 cU by (metis Int_iff card_1_singletonE insertI1)
    have "A p a * v a = 0" using K2 [OF p(1)] a by simp
    moreover have "A p a \<noteq> 0" using ne [OF p(2), of a] fU a by simp
    ultimately show "c \<in> U \<Longrightarrow> v c = 0" using a by simp
  next
    case 3
    then obtain a b where ab: "U = {a, b}" "a \<noteq> b" by (auto simp: card_2_iff)
    have "set idx \<inter> {k..<k + m} = {k..<k + m}"
      by (rule card_subset_eq) (use cU 3 in auto)
    then have "k \<in> set idx \<inter> {k..<k + m}" "k + 1 \<in> set idx \<inter> {k..<k + m}"
      using 3(2) by (simp_all only: atLeastLessThan_iff) simp_all
    then have pq: "k \<in> set idx" "k + 1 \<in> set idx" by blast+
    have lt: "a < k" "b < k" using ab fU by auto
    have 1: "v a + v b = 0" using K2 [OF pq(1)] ab lt P by simp
    have 2: "GF 2 ^ a * v a + GF 2 ^ b * v b = 0" using K2 [OF pq(2)] ab lt Q [OF 3(2)] by simp
    have vb: "v b = v a" using 1 by (simp add: add_eq_0_iff2)
    have "(GF 2 ^ a - GF 2 ^ b) * v a = 0" using 2 unfolding vb gf_minus_plus distrib_right .
    moreover have "GF 2 ^ a - GF 2 ^ b \<noteq> 0" using GF_2_pow_inj [of a b] lt m(2) ab(2) 3(2) by simp
    ultimately have "v a = 0" by simp
    then show "c \<in> U \<Longrightarrow> v c = 0" using ab vb by auto
  qed
  then show "v c0 = 0" using K1 c0 by blast
qed

lemma u8_points_inj: "inj_on (\<lambda>i. GF (of_nat (i + 1))) {..<255}"
proof (rule inj_onI)
  fix x y :: nat assume xy: "x \<in> {..<255}" "y \<in> {..<255}"
    and "GF (of_nat (x + 1)) = GF (of_nat (y + 1))"
  then have "unat (of_nat (x + 1) :: u8) = unat (of_nat (y + 1) :: u8)" by simp
  then show "x = y" using xy by (simp add: unat_of_nat del: of_nat_add of_nat_Suc)
qed

lemma vandermonde_rows:
  assumes V: "\<And>i j. i < n \<Longrightarrow> j < k \<Longrightarrow> A i j = GF (of_nat (i + 1)) ^ j" and n: "n \<le> 255"
    and idx: "length idx = k" "distinct idx" "set idx \<subseteq> {..<n}"
  shows "ker_trivial k (\<lambda>r. A (idx ! r))"
  unfolding ker_trivial_def
proof (intro allI impI)
  fix v c assume z: "\<forall>r<k. mvec k (\<lambda>r. A (idx ! r)) v r = 0" and c: "c < k"
  let ?S = "(\<lambda>i. GF (of_nat (i + 1))) ` set idx"
  have "card ?S = k"
  proof -
    have "set idx \<subseteq> {..<255}" using idx n by auto
    then show ?thesis using card_image [OF inj_on_subset [OF u8_points_inj]] idx(1,2)
      by (simp only: distinct_card)
  qed
  moreover have "(\<Sum>c<k. v c * x ^ c) = 0" if x: "x \<in> ?S" for x
  proof -
    obtain r where r: "r < k" "x = GF (of_nat (idx ! r + 1))"
      using x idx(1) unfolding image_iff by (metis in_set_conv_nth)
    have "idx ! r < n" using r idx by (meson lessThan_iff nth_mem subsetD)
    then have "(\<Sum>c<k. v c * x ^ c) = mvec k (\<lambda>r. A (idx ! r)) v r"
      unfolding mvec_def by (intro sum.cong) (simp_all add: V r(2) mult.commute)
    then show ?thesis using z r(1) by simp
  qed
  ultimately show "v c = 0" using vandermonde_coeffs_zero [of ?S k v c] c by simp
qed

lemma build_large_enc_ok:
  assumes b: "build_encoding_matrix mem k m = Some E" and k: "0 < k" "3 \<le> m" "k + m \<le> 255"
  shows "enc_ok k m E"
proof -
  obtain V t0 ti0 T e0 where
    V: "gf_matrix_vandermonde (site ''vand'' mem) (int (k + m)) (int k) = Some V" and
    t0: "gf_matrix_create (site ''top'' mem) (int k) (int k) = Some t0" and
    ti0: "gf_matrix_create (site ''top_inv'' mem) (int k) (int k) = Some ti0" and
    T: "gf_matrix_invert (site ''work'' mem) (for_upto k (\<lambda>r. for_upto k (\<lambda>c t.
          gf_matrix_set t r c (gf_matrix_get V r c))) t0) ti0 = (None, T)" and
    e0: "gf_matrix_create (site ''enc'' mem) (int (k + m)) (int k) = Some e0" and
    E: "gf_matrix_mul V T e0 = Inr E"
    using b k(2) by (auto simp: build_encoding_matrix_def Let_def
        split: option.splits prod.splits sum.splits if_splits)
  note V' = gf_matrix_vandermonde_Some [OF V]
  have kb: "k \<le> 256" using k by simp
  define tp where "tp = for_upto k (\<lambda>r. for_upto k (\<lambda>c t. gf_matrix_set t r c (gf_matrix_get V r c))) t0"
  note t0' = gf_matrix_create_Some [OF t0] and ti0' = gf_matrix_create_Some [OF ti0]
    and e0' = gf_matrix_create_Some [OF e0]
  have tp: "wf_mat tp" "m_rows tp = k" "m_cols tp = k"
    "\<And>r c. r < k \<Longrightarrow> c < k \<Longrightarrow> mat tp r c = mat V r c"
    using fill_matrix [OF t0'(1), of k "gf_matrix_get V"] t0'(2,3) V'(2,3) [OF kb]
    unfolding tp_def by (auto simp: GF_get)
  have T': "wf_mat T" "m_rows T = k" "m_cols T = k" "ker_trivial k (mat T)"
    "mmul k (mat tp) (mat T) = unit_mat k"
    using T [folded tp_def] gf_matrix_invert_cases [OF tp(1-3), of ti0 "site ''work'' mem"] ti0' k(1)
    by auto
  obtain E' where E': "gf_matrix_mul V T e0 = Inr E'" "wf_mat E'" "m_rows E' = m_rows V"
    "m_cols E' = m_cols T" "mat E' = mmul (m_cols V) (mat V) (mat T)"
    by (rule gf_matrix_mul_spec [of e0 V T]) (use e0' V'(1-3) [OF kb] T' in auto)
  have mE: "mat E = mmul k (mat V) (mat T)" using E E' V'(3) [OF kb] by simp
  have "mat E r c = (if r = c then 1 else 0)" if "r < k" "c < k" for r c
  proof -
    have "mat E r c = mmul k (mat tp) (mat T) r c"
      unfolding mE mmul_def by (rule sum.cong) (use tp that in auto)
    then show ?thesis using that by (simp add: T' unit_mat_def)
  qed
  moreover have "ker_trivial k (\<lambda>r. mat E (idx ! r))"
    if idx: "length idx = k" "distinct idx" "set idx \<subseteq> {..<k + m}" for idx
  proof -
    have Vk: "ker_trivial k (\<lambda>r. mat V (idx ! r))"
      by (rule vandermonde_rows [OF V'(4) [OF kb] k(3) idx])
    have "mvec k (\<lambda>r. mat E (idx ! r)) v r = mvec k (\<lambda>r. mat V (idx ! r)) (mvec k (mat T) v) r" for v r
      unfolding mvec_mmul mE by (simp add: mvec_def mmul_def)
    then show ?thesis using Vk T'(4) unfolding ker_trivial_def by metis
  qed
  ultimately show ?thesis using E E' V'(1-3) [OF kb] T' by (simp add: enc_ok_def)
qed

lemma build_encoding_matrix_ok:
  assumes b: "build_encoding_matrix mem k m = Some E" and k: "0 < k" "0 < m" "k + m \<le> 255"
  shows "enc_ok k m E"
proof (cases "3 \<le> m")
  case True
  then show ?thesis using build_large_enc_ok b k by blast
next
  case False
  then have m: "m = 1 \<or> m = 2" using k by auto
  note B = build_small [OF b k(1) m]
  have "ker_trivial k (\<lambda>r. mat E (idx ! r))"
    if "length idx = k" "distinct idx" "set idx \<subseteq> {..<k + m}" for idx
    by (rule small_mds [OF _ _ _ m k(3) that]) (use B k in auto)
  then show ?thesis using B k by (simp add: enc_ok_def)
qed

section \<open>Properties\<close>

text \<open>
  C15. The matrix that \<^verbatim>\<open>build_encoding_matrix\<close> returns for \<open>1 \<le> k\<close>,
  \<open>1 \<le> m\<close>, \<open>k + m \<le> 255\<close> is systematic, its top \<open>k\<close> rows being the
  identity, and maximum distance separable: any \<open>k\<close> distinct rows of it have a trivial kernel.
  This covers the all-ones row (m = 1), the P and Q rows (m = 2) and the normalised Vandermonde
  matrix (m at least 3).
\<close>

theorem build_encoding_matrix_mds:
  assumes "0 < k" "0 < m" "k + m \<le> 255"
  shows "case build_encoding_matrix mem k m of None \<Rightarrow> True | Some E \<Rightarrow> enc_ok k m E"
  using build_encoding_matrix_ok [OF _ assms] by (auto split: option.splits)

theorem build_encoding_matrix_mds_witness:
  "case build_encoding_matrix all_allocs 3 2 of None \<Rightarrow> True | Some E \<Rightarrow> enc_ok 3 2 E"
  by (rule build_encoding_matrix_mds) simp_all

text \<open>
  The inner loop of encode and decode computes, in every byte, the old contents (or zero when
  \<^verbatim>\<open>init\<close> is set) plus the product of the coefficient with the input byte, whether the
  16-byte vector path runs or not and for every shard length, multiples of 16 or not; nothing
  else of the buffer changes.
\<close>

theorem rs_mul_add_product:
  assumes "length out = len" "len \<le> length inb" "length t = 256" "length u = 32"
  shows "rs_mul_add simd out inb (gf_mul_split_tbl_init x u) (gf_mul_tbl_init x t) len init =
    map (\<lambda>i. (if init then 0 else out ! i) XOR gf_mul x (inb ! i)) [0..<len]"
  using rs_mul_add_spec [where x = x and simd = simd and init = init, OF assms(1,2)
      split_halves_mul [OF assms(4)] gf_mul_tbl_init_nth [OF assms(3)]]
  by (intro nth_equalityI) auto

theorem rs_mul_add_product_witness:
  "rs_mul_add True (replicate 17 1) (replicate 17 3) (gf_mul_split_tbl_init 7 (replicate 32 0))
     (gf_mul_tbl_init 7 (replicate 256 0)) 17 False =
   map (\<lambda>i. (if False then 0 else replicate 17 1 ! i) XOR gf_mul 7 (replicate 17 3 ! i)) [0..<17]"
  by (rule rs_mul_add_product) simp_all

end
