(* ===== verification/RS_Correct.thy ===== *)
theory RS_Correct
  imports ReedSolomon
begin

text \<open>
  Correctness of the Reed-Solomon encoder and decoder of \<^verbatim>\<open>src/lib/ec/rs.c\<close> as modelled
  in \<open>ReedSolomon\<close>: what a created encoding satisfies, what the parity shards are, that decoding
  restores the stripe from any sufficient set of shards on every allocation outcome, and the
  interpretation of the erasure-coding contract.
\<close>

section \<open>Created encodings\<close>

definition rs_ok :: "rs_private ec_encoding \<Rightarrow> bool" where
  "rs_ok e \<longleftrightarrow> 0 < ec_k e \<and> 0 < ec_m e \<and> ec_k e + ec_m e \<le> 255
   \<and> enc_ok (ec_k e) (ec_m e) (rsp_encode (ec_private e))
   \<and> tables_ok (ec_m e) (ec_k e) (\<lambda>i j. gf_matrix_get (rsp_encode (ec_private e)) (ec_k e + i) j)
       (parity_tbl (ec_private e), parity_split_tbl (ec_private e))"

lemma tables_ok_cong:
  assumes "\<And>r c. r < a \<Longrightarrow> c < k \<Longrightarrow> C r c = D r c"
  shows "tables_ok a k C t = tables_ok a k D t"
  using assms by (simp add: tables_ok_def)

lemma ec_rs_create_ok:
  assumes c: "ec_rs_create mem k m = Some e"
  shows "rs_ok e" "ec_k e = nat k" "ec_m e = nat m"
proof -
  obtain E p0 where k: "0 < k" "0 < m" "k + m \<le> 255"
    and E: "build_encoding_matrix mem (nat k) (nat m) = Some E"
    and p0: "gf_matrix_create (site ''rsp_parity'' mem) m k = Some p0"
    using c by (auto simp: ec_rs_create_def Let_def split: if_splits option.splits)
  define par where "par = for_upto (nat m) (\<lambda>r. for_upto (nat k) (\<lambda>c par.
                  gf_matrix_set par r c (gf_matrix_get E (nat k + r) c))) p0"
  define t where "t = rs_fill_tables (nat m) (nat k) par
                  (replicate (nat m * nat k * 256) 0, replicate (nat m * nat k * 32) 0)"
  have e: "e = \<lparr>ec_name = ''reed-solomon'', ec_k = nat k, ec_m = nat m,
      ec_private = \<lparr>rsp_encode = E, rsp_parity = par, parity_tbl = fst t, parity_split_tbl = snd t\<rparr>\<rparr>"
    using c E p0 by (simp add: ec_rs_create_def Let_def par_def t_def split_beta split: if_splits)
  have kb: "0 < nat k" "0 < nat m" "nat k + nat m \<le> 255" using k by auto
  have ok: "enc_ok (nat k) (nat m) E" by (rule build_encoding_matrix_ok [OF E kb])
  note P = gf_matrix_create_Some [OF p0]
  have "gf_matrix_get par r c = gf_matrix_get E (nat k + r) c" if "r < nat m" "c < nat k" for r c
  proof -
    have "m_rows par = nat m" "m_cols par = nat k" "mat par r c = GF (gf_matrix_get E (nat k + r) c)"
      using fill_matrix [OF P(1), of "nat m" "\<lambda>r c. gf_matrix_get E (nat k + r) c"] P(2,3) that
      unfolding par_def by auto
    then show ?thesis using that by (simp add: mat_def)
  qed
  moreover have "tables_ok (nat m) (nat k) (gf_matrix_get par) t"
    unfolding t_def by (rule rs_fill_tables_ok) simp_all
  ultimately have "tables_ok (nat m) (nat k) (\<lambda>i j. gf_matrix_get E (nat k + i) j) (fst t, snd t)"
    using tables_ok_cong [of "nat m" "nat k" "gf_matrix_get par"] by simp
  then show "rs_ok e" "ec_k e = nat k" "ec_m e = nat m" using kb ok by (simp_all add: rs_ok_def e)
qed

text \<open>With memory, creation succeeds on every geometry of the documented range.\<close>

lemma build_encoding_matrix_total:
  assumes k: "0 < k" "0 < m" "k + m \<le> 255"
  shows "build_encoding_matrix all_allocs k m \<noteq> None"
proof (cases "m \<le> 2")
  case True
  then show ?thesis using k by (simp add: build_encoding_matrix_def gf_matrix_create_def Let_def)
next
  case False
  let ?new = "\<lambda>r c. \<lparr>m_rows = r, m_cols = c, m_data = replicate (r * c) (0 :: u8)\<rparr>"
  have new: "gf_matrix_create all_allocs (int r) (int c) = Some (?new r c)" if "0 < r" "0 < c" for r c
    using that by (simp add: gf_matrix_create_def)
  have ok: "wf_mat (?new r c)" for r c by (simp add: wf_mat_def)
  have kb: "k \<le> 256" "0 < k + m" using k by simp_all
  obtain V where V: "gf_matrix_vandermonde all_allocs (int (k + m)) (int k) = Some V"
    using new [OF kb(2) k(1)] by (auto simp: gf_matrix_vandermonde_def)
  note V' = gf_matrix_vandermonde_Some [OF V kb(1)]
  define tp where "tp = for_upto k (\<lambda>r. for_upto k (\<lambda>c t. gf_matrix_set t r c (gf_matrix_get V r c))) (?new k k)"
  have tp: "wf_mat tp" "m_rows tp = k" "m_cols tp = k"
    "\<And>r c. r < k \<Longrightarrow> c < k \<Longrightarrow> mat tp r c = mat V r c"
    using fill_matrix [OF ok, of k k k "gf_matrix_get V"] V'(2,3)
    unfolding tp_def by (auto simp: GF_get)
  have "ker_trivial k (\<lambda>r. mat V ([0..<k] ! r))"
    by (rule vandermonde_rows [OF V'(4) k(3)]) auto
  then have ker: "ker_trivial k (mat tp)" using tp(4) by (simp add: ker_trivial_def mvec_def)
  obtain T where T: "gf_matrix_invert all_allocs tp (?new k k) = (None, T)" "wf_mat T" "m_rows T = k" "m_cols T = k"
    using gf_matrix_invert_cases [OF tp(1-3) ok [of k k], of all_allocs] k(1) ker by auto
  obtain E where E: "gf_matrix_mul V T (?new (k + m) k) = Inr E"
    by (rule gf_matrix_mul_spec [of "?new (k + m) k" V T]) (use ok V'(1-3) T in auto)
  have "build_encoding_matrix all_allocs k m = Some E"
    unfolding build_encoding_matrix_def V new [OF k(1,1)] new [OF kb(2) k(1)] Let_def
    using False T(1) E by (simp add: tp_def)
  then show ?thesis by simp
qed

lemma ec_rs_create_total:
  assumes "1 \<le> k" "1 \<le> m" "k + m \<le> 255"
  shows "\<exists>e. ec_rs_create all_allocs k m = Some e"
proof -
  obtain E where "build_encoding_matrix all_allocs (nat k) (nat m) = Some E"
    using build_encoding_matrix_total [of "nat k" "nat m"] assms by fastforce
  moreover have "gf_matrix_create all_allocs m k \<noteq> None" using assms by (simp add: gf_matrix_create_def)
  ultimately show ?thesis using assms by (auto simp: ec_rs_create_def Let_def split_beta)
qed

section \<open>Encode\<close>

lemma length_for_upto_update:
  "length (for_upto n (\<lambda>i xs. xs[h i := f i xs]) xs) = length xs"
  by (induction n) auto

text \<open>The value of byte \<open>p\<close> of shard \<open>i\<close> in the stripe that the matrix \<open>E\<close> makes of \<open>data\<close>.\<close>

definition code_byte :: "gf_matrix \<Rightarrow> nat \<Rightarrow> shard list \<Rightarrow> nat \<Rightarrow> nat \<Rightarrow> gf" where
  "code_byte E k data i p = mvec k (mat E) (\<lambda>j. GF (data ! j ! p)) i"

lemma rs_row_parity:
  fixes simd :: bool
  assumes e: "rs_ok e" and i: "i < ec_m e" and src: "\<And>j. j < ec_k e \<Longrightarrow> src j = data ! j"
    and data: "shards_ok (ec_k e) len data" and out: "length out = len"
  defines "row \<equiv> rs_row simd (parity_split_tbl (ec_private e)) (parity_tbl (ec_private e)) (ec_k e) i src len out"
  shows "length row = len" "\<And>p. p < len \<Longrightarrow>
    GF (row ! p) = code_byte (rsp_encode (ec_private e)) (ec_k e) data (ec_k e + i) p"
proof -
  let ?E = "rsp_encode (ec_private e)" and ?k = "ec_k e"
  have t: "tables_ok (ec_m e) ?k (\<lambda>i j. gf_matrix_get ?E (?k + i) j)
      (parity_tbl (ec_private e), parity_split_tbl (ec_private e))" and k: "0 < ?k"
    and E: "m_rows ?E = ?k + ec_m e" "m_cols ?E = ?k"
    using e by (auto simp: rs_ok_def enc_ok_def)
  have sl: "length (src j) = len" if "j < ?k" for j using src data that by (simp add: shards_ok_nth)
  have R: "length row = len \<and> (\<forall>p < len. GF (row ! p) =
      (\<Sum>j<?k. GF (gf_matrix_get ?E (?k + i) j) * GF (src j ! p)))"
    unfolding row_def by (rule rs_row_spec [OF t i k out sl])
  then show "length row = len" by blast
  fix p assume "p < len"
  then have "GF (row ! p) = (\<Sum>j<?k. GF (gf_matrix_get ?E (?k + i) j) * GF (src j ! p))"
    using R by blast
  also have "\<dots> = code_byte ?E ?k data (?k + i) p"
    unfolding code_byte_def mvec_def by (rule sum.cong) (use E i src in \<open>simp_all add: mat_def\<close>)
  finally show "GF (row ! p) = code_byte ?E ?k data (?k + i) p" .
qed

lemma rs_encode_spec:
  assumes e: "rs_ok e" and data: "shards_ok (ec_k e) len data" and par: "shards_ok (ec_m e) len parity"
  shows "shards_ok (ec_m e) len (rs_encode simd e data parity len) \<and>
    (\<forall>i < ec_m e. \<forall>p < len. GF (rs_encode simd e data parity len ! i ! p) =
       code_byte (rsp_encode (ec_private e)) (ec_k e) data (ec_k e + i) p)"
proof -
  let ?m = "ec_m e"
  let ?I = "\<lambda>n par'. shards_ok ?m len par' \<and> (\<forall>i < n. \<forall>p < len. GF (par' ! i ! p) =
       code_byte (rsp_encode (ec_private e)) (ec_k e) data (ec_k e + i) p)"
  have "?I ?m (rs_encode simd e data parity len)"
    unfolding rs_encode_def Let_def
  proof (rule for_upto_invariant [where I = ?I])
    fix i par' assume i: "i < ?m" and I: "?I i par'"
    have l: "length (par' ! i) = len" "length par' = ?m" using I i by (auto simp: shards_ok_def)
    define row where "row = rs_row simd (parity_split_tbl (ec_private e))
        (parity_tbl (ec_private e)) (ec_k e) i ((!) data) len (par' ! i)"
    note R = rs_row_parity [OF e i refl data l(1), where simd = simd, folded row_def]
    have "?I (Suc i) (par'[i := row])"
    proof (intro conjI allI impI)
      show "shards_ok ?m len (par'[i := row])"
        using I R(1) by (intro shards_ok_update) auto
      fix i' p assume "i' < Suc i" and p: "p < len"
      then show "GF (par'[i := row] ! i' ! p) =
          code_byte (rsp_encode (ec_private e)) (ec_k e) data (ec_k e + i') p"
        using R(2) [OF p] I l(2) i p by (cases "i' = i") auto
    qed
    then show "?I (Suc i) (par'[i := rs_row simd (parity_split_tbl (ec_private e))
        (parity_tbl (ec_private e)) (ec_k e) i ((!) data) len (par' ! i)])"
      unfolding row_def .
  qed (use par in simp)
  then show ?thesis by blast
qed

lemma code_byte_data:
  assumes "enc_ok k m E" "i < k"
  shows "code_byte E k data i p = GF (data ! i ! p)"
proof -
  have "code_byte E k data i p = (\<Sum>j<k. if j = i then GF (data ! i ! p) else 0)"
    unfolding code_byte_def mvec_def by (rule sum.cong) (use assms in \<open>auto simp: enc_ok_def\<close>)
  then show ?thesis using assms by simp
qed

text \<open>Every byte of the stripe is the matrix row applied to the data column.\<close>

lemma stripe_byte:
  assumes e: "rs_ok e" and data: "shards_ok (ec_k e) len data" and par: "shards_ok (ec_m e) len parity"
    and i: "i < ec_k e + ec_m e" and p: "p < len"
  shows "GF ((data @ rs_encode simd e data parity len) ! i ! p) =
    code_byte (rsp_encode (ec_private e)) (ec_k e) data i p"
proof (cases "i < ec_k e")
  case True
  moreover have "enc_ok (ec_k e) (ec_m e) (rsp_encode (ec_private e))" using e by (simp add: rs_ok_def)
  ultimately show ?thesis using data by (simp add: code_byte_data nth_append shards_ok_def)
next
  case False
  then show ?thesis
    using rs_encode_spec [OF e data par, of simd] data i p
    by (auto simp: nth_append shards_ok_def dest!: spec [of _ "i - ec_k e"])
qed

section \<open>Decode\<close>

lemma avail_rows_props:
  assumes "length present = n" "k \<le> num_present present"
  shows "length (avail_rows k n present) = k" "distinct (avail_rows k n present)"
    "set (avail_rows k n present) \<subseteq> {i. i < n \<and> present ! i}"
proof -
  show "length (avail_rows k n present) = k"
    using assms present_count [OF assms(1)] by (simp add: avail_rows_def)
  show "distinct (avail_rows k n present)" by (simp add: avail_rows_def)
  show "set (avail_rows k n present) \<subseteq> {i. i < n \<and> present ! i}"
    using set_take_subset [of k "filter (\<lambda>i. present ! i) [0..<n]"] by (auto simp: avail_rows_def)
qed

lemma shard_eqI:
  assumes "length a = len" "length b = len" "\<And>p. p < len \<Longrightarrow> GF (a ! p) = GF (b ! p)"
  shows "a = b"
  using assms by (intro nth_equalityI) auto

text \<open>The recovered rows are the data: the inverse of the selected rows undoes the selection.\<close>

lemma recovered_row:
  assumes e: "rs_ok e" and data: "shards_ok (ec_k e) len data"
    and idx: "length idx = ec_k e"
    and src: "\<And>c p. c < ec_k e \<Longrightarrow> length (src c) = len \<and> (p < len \<longrightarrow>
       GF (src c ! p) = code_byte (rsp_encode (ec_private e)) (ec_k e) data (idx ! c) p)"
    and inverse: "mmul (ec_k e) (mat B) (\<lambda>r c. if r < ec_k e \<and> c < ec_k e
       then mat (rsp_encode (ec_private e)) (idx ! r) c else 0) = unit_mat (ec_k e)"
    and B: "m_rows B = ec_k e" "m_cols B = ec_k e"
    and t: "tables_ok (ec_k e) (ec_k e) (gf_matrix_get B) (tbl, stbl)" and r: "r < ec_k e"
  shows "rs_row simd stbl tbl (ec_k e) r src len (replicate len 0) = data ! r"
proof (rule shard_eqI)
  let ?k = "ec_k e" and ?E = "rsp_encode (ec_private e)"
  have k: "0 < ?k" using r by simp
  have R: "length (rs_row simd stbl tbl ?k r src len (replicate len 0)) = len \<and>
    (\<forall>p < len. GF (rs_row simd stbl tbl ?k r src len (replicate len 0) ! p) =
       (\<Sum>j<?k. GF (gf_matrix_get B r j) * GF (src j ! p)))"
    by (rule rs_row_spec [OF t r k]) (use src in auto)
  then show "length (rs_row simd stbl tbl ?k r src len (replicate len 0)) = len" by blast
  show "length (data ! r) = len" using data r by (rule shards_ok_nth)
  fix p assume p: "p < len"
  let ?D = "\<lambda>j. GF (data ! j ! p)"
  let ?S = "\<lambda>r c. if r < ?k \<and> c < ?k then mat ?E (idx ! r) c else 0"
  have "GF (rs_row simd stbl tbl ?k r src len (replicate len 0) ! p) =
      (\<Sum>j<?k. GF (gf_matrix_get B r j) * GF (src j ! p))" using R p by blast
  also have "\<dots> = mvec ?k (mat B) (mvec ?k ?S ?D) r"
    unfolding mvec_def [of ?k "mat B"]
    by (rule sum.cong) (use src p r B in \<open>auto simp: mat_def [of B] code_byte_def mvec_def\<close>)
  also have "\<dots> = ?D r" using r by (simp add: mvec_mmul inverse mvec_unit)
  finally show "GF (rs_row simd stbl tbl ?k r src len (replicate len 0) ! p) = GF (data ! r ! p)" .
qed

lemma append_eqI:
  assumes "length s = length a + length b" "\<And>i. i < length a \<Longrightarrow> s ! i = a ! i"
    "\<And>i. i < length b \<Longrightarrow> s ! (length a + i) = b ! i"
  shows "s = a @ b"
proof (rule nth_equalityI)
  fix i assume "i < length s"
  then show "s ! i = (a @ b) ! i"
    using assms(2) [of i] assms(3) [of "i - length a"] assms(1) by (cases "i < length a") (auto simp: nth_append)
qed (use assms in simp)

lemma rs_restore_data_spec:
  assumes "shards_ok k len data" "shards_ok n len sh" "k \<le> n"
  shows "rs_restore_data k present data len sh =
    map (\<lambda>i. if i < k \<and> \<not> present ! i then data ! i else sh ! i) [0..<n]"
proof -
  let ?I = "\<lambda>j s. s = map (\<lambda>i. if i < j \<and> \<not> present ! i then data ! i else sh ! i) [0..<n]"
  show ?thesis unfolding rs_restore_data_def
  proof (rule for_upto_invariant [where I = ?I])
    show "?I 0 sh" using assms(2) map_nth [of sh] by (auto simp: shards_ok_def)
    fix j s assume j: "j < k" and I: "?I j s"
    have "take len (data ! j) = data ! j" "drop len (s ! j) = []"
      using I j assms by (auto simp: shards_ok_nth)
    then show "?I (Suc j) (if \<not> present ! j
        then s[j := take len (data ! j) @ drop len (s ! j)] else s)"
      using I j assms by (auto intro!: nth_equalityI simp: nth_list_update less_Suc_eq)
  qed
qed

lemma rs_restore_parity_spec:
  assumes e: "rs_ok e" and data: "shards_ok (ec_k e) len data" and par: "shards_ok (ec_m e) len parity"
    and sh: "shards_ok (ec_k e + ec_m e) len sh"
    and d: "\<And>i. i < ec_k e \<Longrightarrow> sh ! i = data ! i"
    and p: "\<And>i. i < ec_m e \<Longrightarrow> present ! (ec_k e + i) \<Longrightarrow>
              sh ! (ec_k e + i) = rs_encode simd e data parity len ! i"
  shows "rs_restore_parity simd (ec_private e) (ec_k e) (ec_m e) present data len sh
           = data @ rs_encode simd e data parity len"
proof -
  let ?k = "ec_k e" and ?m = "ec_m e" and ?P = "rs_encode simd e data parity len"
  have P: "shards_ok ?m len ?P" "\<And>i q. i < ?m \<Longrightarrow> q < len \<Longrightarrow>
      GF (?P ! i ! q) = code_byte (rsp_encode (ec_private e)) ?k data (?k + i) q"
    using rs_encode_spec [OF e data par, of simd] by auto
  let ?I = "\<lambda>j s. shards_ok (?k + ?m) len s \<and> (\<forall>i < ?k. s ! i = data ! i) \<and>
    (\<forall>i < ?m. i < j \<or> present ! (?k + i) \<longrightarrow> s ! (?k + i) = ?P ! i)"
  let ?row = "\<lambda>i s. rs_row simd (parity_split_tbl (ec_private e)) (parity_tbl (ec_private e)) ?k i
          (\<lambda>j. if present ! j then s ! j else data ! j) len (s ! (?k + i))"
  have "?I ?m (rs_restore_parity simd (ec_private e) ?k ?m present data len sh)"
    unfolding rs_restore_parity_def
  proof (rule for_upto_invariant [where I = ?I])
    fix i s assume i: "i < ?m" and I: "?I i s"
    have l: "length (s ! (?k + i)) = len" "length s = ?k + ?m" using I i by (auto simp: shards_ok_def)
    have R: "length (?row i s) = len" "\<And>q. q < len \<Longrightarrow>
        GF (?row i s ! q) = code_byte (rsp_encode (ec_private e)) ?k data (?k + i) q"
      using rs_row_parity [OF e i _ data l(1), where simd = simd
          and src = "\<lambda>j. if present ! j then s ! j else data ! j"] I
      by auto
    have "?row i s = ?P ! i"
      by (rule shard_eqI [where len = len]) (use R P i in \<open>auto simp: shards_ok_nth\<close>)
    moreover have "shards_ok (?k + ?m) len (s[?k + i := ?row i s])"
      using I R(1) by (intro shards_ok_update) auto
    ultimately show "?I (Suc i) (if present ! (?k + i) then s else s[?k + i := ?row i s])"
      using I i l by (auto simp: less_Suc_eq nth_list_update)
  qed (use sh d p in simp)
  then show ?thesis
    using P(1) data by (intro append_eqI) (auto simp: shards_ok_def)
qed

text \<open>
  The first half of the decoder either runs out of memory or reaches the recovery loop with the
  inverse of the selected rows in the tables.
\<close>

lemma rs_decode_run:
  fixes e :: "rs_private ec_encoding" and simd :: bool
  assumes e: "rs_ok e" and sh: "length present = ec_k e + ec_m e" "ec_k e \<le> num_present present"
    "num_present present \<noteq> ec_k e + ec_m e"
  defines "k \<equiv> ec_k e" and "n \<equiv> ec_k e + ec_m e" and "idx \<equiv> avail_rows (ec_k e) (ec_k e + ec_m e) present"
  obtains (nomem) "rs_decode mem simd e shards present len = (Some ENOMEM, shards)" "mem \<noteq> all_allocs"
    | (run) B tbl stbl where "m_rows B = k" "m_cols B = k" "tables_ok k k (gf_matrix_get B) (tbl, stbl)"
      "mmul k (mat B) (\<lambda>r c. if r < k \<and> c < k
         then mat (rsp_encode (ec_private e)) (idx ! r) c else 0) = unit_mat k"
      "rs_decode mem simd e shards present len =
        (let recovered = map (\<lambda>r. rs_row simd stbl tbl k r (\<lambda>c. shards ! (idx ! c)) len (replicate len 0)) [0..<k];
             shards = rs_restore_data k present recovered len shards
         in if list_all (\<lambda>i. present ! i) [k..<n] then (None, shards)
         else if \<not> mem ''data_ptrs'' then (Some ENOMEM, shards)
         else (None, rs_restore_parity simd (ec_private e) k (ec_m e) present recovered len shards))"
proof -
  let ?E = "rsp_encode (ec_private e)" and ?dec = "rs_decode mem simd e shards present len"
  have k: "0 < k" "n \<le> 255" and E: "enc_ok k (ec_m e) ?E" using e by (auto simp: rs_ok_def k_def n_def)
  have cnt: "length (filter (\<lambda>i. present ! i) [0..<n]) = num_present present"
    using present_count [OF sh(1)] by (simp add: n_def)
  note I = avail_rows_props [OF sh(1,2), folded idx_def k_def n_def]
  show ?thesis
  proof (cases "mem ''avail_idx'' \<and> gf_matrix_create (site ''sub'' mem) (int k) (int k) \<noteq> None
      \<and> gf_matrix_create (site ''sub_inv'' mem) (int k) (int k) \<noteq> None")
    case False
    then have "?dec = (Some ENOMEM, shards)"
      using sh cnt by (auto simp: rs_decode_def Let_def k_def n_def split: option.splits)
    moreover have "mem \<noteq> all_allocs" using False k by (auto simp: gf_matrix_create_def)
    ultimately show ?thesis by (rule nomem)
  next
    case True
    then obtain s0 i0 where s0: "gf_matrix_create (site ''sub'' mem) (int k) (int k) = Some s0"
      and i0: "gf_matrix_create (site ''sub_inv'' mem) (int k) (int k) = Some i0" by auto
    define S where "S = for_upto k (\<lambda>r. for_upto k (\<lambda>c sub.
            gf_matrix_set sub r c (gf_matrix_get ?E (idx ! r) c))) s0"
    note s0' = gf_matrix_create_Some [OF s0] and i0' = gf_matrix_create_Some [OF i0]
    have S: "wf_mat S" "m_rows S = k" "m_cols S = k"
      "mat S = (\<lambda>r c. if r < k \<and> c < k then mat ?E (idx ! r) c else 0)"
      using fill_matrix [OF s0'(1), of k "\<lambda>r c. gf_matrix_get ?E (idx ! r) c"] s0' E I
      unfolding S_def enc_ok_def
      by (auto simp: fun_eq_iff GF_get n_def k_def subset_iff)
    have dec: "?dec = (case gf_matrix_invert (site ''work'' mem) S i0 of
        (Some e, _) \<Rightarrow> (Some e, shards)
      | (None, sub_inv) \<Rightarrow>
      if \<not> mem ''decode_tbl'' \<or> \<not> mem ''decode_split_tbl'' then (Some ENOMEM, shards)
      else let (tbl, stbl) = rs_fill_tables k k sub_inv
             (replicate (k * k * 256) 0, replicate (k * k * 32) 0) in
      if \<not> mem ''recovered'' \<or> \<not> list_all (\<lambda>i. mem (''recovered.'' @ replicate i (CHR ''i''))) [0..<k]
      then (Some ENOMEM, shards)
      else let recovered = map (\<lambda>r. rs_row simd stbl tbl k r (\<lambda>c. shards ! (idx ! c)) len
                                      (replicate len 0)) [0..<k];
               shards = rs_restore_data k present recovered len shards
      in if list_all (\<lambda>i. present ! i) [k..<n] then (None, shards)
      else if \<not> mem ''data_ptrs'' then (Some ENOMEM, shards)
      else (None, rs_restore_parity simd (ec_private e) k (ec_m e) present recovered len shards))"
      using sh cnt True s0 i0
      unfolding rs_decode_def Let_def k_def n_def idx_def S_def by simp
    have i: "wf_mat i0" "m_rows i0 = k" "m_cols i0 = k" using i0' by simp_all
    show ?thesis
    proof (cases rule: gf_matrix_invert_cases [OF S(1-3) i k(1), where mem = "site ''work'' mem",
          case_names inverse singular nomem])
      case (inverse B)
      show ?thesis
      proof (cases "mem ''decode_tbl'' \<and> mem ''decode_split_tbl'' \<and> mem ''recovered''
          \<and> list_all (\<lambda>i. mem (''recovered.'' @ replicate i (CHR ''i''))) [0..<k]")
        case False
        then have "?dec = (Some ENOMEM, shards)" 
          unfolding dec inverse(1) by (auto simp: split_beta Let_def)
        moreover have "mem \<noteq> all_allocs" using False by (auto simp: list_all_iff)
        ultimately show ?thesis by (rule nomem)
      next
        case True
        obtain tbl stbl where t: "rs_fill_tables k k B
             (replicate (k * k * 256) 0, replicate (k * k * 32) 0) = (tbl, stbl)" by fastforce
        have "tables_ok k k (gf_matrix_get B) (tbl, stbl)"
          unfolding t [symmetric] by (rule rs_fill_tables_ok) simp_all
        then show ?thesis
          by (rule run [of B tbl stbl, rotated 2])
            (use inverse(4,5,7) S(4) True in \<open>unfold dec inverse(1), simp_all add: t\<close>)
      qed
    next
      case singular
      have "ker_trivial k (\<lambda>r. mat ?E (idx ! r))"
        using E I by (auto simp: enc_ok_def k_def n_def)
      then have "ker_trivial k (mat S)"
        by (simp add: S(4) ker_trivial_def mvec_def)
      then show ?thesis using singular by simp
    next
      case nomem
      have "?dec = (Some ENOMEM, shards)" unfolding dec nomem(1) by simp
      then show ?thesis using that(1) nomem(2) by auto
    qed
  qed
qed

lemma all_present:
  assumes "length present = n" "num_present present = n" "i < n"
  shows "present ! i"
proof (rule ccontr)
  assume "\<not> present ! i"
  then have "length (filter id present) < length present"
    using assms nth_mem [of i present] by (intro length_filter_less [of "present ! i"]) simp_all
  then show False using assms by (simp add: num_present_def)
qed

lemma rs_decode_restores:
  assumes e: "rs_ok e" and data: "shards_ok (ec_k e) len data" and par: "shards_ok (ec_m e) len parity"
    and sh: "shards_ok (ec_k e + ec_m e) len sh" "length present = ec_k e + ec_m e"
      "ec_k e \<le> num_present present"
    and surv: "survivors (data @ rs_encode simd e data parity len) present sh"
  shows "rs_decode mem simd e sh present len = (None, data @ rs_encode simd e data parity len)
     \<or> fst (rs_decode mem simd e sh present len) = Some ENOMEM \<and> mem \<noteq> all_allocs"
proof -
  let ?k = "ec_k e" and ?m = "ec_m e" and ?P = "rs_encode simd e data parity len"
  let ?full = "data @ ?P" and ?E = "rsp_encode (ec_private e)"
  have P: "shards_ok ?m len ?P" using rs_encode_spec [OF e data par, of simd] by blast
  have full: "shards_ok (?k + ?m) len ?full" using data P by (rule shards_ok_append)
  have ld: "length data = ?k" using data by (simp add: shards_ok_def)
  have S: "sh ! i = ?full ! i" if "i < ?k + ?m" "present ! i" for i
    using surv that sh(2) by (simp add: survivors_def)
  show ?thesis
  proof (cases "num_present present = ?k + ?m")
    case True
    then have "sh = ?full"
      using S all_present [OF sh(2)] sh(1) full by (intro nth_equalityI) (auto simp: shards_ok_def)
    then show ?thesis
      using True present_count [OF sh(2)] by (simp add: rs_decode_def Let_def)
  next
    case False
    note I = avail_rows_props [OF sh(2,3)]
    let ?idx = "avail_rows ?k (?k + ?m) present"
    show ?thesis
    proof (cases rule: rs_decode_run [OF e sh(2,3) False, where mem = mem and simd = simd
          and shards = sh and len = len, case_names nomem run])
      case nomem
      then show ?thesis by (intro disjI2 conjI) (simp only: fst_conv)
    next
      case (run B tbl stbl)
      have src: "length (sh ! (?idx ! c)) = len \<and> (p < len \<longrightarrow>
          GF (sh ! (?idx ! c) ! p) = code_byte ?E ?k data (?idx ! c) p)" if "c < ?k" for c p
      proof -
        have "?idx ! c \<in> set ?idx" using I(1) that by (intro nth_mem) simp
        then have c: "?idx ! c < ?k + ?m" "present ! (?idx ! c)" using I(3) by blast+
        then show ?thesis
          using stripe_byte [OF e data par c(1)] S [OF c] shards_ok_nth [OF sh(1) c(1)] by simp
      qed
      have rec: "map (\<lambda>r. rs_row simd stbl tbl ?k r (\<lambda>c. sh ! (?idx ! c)) len (replicate len 0)) [0..<?k] = data"
        using recovered_row [OF e data I(1) src run(4,1,2,3)] ld by (intro nth_equalityI) auto
      let ?sh = "map (\<lambda>i. if i < ?k \<and> \<not> present ! i then data ! i else sh ! i) [0..<?k + ?m]"
      have res: "rs_restore_data ?k present data len sh = ?sh"
        using rs_restore_data_spec data sh(1) by simp
      have ok: "shards_ok (?k + ?m) len ?sh"
        by (rule shards_okI) (use data sh(1) in \<open>auto simp: shards_ok_nth\<close>)
      have d: "?sh ! i = data ! i" if "i < ?k" for i using S [of i] that ld by (auto simp: nth_append)
      have p: "?sh ! (?k + i) = ?P ! i" if "i < ?m" "present ! (?k + i)" for i
        using S [of "?k + i"] that ld by (simp add: nth_append)
      have par': "rs_restore_parity simd (ec_private e) ?k ?m present data len ?sh = ?full"
        by (rule rs_restore_parity_spec [OF e data par ok d p])
      have "?sh = ?full" if "list_all (\<lambda>i. present ! i) [?k..<?k + ?m]"
        by (rule append_eqI) (use d p P ld that in \<open>auto simp: shards_ok_def list_all_iff\<close>)
      then show ?thesis unfolding run(5) Let_def rec res par' by auto
    qed
  qed
qed

lemma rs_decode_too_few:
  assumes "length present = ec_k e + ec_m e" "num_present present < ec_k e"
  shows "rs_decode mem simd e sh present len = (Some EIO, sh)"
  using assms present_count [OF assms(1)] by (simp add: rs_decode_def Let_def)

text \<open>A present shard is never written, whatever the outcome.\<close>

lemma rs_restore_keeps:
  assumes "present ! i"
  shows "rs_restore_data k present recovered len sh ! i = sh ! i"
    and "rs_restore_parity simd rsp k m present recovered len sh ! i = sh ! i"
proof -
  have "for_upto n (\<lambda>i s. if \<not> present ! i then s[i := f i s] else s) sh ! i = sh ! i" for n f
  proof (induction n)
    case (Suc n)
    then show ?case using assms by (cases "n = i") auto
  qed simp
  then show "rs_restore_data k present recovered len sh ! i = sh ! i"
    unfolding rs_restore_data_def .
  have "for_upto n (\<lambda>i s. if present ! (k + i) then s else s[k + i := f i s]) sh ! i = sh ! i" for n f
  proof (induction n)
    case (Suc n)
    then show ?case using assms by (cases "k + n = i") auto
  qed simp
  then show "rs_restore_parity simd rsp k m present recovered len sh ! i = sh ! i"
    unfolding rs_restore_parity_def .
qed

lemma rs_decode_keeps:
  assumes "present ! i"
  shows "snd (rs_decode mem simd e sh present len) ! i = sh ! i"
  using rs_restore_keeps [OF assms]
  by (auto simp: rs_decode_def Let_def split_beta split: option.splits)

section \<open>The erasure-coding contract\<close>

interpretation rs: erasure_code "ec_rs_create all_allocs" "rs_encode simd" "rs_decode all_allocs simd"
  for simd
proof
  fix k m e len data parity sh present
  assume c: "ec_rs_create all_allocs k m = Some e"
  note C = ec_rs_create_ok [OF c]
  show "shards_ok (nat m) len (rs_encode simd e data parity len)"
    if "shards_ok (nat k) len data" "shards_ok (nat m) len parity"
    using rs_encode_spec [OF C(1), of len data parity simd] that C by simp
  show "rs_decode all_allocs simd e sh present len = (None, data @ rs_encode simd e data parity len)"
    if "shards_ok (nat k) len data" "shards_ok (nat m) len parity"
      "shards_ok (nat k + nat m) len sh" "length present = nat k + nat m"
      "nat k \<le> num_present present" "survivors (data @ rs_encode simd e data parity len) present sh"
    using rs_decode_restores [OF C(1), of len data parity sh present simd all_allocs] that C by auto
  show "rs_decode all_allocs simd e sh present len = (Some EIO, sh)"
    if "length present = nat k + nat m" "num_present present < nat k"
    using rs_decode_too_few [of present e all_allocs simd sh len] that C by simp
qed

section \<open>Properties\<close>

text \<open>
  C1. For every geometry \<open>1 \<le> k\<close>, \<open>1 \<le> m\<close>, \<open>k + m \<le> 255\<close>, \<^verbatim>\<open>ec_rs_create\<close>
  returns an encoding; and if a stripe encoded by it loses any shards but at least \<open>k\<close> of the
  \<open>k + m\<close> survive, \<^verbatim>\<open>rs_decode\<close> returns 0 with the data and the parity restored byte
  for byte, on builds with and without vector instructions and whatever the lost buffers hold.
\<close>

theorem rs_roundtrip:
  assumes "1 \<le> k" "1 \<le> m" "k + m \<le> 255"
    and "shards_ok (nat k) len data" "shards_ok (nat m) len parity"
    and "shards_ok (nat k + nat m) len junk"
    and "length present = nat k + nat m" "nat k \<le> num_present present"
  shows "\<exists>e. ec_rs_create all_allocs k m = Some e \<and>
    (let full = data @ rs_encode simd e data parity len
     in rs_decode all_allocs simd e (lose present junk full) present len = (None, full))"
proof -
  obtain e where c: "ec_rs_create all_allocs k m = Some e" using ec_rs_create_total assms by blast
  let ?full = "data @ rs_encode simd e data parity len"
  have "shards_ok (nat k + nat m) len ?full"
    using assms rs.encode_shape [OF c] by (intro shards_ok_append) auto
  then have "shards_ok (nat k + nat m) len (lose present junk ?full)"
    using assms by (intro shards_ok_lose)
  moreover have "survivors ?full present (lose present junk ?full)"
    by (simp add: survivors_def lose_def)
  ultimately show ?thesis using rs.decode_enough [OF c] assms c by (auto simp: Let_def)
qed

theorem rs_roundtrip_witness:
  "\<exists>e. ec_rs_create all_allocs 2 3 = Some e \<and>
    (let full = [[1, 2, 3], [250, 7, 9]] @ rs_encode True e [[1, 2, 3], [250, 7, 9]] [[0, 0, 0], [0, 0, 0], [0, 0, 0]] 3
     in rs_decode all_allocs True e (lose [False, True, False, True, False] (replicate 5 [9, 9, 9]) full)
          [False, True, False, True, False] 3 = (None, full))"
  by (rule rs_roundtrip) (simp_all add: shards_ok_def num_present_def)

text \<open>
  C17. On an encoding that \<^verbatim>\<open>ec_rs_create\<close> returns, decoding a stripe with at least \<open>k\<close>
  valid shards has only two outcomes whatever allocations fail: 0 with the complete stripe, or
  -ENOMEM, and -ENOMEM only if an allocation failed; the inversion of the selected rows never
  reports a singular matrix.
\<close>

theorem rs_decode_outcomes:
  assumes "1 \<le> k" "1 \<le> m" "k + m \<le> 255"
    and "shards_ok (nat k) len data" "shards_ok (nat m) len parity"
    and "shards_ok (nat k + nat m) len junk"
    and "length present = nat k + nat m" "nat k \<le> num_present present"
  shows "\<exists>e. ec_rs_create all_allocs k m = Some e \<and>
    (let full = data @ rs_encode simd e data parity len;
         r = rs_decode mem simd e (lose present junk full) present len
     in r = (None, full) \<or> fst r = Some ENOMEM \<and> mem \<noteq> all_allocs)"
proof -
  obtain e where c: "ec_rs_create all_allocs k m = Some e" using ec_rs_create_total assms by blast
  note C = ec_rs_create_ok [OF c]
  let ?full = "data @ rs_encode simd e data parity len"
  have "shards_ok (nat k + nat m) len ?full"
    using assms rs.encode_shape [OF c] by (intro shards_ok_append) auto
  then have "shards_ok (nat k + nat m) len (lose present junk ?full)"
    using assms by (intro shards_ok_lose)
  moreover have "survivors ?full present (lose present junk ?full)"
    by (simp add: survivors_def lose_def)
  ultimately show ?thesis
    using rs_decode_restores [OF C(1), of len data parity "lose present junk ?full" present simd mem] assms C c
    by (auto simp: Let_def)
qed

theorem rs_decode_outcomes_witness:
  "\<exists>e. ec_rs_create all_allocs 1 1 = Some e \<and>
    (let full = [[17]] @ rs_encode False e [[17]] [[0]] 1;
         r = rs_decode (\<lambda>s. s \<noteq> ''data_ptrs'') False e (lose [True, False] [[0], [0]] full) [True, False] 1
     in r = (None, full) \<or> fst r = Some ENOMEM \<and> (\<lambda>s. s \<noteq> ''data_ptrs'') \<noteq> all_allocs)"
  by (rule rs_decode_outcomes) (simp_all add: shards_ok_def num_present_def)

text \<open>
  C28. \<^verbatim>\<open>rs_decode\<close> never writes to a shard that is present: on every outcome, errors
  included, and for every encoding and every pattern of allocation failures, the present shards
  are as they were.
\<close>

theorem rs_decode_preserves_present:
  assumes "present ! i"
  shows "snd (rs_decode mem simd e sh present len) ! i = sh ! i"
  using assms by (rule rs_decode_keeps)

theorem rs_decode_preserves_present_witness:
  "snd (rs_decode (\<lambda>s. s \<noteq> ''data_ptrs'') True
     \<lparr>ec_name = ''reed-solomon'', ec_k = 1, ec_m = 1, ec_private =
        \<lparr>rsp_encode = \<lparr>m_rows = 2, m_cols = 1, m_data = [1, 1]\<rparr>, rsp_parity = \<lparr>m_rows = 1, m_cols = 1, m_data = [1]\<rparr>,
         parity_tbl = replicate 256 0, parity_split_tbl = replicate 32 0\<rparr>\<rparr>
     [[3, 4], [5, 6]] [True, False] 2) ! 0 = [[3, 4], [5, 6]] ! 0"
  by (rule rs_decode_preserves_present) simp



end
