(* ===== verification/SimpleEC.thy ===== *)
theory SimpleEC
  imports EC_Interface
begin

text \<open>
  The encodings without field arithmetic: XOR single parity (\<^verbatim>\<open>src/lib/ec/xor.c\<close>),
  plain striping (\<^verbatim>\<open>stripe.c\<close>) and mirroring (\<^verbatim>\<open>mirror.c\<close>). XOR and striping
  interpret the erasure-coding contract. Mirroring has its own: it replicates the first buffer and
  compares buffer addresses, so its model works on a store of buffers and may be handed aliased or
  missing pointers.
\<close>

section \<open>XOR parity\<close>

definition xor_into :: "shard \<Rightarrow> nat \<Rightarrow> shard \<Rightarrow> shard" where
  "xor_into src shard_len dst = for_upto shard_len (\<lambda>p dst. dst[p := dst ! p XOR src ! p]) dst"

definition xor_encode :: "unit ec_encoding \<Rightarrow> shard list \<Rightarrow> shard list \<Rightarrow> nat \<Rightarrow> shard list" where
  "xor_encode encoding data parity shard_len =
     (if shard_len = 0 then parity
      else let parity = parity[0 := take shard_len (data ! 0) @ drop shard_len (parity ! 0)]
           in fold (\<lambda>i parity. parity[0 := xor_into (data ! i) shard_len (parity ! 0)])
                [1..<ec_k encoding] parity)"

definition xor_decode ::
  "unit ec_encoding \<Rightarrow> shard list \<Rightarrow> bool list \<Rightarrow> nat \<Rightarrow> errno option \<times> shard list" where
  "xor_decode encoding shards present shard_len =
     (let n = ec_k encoding + 1;
          missing = filter (\<lambda>i. \<not> present ! i) [0..<n]
      in if length missing = 0 then (None, shards)
         else if length missing > 1 then (Some EIO, shards)
         else if shard_len = 0 then (None, shards)
         else let ms = last missing;
                  shards = shards[ms := replicate shard_len 0 @ drop shard_len (shards ! ms)]
              in (None, for_upto n (\<lambda>i shards. if i = ms then shards
                    else shards[ms := xor_into (shards ! i) shard_len (shards ! ms)]) shards))"

definition ec_xor_create :: "allocs \<Rightarrow> int \<Rightarrow> unit ec_encoding option" where
  "ec_xor_create mem k =
     (if k < 1 \<or> k > 254 then None
      else if \<not> mem ''encoding'' then None
      else Some \<lparr>ec_name = ''xor-parity'', ec_k = nat k, ec_m = 1, ec_private = ()\<rparr>)"

section \<open>Striping\<close>

definition stripe_encode :: "unit ec_encoding \<Rightarrow> shard list \<Rightarrow> shard list \<Rightarrow> nat \<Rightarrow> shard list" where
  "stripe_encode encoding data parity shard_len = parity"

definition stripe_decode ::
  "unit ec_encoding \<Rightarrow> shard list \<Rightarrow> bool list \<Rightarrow> nat \<Rightarrow> errno option \<times> shard list" where
  "stripe_decode encoding shards present shard_len =
     (if list_all (\<lambda>i. present ! i) [0..<ec_k encoding] then (None, shards) else (Some EIO, shards))"

definition ec_stripe_create :: "allocs \<Rightarrow> int \<Rightarrow> unit ec_encoding option" where
  "ec_stripe_create mem k =
     (if k < 1 \<or> k > 255 then None
      else if \<not> mem ''encoding'' then None
      else Some \<lparr>ec_name = ''stripe'', ec_k = nat k, ec_m = 0, ec_private = ()\<rparr>)"

section \<open>Mirroring\<close>

text \<open>
  Buffers live at addresses; distinct addresses are disjoint buffers. A pointer array may itself
  be missing, and so may its entries.
\<close>

type_synonym addr = nat
type_synonym store = "addr \<Rightarrow> shard"

definition copy_buf :: "nat \<Rightarrow> addr \<Rightarrow> addr \<Rightarrow> store \<Rightarrow> store" where
  "copy_buf len dst src H = H(dst := take len (H src) @ drop len (H dst))"

fun mirror_copy :: "nat \<Rightarrow> addr \<Rightarrow> addr option list \<Rightarrow> store \<Rightarrow> errno option \<times> store" where
  "mirror_copy len src [] H = (None, H)"
| "mirror_copy len src (None # ps) H = (Some EINVAL, H)"
| "mirror_copy len src (Some a # ps) H =
     mirror_copy len src ps (if a = src then H else copy_buf len a src H)"

definition mirror_encode ::
  "unit ec_encoding \<Rightarrow> addr option list option \<Rightarrow> nat \<Rightarrow> store \<Rightarrow> errno option \<times> store" where
  "mirror_encode encoding data shard_len H =
     (case data of
        None \<Rightarrow> (Some EINVAL, H)
      | Some d \<Rightarrow> (case d ! 0 of
          None \<Rightarrow> (Some EINVAL, H)
        | Some a0 \<Rightarrow> mirror_copy shard_len a0 (map ((!) d) [1..<ec_k encoding]) H))"

definition mirror_decode ::
  "unit ec_encoding \<Rightarrow> addr option list option \<Rightarrow> bool list \<Rightarrow> nat \<Rightarrow> store \<Rightarrow> errno option \<times> store" where
  "mirror_decode encoding shards present shard_len H =
     (case find (\<lambda>i. present ! i) [0..<ec_k encoding] of
        None \<Rightarrow> (Some EIO, H)
      | Some src \<Rightarrow> (case shards of
          None \<Rightarrow> (Some EINVAL, H)
        | Some s \<Rightarrow> (case s ! src of
            None \<Rightarrow> (Some EINVAL, H)
          | Some a \<Rightarrow> mirror_copy shard_len a
              (map ((!) s) (filter (\<lambda>i. \<not> present ! i) [0..<ec_k encoding])) H)))"

definition ec_mirror_create :: "allocs \<Rightarrow> int \<Rightarrow> unit ec_encoding option" where
  "ec_mirror_create mem k =
     (if k < 1 \<or> k > 255 then None
      else if \<not> mem ''encoding'' then None
      else Some \<lparr>ec_name = ''mirror'', ec_k = nat k, ec_m = 0, ec_private = ()\<rparr>)"

section \<open>XOR parity meets the contract\<close>

definition xorl :: "(nat \<Rightarrow> u8) \<Rightarrow> nat list \<Rightarrow> u8" where
  "xorl f is = foldr (\<lambda>i acc. f i XOR acc) is 0"

lemma xorl_simps [simp]:
  "xorl f [] = 0" "xorl f (i # is) = f i XOR xorl f is"
  "xorl f (is @ js) = xorl f is XOR xorl f js"
  by (simp_all add: xorl_def) (induction "is"; simp add: xor.assoc)

lemma xorl_cong: "(\<And>i. i \<in> set is \<Longrightarrow> f i = g i) \<Longrightarrow> xorl f is = xorl g is"
  by (induction "is") auto

text \<open>When all of a list sums to zero, the sum without one element is that element.\<close>

lemma xorl_remove:
  assumes "distinct is" "j \<in> set is" "xorl f is = 0"
  shows "xorl f (filter (\<lambda>i. i \<noteq> j) is) = f j"
proof -
  have "xorl f is = f j XOR xorl f (filter (\<lambda>i. i \<noteq> j) is)"
    using assms(1,2)
  proof (induction "is")
    case (Cons i "is")
    show ?case
    proof (cases "i = j")
      case True
      then have "filter (\<lambda>i. i \<noteq> j) is = is" using Cons by (auto simp: filter_id_conv)
      then show ?thesis using True by simp
    next
      case False
      then show ?thesis using Cons by (simp add: xor.left_commute)
    qed
  qed simp
  then have "f j XOR (f j XOR xorl f (filter (\<lambda>i. i \<noteq> j) is)) = f j" using assms(3) by simp
  then show ?thesis by (simp add: xor.assoc [symmetric])
qed

lemma xor_into_spec:
  assumes "length dst = len"
  shows "length (xor_into src len dst) = len"
    and "\<And>p. p < len \<Longrightarrow> xor_into src len dst ! p = dst ! p XOR src ! p"
proof -
  let ?I = "\<lambda>n d. length d = len \<and> (\<forall>p<len. d ! p = (if p < n then dst ! p XOR src ! p else dst ! p))"
  have "?I len (xor_into src len dst)"
    unfolding xor_into_def
    by (rule for_upto_invariant [where I = ?I]) (use assms in \<open>auto simp: nth_list_update less_Suc_eq\<close>)
  then show "length (xor_into src len dst) = len"
    "\<And>p. p < len \<Longrightarrow> xor_into src len dst ! p = dst ! p XOR src ! p" by auto
qed

lemma fold_parity:
  "fold (\<lambda>i P. P[0 := xor_into (data ! i) len (P ! 0)]) js [x] = [fold (\<lambda>i. xor_into (data ! i) len) js x]"
  by (induction js arbitrary: x) auto

lemma fold_xor_into:
  assumes "length x = len"
  shows "length (fold (\<lambda>i. xor_into (data ! i) len) js x) = len \<and>
    (\<forall>q < len. fold (\<lambda>i. xor_into (data ! i) len) js x ! q = x ! q XOR xorl (\<lambda>i. data ! i ! q) js)"
  using assms
proof (induction js arbitrary: x)
  case (Cons j js)
  from Cons.IH [OF xor_into_spec(1) [OF Cons.prems, of "data ! j"]] show ?case
    using xor_into_spec(2) [OF Cons.prems, of _ "data ! j"] by (simp add: xor.assoc)
qed simp

lemma xor_encode_spec:
  assumes k: "0 < ec_k e" and d: "shards_ok (ec_k e) len data" and p: "shards_ok 1 len parity"
  shows "shards_ok 1 len (xor_encode e data parity len) \<and>
    (\<forall>q < len. xor_encode e data parity len ! 0 ! q = xorl (\<lambda>i. data ! i ! q) [0..<ec_k e])"
proof (cases "len = 0")
  case True
  then show ?thesis using p by (simp add: xor_encode_def)
next
  case False
  obtain p0 where p0: "parity = [p0]" "length p0 = len"
    using p by (auto simp: shards_ok_def length_Suc_conv)
  have d0: "length (data ! 0) = len" using d k by (simp add: shards_ok_nth)
  have "[0..<ec_k e] = 0 # [1..<ec_k e]" using k by (simp add: upt_conv_Cons)
  then show ?thesis
    using fold_xor_into [OF d0, of data "[1..<ec_k e]"] False p0 d0
    by (simp add: xor_encode_def fold_parity shards_ok_def)
qed

text \<open>All shards of an encoded stripe sum to zero.\<close>

lemma xor_stripe_zero:
  assumes k: "0 < ec_k e" and d: "shards_ok (ec_k e) len data" and p: "shards_ok 1 len parity" and q: "q < len"
  shows "xorl (\<lambda>i. (data @ xor_encode e data parity len) ! i ! q) [0..<ec_k e + 1] = 0"
proof -
  have ld: "length data = ec_k e" using d by (simp add: shards_ok_def)
  have "xorl (\<lambda>i. (data @ xor_encode e data parity len) ! i ! q) [0..<ec_k e]
      = xorl (\<lambda>i. data ! i ! q) [0..<ec_k e]"
    by (rule xorl_cong) (simp add: nth_append ld)
  then show ?thesis using xor_encode_spec [OF k d p] q by (simp add: nth_append ld)
qed

lemma xor_decode_loop:
  assumes ok: "shards_ok n len sh" and ms: "ms < n"
  defines "sh0 \<equiv> sh[ms := replicate len 0 @ drop len (sh ! ms)]"
  shows "\<exists>b. for_upto n (\<lambda>i s. if i = ms then s else s[ms := xor_into (s ! i) len (s ! ms)]) sh0 = sh[ms := b]
    \<and> length b = len \<and> (\<forall>q < len. b ! q = xorl (\<lambda>i. sh ! i ! q) (filter (\<lambda>i. i \<noteq> ms) [0..<n]))"
proof -
  have lsh: "length sh = n" "length (sh ! ms) = len" using ok ms by (auto simp: shards_ok_nth shards_ok_def)
  let ?I = "\<lambda>j s. \<exists>b. s = sh[ms := b] \<and> length b = len \<and>
    (\<forall>q < len. b ! q = xorl (\<lambda>i. sh ! i ! q) (filter (\<lambda>i. i \<noteq> ms) [0..<j]))"
  show ?thesis
  proof (rule for_upto_invariant [where I = ?I])
    show "?I 0 sh0" using lsh by (intro exI [of _ "replicate len 0"]) (simp add: sh0_def)
    fix j s assume j: "j < n" and "?I j s"
    then obtain b where b: "s = sh[ms := b]" "length b = len"
      "\<forall>q < len. b ! q = xorl (\<lambda>i. sh ! i ! q) (filter (\<lambda>i. i \<noteq> ms) [0..<j])" by blast
    show "?I (Suc j) (if j = ms then s else s[ms := xor_into (s ! j) len (s ! ms)])"
    proof (cases "j = ms")
      case True
      then show ?thesis using b by auto
    next
      case False
      then have e: "s ! j = sh ! j" "s ! ms = b" using b(1) lsh ms by simp_all
      have "xor_into (sh ! j) len b ! q = xorl (\<lambda>i. sh ! i ! q) (filter (\<lambda>i. i \<noteq> ms) [0..<Suc j])"
        if "q < len" for q
        using xor_into_spec(2) [OF b(2) that] b(3) that False by simp
      then show ?thesis
        using False b(1) xor_into_spec(1) [OF b(2), of "sh ! j"]
        by (intro exI [of _ "xor_into (sh ! j) len b"]) (simp add: lsh ms)
    qed
  qed
qed

lemma missing_count:
  assumes "length present = n"
  shows "length (filter (\<lambda>i. \<not> present ! i) [0..<n]) = n - num_present present"
  using sum_length_filter_compl [of "\<lambda>i. present ! i" "[0..<n]"] present_count [OF assms] by simp

lemma xor_decode_restores:
  assumes k: "0 < ec_k e" and d: "shards_ok (ec_k e) len data" and p: "shards_ok 1 len parity"
    and sh: "shards_ok (ec_k e + 1) len sh" "length present = ec_k e + 1" "ec_k e \<le> num_present present"
    and surv: "survivors (data @ xor_encode e data parity len) present sh"
  shows "xor_decode e sh present len = (None, data @ xor_encode e data parity len)"
proof -
  let ?full = "data @ xor_encode e data parity len"
  define n where "n = ec_k e + 1"
  define miss where "miss = filter (\<lambda>i. \<not> present ! i) [0..<n]"
  note sh = sh [folded n_def]
  have full: "shards_ok n len ?full" unfolding n_def using d xor_encode_spec [OF k d p] by (intro shards_ok_append) auto
  have S: "sh ! i = ?full ! i" if "i < n" "present ! i" for i using surv that sh(2) by (simp add: survivors_def)
  have dec: "xor_decode e sh present len =
     (if length miss = 0 then (None, sh) else if length miss > 1 then (Some EIO, sh)
      else if len = 0 then (None, sh)
      else (None, for_upto n (\<lambda>i s. if i = last miss then s
              else s[last miss := xor_into (s ! i) len (s ! last miss)])
              (sh[last miss := replicate len 0 @ drop len (sh ! last miss)])))"
    unfolding xor_decode_def Let_def miss_def n_def ..
  have "length miss \<le> 1" using missing_count [OF sh(2)] sh(3) unfolding miss_def n_def by simp
  then consider "miss = []" | ms where "miss = [ms]"
    by (cases miss) auto
  then show ?thesis
  proof cases
    case 1
    then have "present ! i" if "i < n" for i using that by (auto simp: miss_def filter_empty_conv)
    then have "sh = ?full" using S sh(1) full by (intro nth_equalityI) (auto simp: shards_ok_def)
    then show ?thesis unfolding dec using 1 by simp
  next
    case (2 ms)
    have lm: "last miss = ms" and "set miss = {ms}" using 2 by simp_all
    then have M: "i < n \<and> \<not> present ! i \<longleftrightarrow> i = ms" for i unfolding miss_def by auto
    have ms: "ms < n" using M [of ms] by blast
    have same: "sh ! i = ?full ! i" if "i < n" "i \<noteq> ms" for i using S M that by blast
    obtain b where b: "for_upto n (\<lambda>i s. if i = ms then s else s[ms := xor_into (s ! i) len (s ! ms)])
          (sh[ms := replicate len 0 @ drop len (sh ! ms)]) = sh[ms := b]" "length b = len"
        "\<forall>q < len. b ! q = xorl (\<lambda>i. sh ! i ! q) (filter (\<lambda>i. i \<noteq> ms) [0..<n])"
      using xor_decode_loop [OF sh(1) ms] by blast
    have "b ! q = ?full ! ms ! q" if q: "q < len" for q
    proof -
      have "b ! q = xorl (\<lambda>i. ?full ! i ! q) (filter (\<lambda>i. i \<noteq> ms) [0..<n])"
        unfolding b(3) [rule_format, OF q] by (rule xorl_cong) (simp add: same)
      also have "\<dots> = ?full ! ms ! q"
        by (rule xorl_remove) (use ms xor_stripe_zero [OF k d p q] in \<open>simp_all add: n_def del: upt_Suc\<close>)
      finally show ?thesis .
    qed
    then have bms: "b = ?full ! ms" using b(2) full ms by (intro nth_equalityI) (auto simp: shards_ok_nth)
    have "sh[ms := b] = ?full"
    proof (rule nth_equalityI)
      show "length (sh[ms := b]) = length ?full" using sh(1) full by (simp add: shards_ok_def)
      fix i assume "i < length (sh[ms := b])"
      then have "i < n" using sh(1) by (simp add: shards_ok_def)
      then show "sh[ms := b] ! i = ?full ! i"
        using same [of i] bms sh(1) by (cases "i = ms") (simp_all add: shards_ok_def)
    qed
    then show ?thesis
    proof (cases "len = 0")
      case True
      have "sh ! ms = ?full ! ms" 
        using True shards_ok_nth [OF sh(1) ms] shards_ok_nth [OF full ms] by simp
      then have "sh[ms := b] = sh" using bms by (metis list_update_id)
      then show ?thesis unfolding dec using \<open>sh[ms := b] = ?full\<close> True 2 by simp
    next
      case False
      then show ?thesis unfolding dec lm b(1) using \<open>sh[ms := b] = ?full\<close> 2 by simp
    qed
  qed
qed

lemma ec_xor_create_Some:
  assumes "ec_xor_create mem k = Some e"
  shows "ec_k e = nat k" "ec_m e = 1" "0 < k" "k \<le> 254"
  using assms by (auto simp: ec_xor_create_def split: if_splits)

lemma xor_decode_too_few:
  assumes "length present = ec_k e + 1" "num_present present < ec_k e"
  shows "xor_decode e sh present len = (Some EIO, sh)"
proof -
  have "1 < length (filter (\<lambda>i. \<not> present ! i) [0..<ec_k e + 1])"
    unfolding missing_count [OF assms(1)] using assms(2) by linarith
  then show ?thesis unfolding xor_decode_def Let_def by (simp del: upt_Suc length_0_conv)
qed

text \<open>The parity count is not an argument of \<^verbatim>\<open>ec_xor_create\<close>: it is always one.\<close>

interpretation xr: erasure_code "\<lambda>k m. if m = 1 then ec_xor_create all_allocs k else None"
  xor_encode xor_decode
proof
  fix k m :: int and e len data parity sh present
  assume "(if m = 1 then ec_xor_create all_allocs k else None) = Some e"
  then have m: "m = 1" and c: "ec_xor_create all_allocs k = Some e" by (auto split: if_splits)
  note C = ec_xor_create_Some [OF c]
  show "shards_ok (nat m) len (xor_encode e data parity len)"
    if "shards_ok (nat k) len data" "shards_ok (nat m) len parity"
    using xor_encode_spec [of e len data parity] that C m by simp
  show "xor_decode e sh present len = (None, data @ xor_encode e data parity len)"
    if "shards_ok (nat k) len data" "shards_ok (nat m) len parity"
      "shards_ok (nat k + nat m) len sh" "length present = nat k + nat m"
      "nat k \<le> num_present present" "survivors (data @ xor_encode e data parity len) present sh"
    using xor_decode_restores [of e len data parity sh present] that C m by simp
  show "xor_decode e sh present len = (Some EIO, sh)"
    if "length present = nat k + nat m" "num_present present < nat k"
    using xor_decode_too_few [of present e] that C m by simp
qed

section \<open>Striping meets the contract\<close>

lemma num_present_all: "num_present present = length present \<longleftrightarrow> (\<forall>i < length present. present ! i)"
proof -
  have "num_present present = length present \<longleftrightarrow> list_all id present"
    unfolding num_present_def
  proof (induction present)
    case (Cons a xs)
    have "length (filter id xs) \<noteq> Suc (length xs)" using length_filter_le [of id xs] by linarith
    then show ?case using Cons by (cases a) (auto simp: id_def)
  qed simp
  then show ?thesis by (simp add: list_all_length)
qed

interpretation st: erasure_code "\<lambda>k m. if m = 0 then ec_stripe_create all_allocs k else None"
  stripe_encode stripe_decode
proof
  fix k m :: int and e len data parity sh present
  assume "(if m = 0 then ec_stripe_create all_allocs k else None) = Some e"
  then have m: "m = 0" and ke: "ec_k e = nat k"
    by (auto simp: ec_stripe_create_def split: if_splits)
  show "shards_ok (nat m) len (stripe_encode e data parity len)"
    if "shards_ok (nat m) len parity" using that by (simp add: stripe_encode_def)
  show "stripe_decode e sh present len = (Some EIO, sh)"
    if "length present = nat k + nat m" "num_present present < nat k"
    using that m ke num_present_all [of present] by (auto simp: stripe_decode_def list_all_iff)
  show "stripe_decode e sh present len = (None, data @ stripe_encode e data parity len)"
    if "shards_ok (nat k) len data" "shards_ok (nat m) len parity"
      "shards_ok (nat k + nat m) len sh" "length present = nat k + nat m"
      "nat k \<le> num_present present" and surv: "survivors (data @ stripe_encode e data parity len) present sh"
  proof -
    have "num_present present \<le> length present" by (simp add: num_present_def)
    then have "num_present present = length present" using that(4,5) m by simp
    then have all: "\<forall>i < length present. present ! i" unfolding num_present_all .
    have par: "parity = []" using that(2) m by (simp add: shards_ok_def)
    have "sh = data"
    proof (rule nth_equalityI)
      show "length sh = length data" using that m by (simp add: shards_ok_def)
      fix i assume "i < length sh"
      then have "i < length present" "i < length data" using that m by (simp_all add: shards_ok_def)
      then show "sh ! i = data ! i" using surv all par by (simp add: survivors_def stripe_encode_def)
    qed
    then show ?thesis using all that(4) m ke par by (auto simp: stripe_decode_def stripe_encode_def list_all_iff)
  qed
qed

section \<open>Mirroring\<close>

lemma mirror_copy_spec:
  assumes "None \<notin> set ps" "len \<le> length (H src)"
  shows "\<exists>H'. mirror_copy len src ps H = (None, H') \<and> H' src = H src
    \<and> (\<forall>a. Some a \<in> set ps \<longrightarrow> take len (H' a) = take len (H src))
    \<and> (\<forall>a. Some a \<notin> set ps \<longrightarrow> H' a = H a)
    \<and> (\<forall>a. take len (H a) = take len (H src) \<longrightarrow> take len (H' a) = take len (H src))"
  using assms
proof (induction len src ps H rule: mirror_copy.induct)
  case (3 len src a ps H)
  let ?H = "if a = src then H else copy_buf len a src H"
  have src: "?H src = H src" by (simp add: copy_buf_def)
  have "None \<notin> set ps" "len \<le> length (?H src)" using "3.prems" src by auto
  from "3.IH" [OF this] obtain H' where H': "mirror_copy len src ps ?H = (None, H')" "H' src = ?H src"
    "\<forall>a. Some a \<in> set ps \<longrightarrow> take len (H' a) = take len (?H src)"
    "\<forall>a. Some a \<notin> set ps \<longrightarrow> H' a = ?H a"
    "\<forall>a. take len (?H a) = take len (?H src) \<longrightarrow> take len (H' a) = take len (?H src)"
    by blast
  have a: "take len (?H a) = take len (H src)" using "3.prems"(2) by (simp add: copy_buf_def)
  have other: "?H b = H b" if "b \<noteq> a" for b using that by (simp add: copy_buf_def)
  have "take len (H' a) = take len (H src)" using H'(5) a src by simp
  moreover have "take len (H' b) = take len (H src)" if "take len (H b) = take len (H src)" for b
    using H'(5) a src other [of b] that by (cases "b = a") auto
  moreover have "H' b = H b" if "Some b \<notin> set (Some a # ps)" for b
    using H'(4) other [of b] that by auto
  ultimately show ?case using H'(1,2,3) src by auto
qed auto

lemma map_nth_no_None: "None \<notin> set xs \<Longrightarrow> (\<And>i. i \<in> set is \<Longrightarrow> i < length xs) \<Longrightarrow> None \<notin> set (map ((!) xs) is)"
  by (auto simp: image_iff) (metis nth_mem)

lemma ptr_Some:
  assumes "i < length ps" "None \<notin> set ps"
  obtains a where "ps ! i = Some a" "Some a \<in> set ps"
proof (cases "ps ! i")
  case None
  then show ?thesis using nth_mem [OF assms(1)] assms(2) by simp
next
  case (Some a)
  then show ?thesis using nth_mem [OF assms(1)] that by simp
qed

lemma mirror_encode_spec:
  assumes ps: "length ps = ec_k e" "0 < ec_k e" "None \<notin> set ps"
    and len: "\<And>a. Some a \<in> set ps \<Longrightarrow> len \<le> length (H a)"
  shows "\<exists>H'. mirror_encode e (Some ps) len H = (None, H') \<and> H' (the (ps ! 0)) = H (the (ps ! 0))
     \<and> (\<forall>i < ec_k e. take len (H' (the (ps ! i))) = take len (H (the (ps ! 0))))"
proof -
  obtain a0 where a0: "ps ! 0 = Some a0" "len \<le> length (H a0)"
    using ptr_Some [of 0 ps] ps len by metis
  have "None \<notin> set (map ((!) ps) [1..<ec_k e])" by (rule map_nth_no_None) (use ps in auto)
  from mirror_copy_spec [where H = H and src = a0, OF this a0(2)] obtain H' where
    H': "mirror_copy len a0 (map ((!) ps) [1..<ec_k e]) H = (None, H')" "H' a0 = H a0"
      "\<forall>a. Some a \<in> set (map ((!) ps) [1..<ec_k e]) \<longrightarrow> take len (H' a) = take len (H a0)" by blast
  have "take len (H' (the (ps ! i))) = take len (H a0)" if i: "i < ec_k e" for i
  proof (cases "i = 0")
    case False
    have "ps ! i = Some (the (ps ! i))" using ptr_Some [of i ps] ps i by (metis option.sel)
    moreover have "ps ! i \<in> set (map ((!) ps) [1..<ec_k e])" using False i by auto
    ultimately show ?thesis using H'(3) by metis
  qed (simp add: a0 H'(2))
  then show ?thesis using H'(1,2) a0 by (auto simp: mirror_encode_def)
qed

lemma mirror_decode_spec:
  assumes ps: "length ps = ec_k e" "None \<notin> set ps" "length present = ec_k e"
    and some: "i0 < ec_k e" "present ! i0"
    and len: "\<And>a. Some a \<in> set ps \<Longrightarrow> len \<le> length (H a)"
    and agree: "\<And>i. i < ec_k e \<Longrightarrow> present ! i \<Longrightarrow> take len (H (the (ps ! i))) = v"
  shows "\<exists>H'. mirror_decode e (Some ps) present len H = (None, H') \<and>
     (\<forall>i < ec_k e. take len (H' (the (ps ! i))) = v)"
proof -
  have "find (\<lambda>i. present ! i) [0..<ec_k e] \<noteq> None" using some by (auto simp: find_None_iff)
  then obtain s where s: "find (\<lambda>i. present ! i) [0..<ec_k e] = Some s" by auto
  then have sp: "s < ec_k e" "present ! s" by (auto simp: find_Some_iff)
  have ptr: "ps ! i = Some (the (ps ! i))" if "i < ec_k e" for i
    using ptr_Some [of i ps] ps that by (metis option.sel)
  let ?a = "the (ps ! s)" and ?ms = "filter (\<lambda>i. \<not> present ! i) [0..<ec_k e]"
  have la: "len \<le> length (H ?a)" 
    using len ptr_Some [of s ps] sp(1) ps by (metis option.sel)
  have v: "take len (H ?a) = v" using agree sp by simp
  have "None \<notin> set (map ((!) ps) ?ms)" by (rule map_nth_no_None) (use ps in auto)
  from mirror_copy_spec [where H = H and src = ?a, OF this la] obtain H' where
    H': "mirror_copy len ?a (map ((!) ps) ?ms) H = (None, H')"
      "\<forall>a. Some a \<in> set (map ((!) ps) ?ms) \<longrightarrow> take len (H' a) = take len (H ?a)"
      "\<forall>a. take len (H a) = take len (H ?a) \<longrightarrow> take len (H' a) = take len (H ?a)" by blast
  have "take len (H' (the (ps ! i))) = v" if i: "i < ec_k e" for i
  proof (cases "present ! i")
    case True
    then show ?thesis using H'(3) agree [OF i] v by simp
  next
    case False
    then have "ps ! i \<in> set (map ((!) ps) ?ms)" using i by simp
    then show ?thesis using H'(2) ptr [OF i] v by metis
  qed
  then show ?thesis using H'(1) s ptr [OF sp(1)] by (auto simp: mirror_decode_def split: option.splits)
qed

section \<open>Properties\<close>

text \<open>
  C38. XOR parity recovers from the loss of any one shard: for \<open>1 \<le> k \<le> 254\<close> the encoding is
  created, and after any loss of at most one of the \<open>k + 1\<close> shards \<^verbatim>\<open>xor_decode\<close>
  returns 0 with the stripe restored; with two or more shards missing it returns -EIO and changes
  nothing.
\<close>

theorem xor_roundtrip:
  assumes "1 \<le> k" "k \<le> 254" "shards_ok (nat k) len data" "shards_ok 1 len parity"
    and "shards_ok (nat k + 1) len junk" "length present = nat k + 1"
  shows "\<exists>e. ec_xor_create all_allocs k = Some e \<and>
    (let full = data @ xor_encode e data parity len; sh = lose present junk full
     in xor_decode e sh present len = (if nat k \<le> num_present present then (None, full) else (Some EIO, sh)))"
proof -
  obtain e where c: "ec_xor_create all_allocs k = Some e" using assms by (simp add: ec_xor_create_def)
  note C = ec_xor_create_Some [OF c]
  let ?full = "data @ xor_encode e data parity len"
  have "shards_ok (nat k + 1) len ?full"
    using assms xor_encode_spec [of e len data parity] C by (intro shards_ok_append) auto
  then have "shards_ok (nat k + 1) len (lose present junk ?full)" using assms by (intro shards_ok_lose)
  moreover have "survivors ?full present (lose present junk ?full)" by (simp add: survivors_def lose_def)
  ultimately show ?thesis
    using xor_decode_restores [of e len data parity "lose present junk ?full" present]
      xor_decode_too_few [of present e "lose present junk ?full" len] assms c C by (auto simp: Let_def)
qed

theorem xor_roundtrip_witness:
  "\<exists>e. ec_xor_create all_allocs 2 = Some e \<and>
    (let full = [[1, 2], [3, 4]] @ xor_encode e [[1, 2], [3, 4]] [[0, 0]] 2;
         sh = lose [True, False, True] [[9, 9], [9, 9], [9, 9]] full
     in xor_decode e sh [True, False, True] 2 =
        (if nat 2 \<le> num_present [True, False, True] then (None, full) else (Some EIO, sh)))"
  by (rule xor_roundtrip) (simp_all add: shards_ok_def)

text \<open>
  C40. Mirroring survives the loss of all replicas but one: \<^verbatim>\<open>mirror_encode\<close> returns 0,
  and from any later contents of the buffers in which the present replicas (at least one) still
  hold their first \<open>len\<close> bytes, \<^verbatim>\<open>mirror_decode\<close> returns 0 with every replica equal to
  the original replica 0 there. Replicas may share buffers.
\<close>

theorem mirror_roundtrip:
  assumes "length ps = ec_k e" "None \<notin> set ps" "length present = ec_k e" "i0 < ec_k e" "present ! i0"
    and "list_all (\<lambda>p. len \<le> length (H (the p))) ps"
  shows "\<exists>H1. mirror_encode e (Some ps) len H = (None, H1) \<and>
    (\<forall>H'. list_all (\<lambda>p. len \<le> length (H' (the p))) ps \<and>
       (\<forall>i < ec_k e. present ! i \<longrightarrow> take len (H' (the (ps ! i))) = take len (H1 (the (ps ! i)))) \<longrightarrow>
       (\<exists>H2. mirror_decode e (Some ps) present len H' = (None, H2) \<and>
          (\<forall>i < ec_k e. take len (H2 (the (ps ! i))) = take len (H (the (ps ! 0))))))"
proof -
  have len: "len \<le> length (K a)" if "list_all (\<lambda>p. len \<le> length (K (the p))) ps" "Some a \<in> set ps"
    for K :: store and a using that by (auto simp: list_all_iff)
  obtain H1 where H1: "mirror_encode e (Some ps) len H = (None, H1)"
    "\<forall>i < ec_k e. take len (H1 (the (ps ! i))) = take len (H (the (ps ! 0)))"
    using mirror_encode_spec [of ps e len H] assms len by force
  have "\<exists>H2. mirror_decode e (Some ps) present len H' = (None, H2) \<and>
      (\<forall>i < ec_k e. take len (H2 (the (ps ! i))) = take len (H (the (ps ! 0))))"
    if "list_all (\<lambda>p. len \<le> length (H' (the p))) ps"
      "\<forall>i < ec_k e. present ! i \<longrightarrow> take len (H' (the (ps ! i))) = take len (H1 (the (ps ! i)))" for H'
    by (rule mirror_decode_spec [OF assms(1-5)]) (use len [OF that(1)] that(2) H1(2) in auto)
  with H1(1) show ?thesis by blast
qed

theorem mirror_roundtrip_witness:
  "\<exists>H1. mirror_encode \<lparr>ec_name = ''mirror'', ec_k = 3, ec_m = 0, ec_private = ()\<rparr> (Some [Some 7, Some 8, Some 7]) 2
      (\<lambda>a. if a = 7 then [1, 2] else [0, 0]) = (None, H1) \<and>
    (\<forall>H'. list_all (\<lambda>p. 2 \<le> length (H' (the p))) [Some 7, Some 8, Some 7] \<and>
       (\<forall>i < 3. [False, True, False] ! i \<longrightarrow>
          take 2 (H' (the ([Some 7, Some 8, Some 7] ! i))) = take 2 (H1 (the ([Some 7, Some 8, Some 7] ! i)))) \<longrightarrow>
       (\<exists>H2. mirror_decode \<lparr>ec_name = ''mirror'', ec_k = 3, ec_m = 0, ec_private = ()\<rparr> (Some [Some 7, Some 8, Some 7])
            [False, True, False] 2 H' = (None, H2) \<and>
          (\<forall>i < 3. take 2 (H2 (the ([Some 7, Some 8, Some 7] ! i))) = [1, 2])))"
  using mirror_roundtrip [of "[Some 7, Some 8, Some 7]" "\<lparr>ec_name = ''mirror'', ec_k = 3, ec_m = 0, ec_private = ()\<rparr>"
      "[False, True, False]" 1 2 "\<lambda>a. if a = 7 then [1, 2] else [0, 0]"] by simp

end
