(* ===== verification/ByteLocks.thy ===== *)
theory ByteLocks
  imports Reffs_Prelude "HOL-Library.Monad_Syntax"
begin

text \<open>
  Byte-range locks and share reservations of \<^verbatim>\<open>src/lib/fs/lock.c\<close>, shared by the NLM and
  NFSv4 front ends. Objects live in heaps indexed by their address and lists hold addresses, so
  that the reference counts of owners and inodes, and the use of freed memory, are visible: an
  operation returns \<open>None\<close> exactly when the C code would touch an object that is not allocated,
  drop a reference that is not held, unlink an object that is on no list, or read an object as the
  wrong type. Addresses are never handed out twice. The per-inode mutex makes every operation
  atomic; the list of idle inodes kept by \<^verbatim>\<open>inode_active_get\<close> and
  \<^verbatim>\<open>inode_active_put\<close> is left out.
\<close>

section \<open>Objects\<close>

record nlm4_lock =
  caller_name :: string
  oh :: "u8 list"
  svid :: u32
  a_offset :: u64
  a_len :: u64

datatype lo_data = Nlm4Owner "u8 list" u32 string | Nfs4LockOwner u64 "u8 list"

record lock_owner =
  lo_ref :: nat
  lo_data :: lo_data

record reffs_lock =
  l_inode :: "nat option"
  l_owner :: nat
  l_offset :: u64
  l_len :: u64
  l_exclusive :: bool

record reffs_share =
  s_inode :: "nat option"
  s_owner :: nat
  s_mode :: u32
  s_access :: u32

record nlm4_host =
  h_name :: string
  h_locks :: "nat list"
  h_shares :: "nat list"

record lock_world =
  lw_owners :: "nat \<rightharpoonup> lock_owner"
  lw_locks :: "nat \<rightharpoonup> reffs_lock"
  lw_shares :: "nat \<rightharpoonup> reffs_share"
  i_locks :: "nat \<Rightarrow> nat list"
  i_shares :: "nat \<Rightarrow> nat list"
  i_active :: "nat \<Rightarrow> int"
  nlm4_owners :: "nat list"
  nlm4_hosts :: "nlm4_host list"
  lw_next :: nat

text \<open>The untyped \<^verbatim>\<open>match_arg\<close> and the two callbacks that read it.\<close>

datatype match_arg = ArgNlm4Lock nlm4_lock | ArgLockOwner4 u64 "u8 list"

fun nlm4_owner_match_op :: "lo_data \<Rightarrow> match_arg \<Rightarrow> bool option" where
  "nlm4_owner_match_op (Nlm4Owner lo_oh lo_svid lo_caller) (ArgNlm4Lock lk) =
     Some (if lo_svid \<noteq> svid lk then False
           else if length lo_oh \<noteq> length (oh lk) then False
           else if lo_caller \<noteq> caller_name lk then False
           else lo_oh = oh lk)"
| "nlm4_owner_match_op _ _ = None"

fun nfs4_lock_owner_match :: "lo_data \<Rightarrow> match_arg \<Rightarrow> bool option" where
  "nfs4_lock_owner_match (Nfs4LockOwner lo_clientid lo_owner) (ArgLockOwner4 clientid owner) =
     Some (if lo_clientid \<noteq> clientid then False
           else if length lo_owner \<noteq> length owner then False
           else lo_owner = owner)"
| "nfs4_lock_owner_match _ _ = None"

text \<open>\<open>lo_match d\<close> is the callback stored in an owner with data \<open>d\<close>.\<close>

fun lo_match :: "lo_data \<Rightarrow> lo_data \<Rightarrow> match_arg \<Rightarrow> bool option" where
  "lo_match (Nlm4Owner _ _ _) = nlm4_owner_match_op"
| "lo_match (Nfs4LockOwner _ _) = nfs4_lock_owner_match"

section \<open>Reference counts\<close>

definition lock_owner_get :: "lock_world \<Rightarrow> nat \<Rightarrow> lock_world option" where
  "lock_owner_get w o1 = do {
     lo \<leftarrow> lw_owners w o1;
     Some (w\<lparr>lw_owners := (lw_owners w)(o1 \<mapsto> lo\<lparr>lo_ref := lo_ref lo + 1\<rparr>)\<rparr>)
   }"

text \<open>\<open>lo_release\<close>: the NLM callback also unlinks the owner from \<^verbatim>\<open>nlm4_owners\<close>.\<close>

definition lo_release :: "lock_world \<Rightarrow> nat \<Rightarrow> lo_data \<Rightarrow> lock_world" where
  "lo_release w o1 d =
     (case d of
        Nlm4Owner _ _ _ \<Rightarrow> w\<lparr>nlm4_owners := remove1 o1 (nlm4_owners w), lw_owners := (lw_owners w)(o1 := None)\<rparr>
      | Nfs4LockOwner _ _ \<Rightarrow> w\<lparr>lw_owners := (lw_owners w)(o1 := None)\<rparr>)"

definition lock_owner_put :: "lock_world \<Rightarrow> nat \<Rightarrow> lock_world option" where
  "lock_owner_put w o1 = do {
     lo \<leftarrow> lw_owners w o1;
     if lo_ref lo = 0 then None
     else if lo_ref lo = 1 then Some (lo_release w o1 (lo_data lo))
     else Some (w\<lparr>lw_owners := (lw_owners w)(o1 \<mapsto> lo\<lparr>lo_ref := lo_ref lo - 1\<rparr>)\<rparr>)
   }"

definition inode_active_get :: "lock_world \<Rightarrow> nat option \<Rightarrow> nat option \<times> lock_world" where
  "inode_active_get w inode =
     (case inode of
        None \<Rightarrow> (None, w)
      | Some ino \<Rightarrow>
          if i_active w ino < 0 then (None, w)
          else (Some ino, w\<lparr>i_active := (i_active w)(ino := i_active w ino + 1)\<rparr>))"

definition inode_active_put :: "lock_world \<Rightarrow> nat option \<Rightarrow> lock_world" where
  "inode_active_put w inode =
     (case inode of
        None \<Rightarrow> w
      | Some ino \<Rightarrow> w\<lparr>i_active := (i_active w)(ino := i_active w ino - 1)\<rparr>)"

definition reffs_lock_free :: "lock_world \<Rightarrow> nat \<Rightarrow> lock_world option" where
  "reffs_lock_free w l = do {
     lk \<leftarrow> lw_locks w l;
     w \<leftarrow> lock_owner_put (inode_active_put w (l_inode lk)) (l_owner lk);
     Some (w\<lparr>lw_locks := (lw_locks w)(l := None)\<rparr>)
   }"

definition reffs_share_free :: "lock_world \<Rightarrow> nat \<Rightarrow> lock_world option" where
  "reffs_share_free w s = do {
     sh \<leftarrow> lw_shares w s;
     w \<leftarrow> lock_owner_put (inode_active_put w (s_inode sh)) (s_owner sh);
     Some (w\<lparr>lw_shares := (lw_shares w)(s := None)\<rparr>)
   }"

section \<open>Lists\<close>

text \<open>\<^verbatim>\<open>cds_list_add(new, pos)\<close> links \<open>new\<close> behind \<open>pos\<close>.\<close>

fun insert_after :: "nat \<Rightarrow> nat \<Rightarrow> nat list \<Rightarrow> nat list" where
  "insert_after pos new [] = []"
| "insert_after pos new (x # xs) = (if x = pos then x # new # xs else x # insert_after pos new xs)"

text \<open>
  The link of a lock (share) in the list of its host. The list is named by the host; unlinking
  does not need the name, and unlinking an object that is on no list is undefined.
\<close>

definition host_add_lock :: "lock_world \<Rightarrow> string \<Rightarrow> nat \<Rightarrow> lock_world" where
  "host_add_lock w h l = w\<lparr>nlm4_hosts := map (\<lambda>host.
     if h_name host = h then host\<lparr>h_locks := l # h_locks host\<rparr> else host) (nlm4_hosts w)\<rparr>"

definition host_del_lock :: "lock_world \<Rightarrow> nat \<Rightarrow> lock_world option" where
  "host_del_lock w l =
     (if list_ex (\<lambda>host. l \<in> set (h_locks host)) (nlm4_hosts w)
      then Some (w\<lparr>nlm4_hosts := map (\<lambda>host. host\<lparr>h_locks := removeAll l (h_locks host)\<rparr>) (nlm4_hosts w)\<rparr>)
      else None)"

definition host_add_share :: "lock_world \<Rightarrow> string \<Rightarrow> nat \<Rightarrow> lock_world" where
  "host_add_share w h s = w\<lparr>nlm4_hosts := map (\<lambda>host.
     if h_name host = h then host\<lparr>h_shares := s # h_shares host\<rparr> else host) (nlm4_hosts w)\<rparr>"

definition host_del_share :: "lock_world \<Rightarrow> nat \<Rightarrow> lock_world option" where
  "host_del_share w s =
     (if list_ex (\<lambda>host. s \<in> set (h_shares host)) (nlm4_hosts w)
      then Some (w\<lparr>nlm4_hosts := map (\<lambda>host. host\<lparr>h_shares := removeAll s (h_shares host)\<rparr>) (nlm4_hosts w)\<rparr>)
      else None)"

section \<open>Byte-range locks\<close>

definition range_end :: "u64 \<Rightarrow> u64 \<Rightarrow> u64" where
  "range_end off len = (if len = 0 then - 1 else off + len - 1)"

definition reffs_lock_range_overlap :: "u64 \<Rightarrow> u64 \<Rightarrow> u64 \<Rightarrow> u64 \<Rightarrow> bool" where
  "reffs_lock_range_overlap off1 len1 off2 len2 \<longleftrightarrow>
     off1 \<le> range_end off2 len2 \<and> off2 \<le> range_end off1 len1"

fun find_conflict_from :: "lock_world \<Rightarrow> nat list \<Rightarrow> u64 \<Rightarrow> u64 \<Rightarrow> bool \<Rightarrow> nat option \<Rightarrow> match_arg
    \<Rightarrow> nat option option" where
  "find_conflict_from w [] offset len excl owner arg = Some None"
| "find_conflict_from w (l # ls) offset len excl owner arg = do {
     rl \<leftarrow> lw_locks w l;
     if \<not> excl \<and> \<not> l_exclusive rl then find_conflict_from w ls offset len excl owner arg
     else if owner = Some (l_owner rl) then find_conflict_from w ls offset len excl owner arg
     else do {
       same \<leftarrow> (case owner of
           None \<Rightarrow> Some False
         | Some o1 \<Rightarrow> do {
             lo \<leftarrow> lw_owners w o1;
             rlo \<leftarrow> lw_owners w (l_owner rl);
             lo_match (lo_data lo) (lo_data rlo) arg
           });
       if same then find_conflict_from w ls offset len excl owner arg
       else if reffs_lock_range_overlap (l_offset rl) (l_len rl) offset len then Some (Some l)
       else find_conflict_from w ls offset len excl owner arg
     }
   }"

definition reffs_lock_find_conflict ::
  "lock_world \<Rightarrow> nat \<Rightarrow> u64 \<Rightarrow> u64 \<Rightarrow> bool \<Rightarrow> nat option \<Rightarrow> match_arg \<Rightarrow> nat option option" where
  "reffs_lock_find_conflict w ino offset len excl owner arg =
     find_conflict_from w (i_locks w ino) offset len excl owner arg"

text \<open>The lock of the same owner on the same range, if there is one.\<close>

fun find_same_range :: "lock_world \<Rightarrow> nat list \<Rightarrow> reffs_lock \<Rightarrow> nat option option" where
  "find_same_range w [] lock = Some None"
| "find_same_range w (l # ls) lock = do {
     le \<leftarrow> lw_locks w l;
     if l_owner le = l_owner lock \<and> l_offset le = l_offset lock \<and> l_len le = l_len lock
     then Some (Some l)
     else find_same_range w ls lock
   }"

definition reffs_lock_add :: "lock_world \<Rightarrow> nat \<Rightarrow> nat \<Rightarrow> string option \<Rightarrow> lock_world option" where
  "reffs_lock_add w ino l host_list = do {
     lock \<leftarrow> lw_locks w l;
     r \<leftarrow> find_same_range w (i_locks w ino) lock;
     (case r of
        Some l' \<Rightarrow> do {
          le \<leftarrow> lw_locks w l';
          Some (w\<lparr>lw_locks := (lw_locks w)(l' \<mapsto> le\<lparr>l_exclusive := l_exclusive lock\<rparr>)\<rparr>)
        }
      | None \<Rightarrow>
          let w = w\<lparr>i_locks := (i_locks w)(ino := l # i_locks w ino)\<rparr>
          in Some (case host_list of None \<Rightarrow> w | Some h \<Rightarrow> host_add_lock w h l))
   }"

text \<open>
  One iteration of \<^verbatim>\<open>reffs_lock_remove\<close>; \<open>mem l\<close> says whether the allocation made to split
  the lock \<open>l\<close> succeeds. The result is the errno with which the loop is left, if it is.
\<close>

definition lock_remove_step ::
  "(nat \<Rightarrow> bool) \<Rightarrow> nat \<Rightarrow> u64 \<Rightarrow> u64 \<Rightarrow> nat \<Rightarrow> string option \<Rightarrow> nat \<Rightarrow> lock_world \<Rightarrow> (errno option \<times> lock_world) option"
where
  "lock_remove_step mem ino u_off u_len owner host_list l w = do {
     le \<leftarrow> lw_locks w l;
     if l_owner le \<noteq> owner then Some (None, w)
     else let u_end = range_end u_off u_len; l_off = l_offset le; len = l_len le; l_end = range_end l_off len in
     if \<not> reffs_lock_range_overlap l_off len u_off u_len then Some (None, w)
     else if u_off \<le> l_off \<and> l_end \<le> u_end then do {
       w \<leftarrow> Some (w\<lparr>i_locks := (i_locks w)(ino := remove1 l (i_locks w ino))\<rparr>);
       w \<leftarrow> (case host_list of None \<Rightarrow> Some w | Some _ \<Rightarrow> host_del_lock w l);
       w \<leftarrow> reffs_lock_free w l;
       Some (None, w)
     }
     else if l_off < u_off \<and> u_end < l_end then
       if \<not> mem l then Some (Some ENOMEM, w)
       else do {
         let new_le = lw_next w;
         w \<leftarrow> lock_owner_get w (l_owner le);
         let (inode, w) = inode_active_get w (l_inode le);
         let new_off = u_end + 1;
         let new = \<lparr>l_inode = inode, l_owner = l_owner le, l_offset = new_off,
                    l_len = (if len = 0 then 0 else l_end - new_off + 1), l_exclusive = l_exclusive le\<rparr>;
         let w = w\<lparr>lw_next := new_le + 1,
                    lw_locks := (lw_locks w)(new_le \<mapsto> new, l \<mapsto> le\<lparr>l_len := u_off - l_off\<rparr>),
                    i_locks := (i_locks w)(ino := insert_after l new_le (i_locks w ino))\<rparr>;
         Some (None, (case host_list of None \<Rightarrow> w | Some h \<Rightarrow> host_add_lock w h new_le))
       }
     else if u_off \<le> l_off then
       Some (None, w\<lparr>lw_locks := (lw_locks w)(l \<mapsto> le\<lparr>l_offset := u_end + 1,
         l_len := (if len = 0 then 0 else l_end - (u_end + 1) + 1)\<rparr>)\<rparr>)
     else Some (None, w\<lparr>lw_locks := (lw_locks w)(l \<mapsto> le\<lparr>l_len := u_off - l_off\<rparr>)\<rparr>)
   }"

text \<open>The safe iteration visits the locks that were linked when the loop started.\<close>

fun lock_remove_from ::
  "(nat \<Rightarrow> bool) \<Rightarrow> nat \<Rightarrow> u64 \<Rightarrow> u64 \<Rightarrow> nat \<Rightarrow> string option \<Rightarrow> nat list \<Rightarrow> lock_world
   \<Rightarrow> (errno option \<times> lock_world) option"
where
  "lock_remove_from mem ino u_off u_len owner host_list [] w = Some (None, w)"
| "lock_remove_from mem ino u_off u_len owner host_list (l # ls) w = do {
     (e, w) \<leftarrow> lock_remove_step mem ino u_off u_len owner host_list l w;
     (case e of
        Some e \<Rightarrow> Some (Some e, w)
      | None \<Rightarrow> lock_remove_from mem ino u_off u_len owner host_list ls w)
   }"

definition reffs_lock_remove ::
  "(nat \<Rightarrow> bool) \<Rightarrow> lock_world \<Rightarrow> nat \<Rightarrow> u64 \<Rightarrow> u64 \<Rightarrow> nat \<Rightarrow> string option \<Rightarrow> (errno option \<times> lock_world) option"
where
  "reffs_lock_remove mem w ino offset len owner host_list =
     lock_remove_from mem ino offset len owner host_list (i_locks w ino) w"

section \<open>Share reservations\<close>

definition reffs_share_conflict :: "u32 \<Rightarrow> u32 \<Rightarrow> u32 \<Rightarrow> u32 \<Rightarrow> bool" where
  "reffs_share_conflict s1_mode s1_access s2_mode s2_access \<longleftrightarrow>
     (if s2_access AND s1_mode \<noteq> 0 then True
      else if s1_access AND s2_mode \<noteq> 0 then True else False)"

text \<open>\<open>Inl e\<close>: a conflicting share was met; \<open>Inr existing\<close>: the last share of the owner.\<close>

fun share_scan :: "lock_world \<Rightarrow> nat list \<Rightarrow> reffs_share \<Rightarrow> nat option \<Rightarrow> (errno + nat option) option" where
  "share_scan w [] share existing = Some (Inr existing)"
| "share_scan w (s # ss) share existing = do {
     se \<leftarrow> lw_shares w s;
     if s_owner se = s_owner share then share_scan w ss share (Some s)
     else if reffs_share_conflict (s_mode se) (s_access se) (s_mode share) (s_access share) then Some (Inl EACCES)
     else share_scan w ss share existing
   }"

definition reffs_share_add ::
  "lock_world \<Rightarrow> nat \<Rightarrow> nat \<Rightarrow> string option \<Rightarrow> (errno option \<times> lock_world) option" where
  "reffs_share_add w ino s host_list = do {
     share \<leftarrow> lw_shares w s;
     r \<leftarrow> share_scan w (i_shares w ino) share None;
     (case r of
        Inl e \<Rightarrow> Some (Some e, w)
      | Inr (Some s') \<Rightarrow> do {
          se \<leftarrow> lw_shares w s';
          w \<leftarrow> reffs_share_free
                (w\<lparr>lw_shares := (lw_shares w)(s' \<mapsto> se\<lparr>s_mode := s_mode share, s_access := s_access share\<rparr>)\<rparr>) s;
          Some (None, w)
        }
      | Inr None \<Rightarrow>
          let w = w\<lparr>i_shares := (i_shares w)(ino := s # i_shares w ino)\<rparr>
          in Some (None, (case host_list of None \<Rightarrow> w | Some h \<Rightarrow> host_add_share w h s)))
   }"

fun share_remove_from :: "nat \<Rightarrow> nat \<Rightarrow> string option \<Rightarrow> nat list \<Rightarrow> lock_world \<Rightarrow> lock_world option" where
  "share_remove_from ino owner host_list [] w = Some w"
| "share_remove_from ino owner host_list (s # ss) w = do {
     se \<leftarrow> lw_shares w s;
     if s_owner se = owner then do {
       w \<leftarrow> Some (w\<lparr>i_shares := (i_shares w)(ino := remove1 s (i_shares w ino))\<rparr>);
       w \<leftarrow> (case host_list of None \<Rightarrow> Some w | Some _ \<Rightarrow> host_del_share w s);
       w \<leftarrow> reffs_share_free w s;
       share_remove_from ino owner host_list ss w
     }
     else share_remove_from ino owner host_list ss w
   }"

definition reffs_share_remove :: "lock_world \<Rightarrow> nat \<Rightarrow> nat \<Rightarrow> string option \<Rightarrow> lock_world option" where
  "reffs_share_remove w ino owner host_list = share_remove_from ino owner host_list (i_shares w ino) w"

section \<open>The bytes of a range\<close>

definition range_bytes :: "u64 \<Rightarrow> u64 \<Rightarrow> nat set" where
  "range_bytes off len = {b. unat off \<le> b \<and> b \<le> unat (range_end off len)}"

lemma no_overlap_disjoint:
  "\<not> reffs_lock_range_overlap off1 len1 off2 len2 \<Longrightarrow> range_bytes off1 len1 \<inter> range_bytes off2 len2 = {}"
  by (auto simp: reffs_lock_range_overlap_def range_bytes_def word_le_nat_alt)

lemma range_end_head:
  assumes "l_off < u_off" shows "range_end l_off (u_off - l_off) = u_off - 1"
  using assms by (auto simp: range_end_def)

lemma range_end_tail:
  assumes "u_end < range_end l_off len"
  shows "range_end (u_end + 1) (if len = 0 then 0 else range_end l_off len - (u_end + 1) + 1) = range_end l_off len"
proof (cases "len = 0")
  case False
  let ?e = "range_end l_off len"
  have "?e - (u_end + 1) + 1 = ?e - u_end" by simp
  moreover have "?e - u_end \<noteq> 0" using assms by auto
  ultimately show ?thesis using False unfolding range_end_def [of "u_end + 1"] by simp
qed (simp add: range_end_def)

lemma unat_after:
  fixes u :: u64
  assumes "u < v" shows "unat (u + 1) = unat u + 1"
proof -
  have "u \<noteq> - 1" using assms word_order.extremum_strict by auto
  then have "u + 1 \<noteq> 0" by (simp add: add_eq_0_iff2)
  then show ?thesis by (metis add.commute plus_1_eq_Suc unatSuc)
qed

lemma unat_before:
  fixes u :: u64
  assumes "v < u" shows "unat (u - 1) = unat u - 1" "0 < unat u"
proof -
  have "u \<noteq> 0" using assms by auto
  then show "unat (u - 1) = unat u - 1" "0 < unat u" by (simp_all add: unat_minus_one unat_gt_0)
qed

text \<open>The four ways in which \<^verbatim>\<open>reffs_lock_remove\<close> cuts a lock.\<close>

lemma cut_full:
  assumes "u_off \<le> l_off" "range_end l_off len \<le> range_end u_off u_len"
  shows "range_bytes l_off len - range_bytes u_off u_len = {}"
  using assms by (auto simp: range_bytes_def word_le_nat_alt)

lemma cut_middle:
  assumes o1: "reffs_lock_range_overlap l_off len u_off u_len"
    and c: "l_off < u_off" "range_end u_off u_len < range_end l_off len"
  shows "range_bytes l_off (u_off - l_off) \<union> range_bytes (range_end u_off u_len + 1)
      (if len = 0 then 0 else range_end l_off len - (range_end u_off u_len + 1) + 1)
    = range_bytes l_off len - range_bytes u_off u_len"
  using o1 c(1) unat_after [OF c(2)] unat_before [OF c(1)] c(2)
  unfolding range_bytes_def range_end_head [OF c(1)] range_end_tail [OF c(2)] reffs_lock_range_overlap_def
  by (auto simp: word_le_nat_alt word_less_nat_alt)

lemma cut_head:
  assumes o1: "reffs_lock_range_overlap l_off len u_off u_len"
    and c: "u_off \<le> l_off" "range_end u_off u_len < range_end l_off len"
  shows "range_bytes (range_end u_off u_len + 1)
      (if len = 0 then 0 else range_end l_off len - (range_end u_off u_len + 1) + 1)
    = range_bytes l_off len - range_bytes u_off u_len"
  using o1 c(1) unat_after [OF c(2)] c(2)
  unfolding range_bytes_def range_end_tail [OF c(2)] reffs_lock_range_overlap_def
  by (auto simp: word_le_nat_alt word_less_nat_alt)

lemma cut_tail:
  assumes o1: "reffs_lock_range_overlap l_off len u_off u_len"
    and c: "l_off < u_off" "\<not> range_end u_off u_len < range_end l_off len"
  shows "range_bytes l_off (u_off - l_off) = range_bytes l_off len - range_bytes u_off u_len"
  using o1 c(1) unat_before [OF c(1)] c(2)
  unfolding range_bytes_def range_end_head [OF c(1)] reffs_lock_range_overlap_def
  by (auto simp: word_le_nat_alt word_less_nat_alt)

section \<open>What is locked\<close>

text \<open>Owner, mode and byte, for one lock and for an inode.\<close>

definition lock_holds :: "reffs_lock \<Rightarrow> (nat \<times> bool \<times> nat) set" where
  "lock_holds lk = {l_owner lk} \<times> {l_exclusive lk} \<times> range_bytes (l_offset lk) (l_len lk)"

definition holds_at :: "lock_world \<Rightarrow> nat \<Rightarrow> (nat \<times> bool \<times> nat) set" where
  "holds_at w l = (case lw_locks w l of None \<Rightarrow> {} | Some lk \<Rightarrow> lock_holds lk)"

definition held :: "lock_world \<Rightarrow> nat \<Rightarrow> (nat \<times> bool \<times> nat) set" where
  "held w ino = (\<Union>l \<in> set (i_locks w ino). holds_at w l)"

definition cut :: "nat \<Rightarrow> u64 \<Rightarrow> u64 \<Rightarrow> (nat \<times> bool \<times> nat) set" where
  "cut owner off len = {owner} \<times> UNIV \<times> range_bytes off len"

lemma set_insert_after: "pos \<in> set xs \<Longrightarrow> set (insert_after pos new xs) = insert new (set xs)"
  by (induction xs) auto

lemma distinct_insert_after: "distinct xs \<Longrightarrow> new \<notin> set xs \<Longrightarrow> distinct (insert_after pos new xs)"
proof (induction xs)
  case (Cons x xs)
  have "set (insert_after pos new xs) \<subseteq> insert new (set xs)" by (induction xs) auto
  then show ?case using Cons by auto
qed simp

end
