(* ===== verification/NlmLock.thy ===== *)
theory NlmLock
  imports ByteLocks
begin

text \<open>
  The NLM version 4 lock manager, \<^verbatim>\<open>src/lib/nlm/nlm_lock.c\<close>, and its procedures,
  \<^verbatim>\<open>src/lib/nlm/nlm_server.c\<close>, over the locks of theory \<open>ByteLocks\<close>. Owners are shared
  and reference counted, and every lock and share is also on the list of the client host, so that
  \<^verbatim>\<open>FREE_ALL\<close> can drop the state of a rebooted client.
\<close>

section \<open>Hosts, owners and the grace period\<close>

datatype nlm4_stats = NLM4_GRANTED | NLM4_DENIED | NLM4_DENIED_NOLOCKS | NLM4_BLOCKED
  | NLM4_DENIED_GRACE_PERIOD | NLM4_DEADLCK | NLM4_ROFS | NLM4_STALE_FH | NLM4_FBIG | NLM4_FAILED

definition nlm4_get_host :: "allocs \<Rightarrow> lock_world \<Rightarrow> string \<Rightarrow> string option \<times> lock_world" where
  "nlm4_get_host mem w hostname =
     (if list_ex (\<lambda>host. h_name host = hostname) (nlm4_hosts w) then (Some hostname, w)
      else if \<not> mem ''host'' then (None, w)
      else if \<not> mem ''h_name'' then (None, w)
      else (Some hostname,
            w\<lparr>nlm4_hosts := \<lparr>h_name = hostname, h_locks = [], h_shares = []\<rparr> # nlm4_hosts w\<rparr>))"

text \<open>The first owner on the list that matches; the caller then holds a reference.\<close>

fun nlm4_find_owner_from :: "lock_world \<Rightarrow> nat list \<Rightarrow> nlm4_lock \<Rightarrow> nat option option" where
  "nlm4_find_owner_from w [] lk = Some None"
| "nlm4_find_owner_from w (o1 # os) lk = do {
     lo \<leftarrow> lw_owners w o1;
     m \<leftarrow> nlm4_owner_match_op (lo_data lo) (ArgNlm4Lock lk);
     if m then Some (Some o1) else nlm4_find_owner_from w os lk
   }"

definition nlm4_find_owner :: "lock_world \<Rightarrow> nlm4_lock \<Rightarrow> (nat option \<times> lock_world) option" where
  "nlm4_find_owner w lk = do {
     r \<leftarrow> nlm4_find_owner_from w (nlm4_owners w) lk;
     (case r of
        None \<Rightarrow> Some (None, w)
      | Some o1 \<Rightarrow> do { w \<leftarrow> lock_owner_get w o1; Some (Some o1, w) })
   }"

definition nlm4_get_owner :: "allocs \<Rightarrow> lock_world \<Rightarrow> nlm4_lock \<Rightarrow> (nat option \<times> lock_world) option" where
  "nlm4_get_owner mem w lk = do {
     (r, w) \<leftarrow> nlm4_find_owner w lk;
     (case r of
        Some o1 \<Rightarrow> Some (Some o1, w)
      | None \<Rightarrow>
          if \<not> mem ''lo'' then Some (None, w)
          else if \<not> mem ''lo_oh'' then Some (None, w)
          else if \<not> mem ''lo_caller'' then Some (None, w)
          else let o1 = lw_next w in
            Some (Some o1, w\<lparr>lw_next := o1 + 1,
              lw_owners := (lw_owners w)(o1 \<mapsto> \<lparr>lo_ref = 1, lo_data = Nlm4Owner (oh lk) (svid lk) (caller_name lk)\<rparr>),
              nlm4_owners := o1 # nlm4_owners w\<rparr>))
   }"

definition reffs_nlm4_init_grace :: "int \<Rightarrow> u32 \<Rightarrow> int" where
  "reffs_nlm4_init_grace now seconds = now + uint seconds"

definition reffs_nlm4_in_grace :: "int \<Rightarrow> int \<Rightarrow> bool" where
  "reffs_nlm4_in_grace grace_period_end now \<longleftrightarrow> now < grace_period_end"

section \<open>Locks\<close>

definition reffs_nlm4_lock ::
  "allocs \<Rightarrow> lock_world \<Rightarrow> nat \<Rightarrow> bool \<Rightarrow> nlm4_lock \<Rightarrow> (nlm4_stats \<times> lock_world) option" where
  "reffs_nlm4_lock mem w ino excl alock = do {
     (r, w) \<leftarrow> nlm4_get_owner mem w alock;
     (case r of
        None \<Rightarrow> Some (NLM4_DENIED_NOLOCKS, w)
      | Some lo \<Rightarrow> do {
     conflict \<leftarrow> reffs_lock_find_conflict w ino (a_offset alock) (a_len alock) excl (Some lo) (ArgNlm4Lock alock);
     if conflict \<noteq> None then do { w \<leftarrow> lock_owner_put w lo; Some (NLM4_DENIED, w) }
     else if \<not> mem ''lock'' then do { w \<leftarrow> lock_owner_put w lo; Some (NLM4_DENIED_NOLOCKS, w) }
     else do {
       let l = lw_next w;
       let (inode, w) = inode_active_get w (Some ino);
       let w = w\<lparr>lw_next := l + 1,
         lw_locks := (lw_locks w)(l \<mapsto> \<lparr>l_inode = inode, l_owner = lo, l_offset = a_offset alock,
           l_len = a_len alock, l_exclusive = excl\<rparr>)\<rparr>;
       if inode = None then do { w \<leftarrow> reffs_lock_free w l; Some (NLM4_DENIED_NOLOCKS, w) }
       else do {
         let (host, w) = nlm4_get_host mem w (caller_name alock);
         if host = None then do { w \<leftarrow> reffs_lock_free w l; Some (NLM4_DENIED_NOLOCKS, w) }
         else do { w \<leftarrow> reffs_lock_add w ino l host; Some (NLM4_GRANTED, w) }
       }
     } })
   }"

definition reffs_nlm4_unlock ::
  "allocs \<Rightarrow> (nat \<Rightarrow> bool) \<Rightarrow> lock_world \<Rightarrow> nat \<Rightarrow> nlm4_lock \<Rightarrow> (nlm4_stats \<times> lock_world) option" where
  "reffs_nlm4_unlock mem memsplit w ino alock = do {
     (r, w) \<leftarrow> nlm4_get_owner mem w alock;
     (case r of
        None \<Rightarrow> Some (NLM4_DENIED_NOLOCKS, w)
      | Some lo \<Rightarrow> do {
          let (host, w) = nlm4_get_host mem w (caller_name alock);
          w \<leftarrow> lock_owner_put w lo;
          (e, w) \<leftarrow> reffs_lock_remove memsplit w ino (a_offset alock) (a_len alock) lo host;
          Some (NLM4_GRANTED, w)
        })
   }"

record nlm4_holder =
  hold_exclusive :: bool
  hold_svid :: u32
  hold_oh :: "u8 list"
  hold_offset :: u64
  hold_len :: u64

datatype nlm4_testrply = TestDenied nlm4_holder | TestStat nlm4_stats

definition reffs_nlm4_test ::
  "allocs \<Rightarrow> lock_world \<Rightarrow> nat \<Rightarrow> bool \<Rightarrow> nlm4_lock \<Rightarrow> (nlm4_testrply \<times> lock_world) option" where
  "reffs_nlm4_test mem w ino excl alock = do {
     (r, w) \<leftarrow> nlm4_get_owner mem w alock;
     (case r of
        None \<Rightarrow> Some (TestStat NLM4_DENIED_NOLOCKS, w)
      | Some lo \<Rightarrow> do {
     conflict \<leftarrow> reffs_lock_find_conflict w ino (a_offset alock) (a_len alock) excl (Some lo) (ArgNlm4Lock alock);
     (case conflict of
        Some l \<Rightarrow> do {
          rl \<leftarrow> lw_locks w l;
          clo \<leftarrow> lw_owners w (l_owner rl);
          (case lo_data clo of
             Nfs4LockOwner _ _ \<Rightarrow> None
           | Nlm4Owner lo_oh lo_svid _ \<Rightarrow>
               if \<not> mem ''n_bytes'' then do { w \<leftarrow> lock_owner_put w lo; Some (TestStat NLM4_FAILED, w) }
               else do {
                 w \<leftarrow> lock_owner_put w lo;
                 Some (TestDenied \<lparr>hold_exclusive = l_exclusive rl, hold_svid = lo_svid, hold_oh = lo_oh,
                         hold_offset = l_offset rl, hold_len = l_len rl\<rparr>, w)
               })
        }
      | None \<Rightarrow> do { w \<leftarrow> lock_owner_put w lo; Some (TestStat NLM4_GRANTED, w) })
     })
   }"

definition reffs_nlm4_cancel :: "lock_world \<Rightarrow> nlm4_stats \<times> lock_world" where
  "reffs_nlm4_cancel w = (NLM4_GRANTED, w)"

section \<open>Shares\<close>

record nlm4_share =
  sh_caller_name :: string
  sh_oh :: "u8 list"
  sh_mode :: u32
  sh_access :: u32

text \<open>The temporary lock argument with \<^verbatim>\<open>svid\<close> 0 that names the owner of a share.\<close>

definition share_owner_arg :: "nlm4_share \<Rightarrow> nlm4_lock" where
  "share_owner_arg sh = \<lparr>caller_name = sh_caller_name sh, oh = sh_oh sh, svid = 0, a_offset = 0, a_len = 0\<rparr>"

definition reffs_nlm4_share ::
  "allocs \<Rightarrow> lock_world \<Rightarrow> nat \<Rightarrow> nlm4_share \<Rightarrow> (nlm4_stats \<times> lock_world) option" where
  "reffs_nlm4_share mem w ino sh = do {
     (r, w) \<leftarrow> nlm4_get_owner mem w (share_owner_arg sh);
     (case r of
        None \<Rightarrow> Some (NLM4_DENIED_NOLOCKS, w)
      | Some lo \<Rightarrow>
     if \<not> mem ''share'' then do { w \<leftarrow> lock_owner_put w lo; Some (NLM4_DENIED_NOLOCKS, w) }
     else do {
       let s = lw_next w;
       let (inode, w) = inode_active_get w (Some ino);
       let w = w\<lparr>lw_next := s + 1,
         lw_shares := (lw_shares w)(s \<mapsto> \<lparr>s_inode = inode, s_owner = lo, s_mode = sh_mode sh, s_access = sh_access sh\<rparr>)\<rparr>;
       if inode = None then do { w \<leftarrow> reffs_share_free w s; Some (NLM4_DENIED_NOLOCKS, w) }
       else do {
         let (host, w) = nlm4_get_host mem w (sh_caller_name sh);
         if host = None then do { w \<leftarrow> reffs_share_free w s; Some (NLM4_DENIED_NOLOCKS, w) }
         else do {
           (e, w) \<leftarrow> reffs_share_add w ino s host;
           Some (if e = None then NLM4_GRANTED else NLM4_DENIED, w)
         }
       }
     })
   }"

definition reffs_nlm4_unshare ::
  "allocs \<Rightarrow> lock_world \<Rightarrow> nat \<Rightarrow> nlm4_share \<Rightarrow> (nlm4_stats \<times> lock_world) option" where
  "reffs_nlm4_unshare mem w ino sh = do {
     (r, w) \<leftarrow> nlm4_get_owner mem w (share_owner_arg sh);
     (case r of
        None \<Rightarrow> Some (NLM4_DENIED_NOLOCKS, w)
      | Some lo \<Rightarrow> do {
          let (host, w) = nlm4_get_host mem w (sh_caller_name sh);
          w \<leftarrow> lock_owner_put w lo;
          w \<leftarrow> reffs_share_remove w ino lo host;
          Some (NLM4_GRANTED, w)
        })
   }"

section \<open>A client restarts\<close>

fun free_locks_from :: "nat list \<Rightarrow> lock_world \<Rightarrow> lock_world option" where
  "free_locks_from [] w = Some w"
| "free_locks_from (l # ls) w = do {
     le \<leftarrow> lw_locks w l;
     ino \<leftarrow> l_inode le;
     w \<leftarrow> (if l \<in> set (i_locks w ino)
           then Some (w\<lparr>i_locks := (i_locks w)(ino := remove1 l (i_locks w ino))\<rparr>) else None);
     w \<leftarrow> host_del_lock w l;
     w \<leftarrow> reffs_lock_free w l;
     free_locks_from ls w
   }"

fun free_shares_from :: "nat list \<Rightarrow> lock_world \<Rightarrow> lock_world option" where
  "free_shares_from [] w = Some w"
| "free_shares_from (s # ss) w = do {
     se \<leftarrow> lw_shares w s;
     ino \<leftarrow> s_inode se;
     w \<leftarrow> (if s \<in> set (i_shares w ino)
           then Some (w\<lparr>i_shares := (i_shares w)(ino := remove1 s (i_shares w ino))\<rparr>) else None);
     w \<leftarrow> host_del_share w s;
     w \<leftarrow> reffs_share_free w s;
     free_shares_from ss w
   }"

text \<open>
  After the search loop runs off the end of the list the code goes on with a host computed from
  the list head, which is not a host: undefined.
\<close>

definition reffs_nlm4_free_all :: "lock_world \<Rightarrow> string \<Rightarrow> lock_world option" where
  "reffs_nlm4_free_all w name = do {
     host \<leftarrow> find (\<lambda>host. h_name host = name) (nlm4_hosts w);
     w \<leftarrow> free_locks_from (h_locks host) w;
     free_shares_from (h_shares host) w
   }"

section \<open>Procedures\<close>

text \<open>
  A file handle is either of the wrong length or names a super block and an inode. The tables of
  super blocks and inodes belong to the file system: \<open>sb_find\<close> and \<open>inode_find\<close> are parameters;
  \<open>inode_find\<close> returns an inode with an active reference, which the procedure drops at the end.
\<close>

datatype nlm4_fh = FhBadLength | Fh u64 u64

record nlm_env =
  sb_find :: "u64 \<Rightarrow> nat option"
  inode_find :: "nat \<Rightarrow> u64 \<Rightarrow> nat option"
  grace_period_end :: int

definition nlm4_fh_to_inode :: "nlm_env \<Rightarrow> lock_world \<Rightarrow> nlm4_fh \<Rightarrow> nat option \<times> lock_world" where
  "nlm4_fh_to_inode env w fh =
     (case fh of
        FhBadLength \<Rightarrow> (None, w)
      | Fh nfh_sb nfh_ino \<Rightarrow>
     (case sb_find env nfh_sb of
        None \<Rightarrow> (None, w)
      | Some sb \<Rightarrow> inode_active_get w (inode_find env sb nfh_ino)))"

definition nlm4_op_test ::
  "allocs \<Rightarrow> nlm_env \<Rightarrow> int \<Rightarrow> lock_world \<Rightarrow> nlm4_fh \<Rightarrow> bool \<Rightarrow> nlm4_lock \<Rightarrow> (nlm4_testrply \<times> lock_world) option" where
  "nlm4_op_test mem env now w fh excl alock =
     (if reffs_nlm4_in_grace (grace_period_end env) now then Some (TestStat NLM4_DENIED_GRACE_PERIOD, w)
      else case nlm4_fh_to_inode env w fh of
        (None, w) \<Rightarrow> Some (TestStat NLM4_FAILED, w)
      | (Some ino, w) \<Rightarrow> do {
          (res, w) \<leftarrow> reffs_nlm4_test mem w ino excl alock;
          Some (res, inode_active_put w (Some ino))
        })"

definition nlm4_op_lock ::
  "allocs \<Rightarrow> nlm_env \<Rightarrow> int \<Rightarrow> lock_world \<Rightarrow> nlm4_fh \<Rightarrow> bool \<Rightarrow> bool \<Rightarrow> nlm4_lock \<Rightarrow> (nlm4_stats \<times> lock_world) option"
where
  "nlm4_op_lock mem env now w fh reclaim excl alock =
     (if reffs_nlm4_in_grace (grace_period_end env) now \<and> \<not> reclaim then Some (NLM4_DENIED_GRACE_PERIOD, w)
      else case nlm4_fh_to_inode env w fh of
        (None, w) \<Rightarrow> Some (NLM4_FAILED, w)
      | (Some ino, w) \<Rightarrow> do {
          (stat, w) \<leftarrow> reffs_nlm4_lock mem w ino excl alock;
          Some (stat, inode_active_put w (Some ino))
        })"

definition nlm4_op_unlock ::
  "allocs \<Rightarrow> (nat \<Rightarrow> bool) \<Rightarrow> nlm_env \<Rightarrow> lock_world \<Rightarrow> nlm4_fh \<Rightarrow> nlm4_lock \<Rightarrow> (nlm4_stats \<times> lock_world) option" where
  "nlm4_op_unlock mem memsplit env w fh alock =
     (case nlm4_fh_to_inode env w fh of
        (None, w) \<Rightarrow> Some (NLM4_FAILED, w)
      | (Some ino, w) \<Rightarrow> do {
          (stat, w) \<leftarrow> reffs_nlm4_unlock mem memsplit w ino alock;
          Some (stat, inode_active_put w (Some ino))
        })"

definition nlm4_op_cancel :: "nlm_env \<Rightarrow> int \<Rightarrow> lock_world \<Rightarrow> nlm4_fh \<Rightarrow> nlm4_stats \<times> lock_world" where
  "nlm4_op_cancel env now w fh =
     (if reffs_nlm4_in_grace (grace_period_end env) now then (NLM4_DENIED_GRACE_PERIOD, w)
      else case nlm4_fh_to_inode env w fh of
        (None, w) \<Rightarrow> (NLM4_FAILED, w)
      | (Some ino, w) \<Rightarrow> (case reffs_nlm4_cancel w of (stat, w) \<Rightarrow> (stat, inode_active_put w (Some ino))))"

definition nlm4_op_share ::
  "allocs \<Rightarrow> nlm_env \<Rightarrow> int \<Rightarrow> lock_world \<Rightarrow> nlm4_fh \<Rightarrow> bool \<Rightarrow> nlm4_share \<Rightarrow> (nlm4_stats \<times> lock_world) option" where
  "nlm4_op_share mem env now w fh reclaim sh =
     (if reffs_nlm4_in_grace (grace_period_end env) now \<and> \<not> reclaim then Some (NLM4_DENIED_GRACE_PERIOD, w)
      else case nlm4_fh_to_inode env w fh of
        (None, w) \<Rightarrow> Some (NLM4_FAILED, w)
      | (Some ino, w) \<Rightarrow> do {
          (stat, w) \<leftarrow> reffs_nlm4_share mem w ino sh;
          Some (stat, inode_active_put w (Some ino))
        })"

definition nlm4_op_unshare ::
  "allocs \<Rightarrow> nlm_env \<Rightarrow> lock_world \<Rightarrow> nlm4_fh \<Rightarrow> nlm4_share \<Rightarrow> (nlm4_stats \<times> lock_world) option" where
  "nlm4_op_unshare mem env w fh sh =
     (case nlm4_fh_to_inode env w fh of
        (None, w) \<Rightarrow> Some (NLM4_FAILED, w)
      | (Some ino, w) \<Rightarrow> do {
          (stat, w) \<leftarrow> reffs_nlm4_unshare mem w ino sh;
          Some (stat, inode_active_put w (Some ino))
        })"

definition nlm4_op_free_all :: "lock_world \<Rightarrow> string \<Rightarrow> lock_world option" where
  "nlm4_op_free_all w name = reffs_nlm4_free_all w name"

end
