(* ===== verification/NlmSafety.thy ===== *)
theory NlmSafety
  imports NlmLock
begin

text \<open>
  Memory safety and mutual exclusion of the NLM lock manager. The invariant ties the reference
  counts to the objects that hold the references, the inode lists to the host lists and the owner
  list to the allocated owners; \<open>x\<close> and \<open>y\<close> are the references to owners and inodes that the running
  operation holds itself. Each primitive step is proved once, and the operations compose them.
\<close>

section \<open>The invariant\<close>

definition olocks :: "lock_world \<Rightarrow> nat \<Rightarrow> nat" where
  "olocks w o1 = map_count (\<lambda>lk. l_owner lk = o1) (lw_locks w)"

definition oshares :: "lock_world \<Rightarrow> nat \<Rightarrow> nat" where
  "oshares w o1 = map_count (\<lambda>sh. s_owner sh = o1) (lw_shares w)"

definition ilocks :: "lock_world \<Rightarrow> nat \<Rightarrow> nat" where
  "ilocks w ino = map_count (\<lambda>lk. l_inode lk = Some ino) (lw_locks w)"

definition ishares :: "lock_world \<Rightarrow> nat \<Rightarrow> nat" where
  "ishares w ino = map_count (\<lambda>sh. s_inode sh = Some ino) (lw_shares w)"

definition caller :: "lock_world \<Rightarrow> nat \<Rightarrow> string option" where
  "caller w o1 = (case lw_owners w o1 of
      Some lo \<Rightarrow> (case lo_data lo of Nlm4Owner _ _ c \<Rightarrow> Some c | Nfs4LockOwner _ _ \<Rightarrow> None)
    | None \<Rightarrow> None)"

definition heap_ok :: "lock_world \<Rightarrow> bool" where
  "heap_ok w \<longleftrightarrow> finite (dom (lw_locks w)) \<and> finite (dom (lw_shares w))
     \<and> (\<forall>k. lw_next w \<le> k \<longrightarrow> lw_owners w k = None \<and> lw_locks w k = None \<and> lw_shares w k = None)
     \<and> (\<forall>l lk. lw_locks w l = Some lk \<longrightarrow> lw_owners w (l_owner lk) \<noteq> None)
     \<and> (\<forall>s sh. lw_shares w s = Some sh \<longrightarrow> lw_owners w (s_owner sh) \<noteq> None)"

definition refs_ok :: "(nat \<Rightarrow> nat) \<Rightarrow> lock_world \<Rightarrow> bool" where
  "refs_ok x w \<longleftrightarrow> (\<forall>o1. 0 < x o1 \<longrightarrow> lw_owners w o1 \<noteq> None)
     \<and> (\<forall>o1 lo. lw_owners w o1 = Some lo \<longrightarrow> 0 < lo_ref lo \<and> lo_ref lo = olocks w o1 + oshares w o1 + x o1)"

definition active_ok :: "(nat \<Rightarrow> nat) \<Rightarrow> lock_world \<Rightarrow> bool" where
  "active_ok y w \<longleftrightarrow> (\<forall>ino. 0 < ilocks w ino + ishares w ino + y ino
     \<longrightarrow> int (ilocks w ino + ishares w ino + y ino) \<le> i_active w ino)"

definition owners_ok :: "lock_world \<Rightarrow> bool" where
  "owners_ok w \<longleftrightarrow> distinct (nlm4_owners w) \<and> (\<forall>o1. o1 \<in> set (nlm4_owners w) \<longleftrightarrow> lw_owners w o1 \<noteq> None)
     \<and> (\<forall>o1. lw_owners w o1 \<noteq> None \<longrightarrow> caller w o1 \<noteq> None)
     \<and> (\<forall>o1 o2 lo1 lo2. lw_owners w o1 = Some lo1 \<longrightarrow> lw_owners w o2 = Some lo2 \<longrightarrow>
          lo_data lo1 = lo_data lo2 \<longrightarrow> o1 = o2)"

definition lists_ok :: "lock_world \<Rightarrow> bool" where
  "lists_ok w \<longleftrightarrow> (\<forall>ino. distinct (i_locks w ino) \<and> distinct (i_shares w ino))
     \<and> (\<forall>ino. \<forall>l \<in> set (i_locks w ino). \<exists>lk. lw_locks w l = Some lk \<and> l_inode lk = Some ino)
     \<and> (\<forall>ino. \<forall>s \<in> set (i_shares w ino). \<exists>sh. lw_shares w s = Some sh \<and> s_inode sh = Some ino)"

definition on_host :: "lock_world \<Rightarrow> nat \<Rightarrow> string \<Rightarrow> bool" where
  "on_host w l h \<longleftrightarrow> (\<exists>lk. lw_locks w l = Some lk \<and> (\<exists>ino. l \<in> set (i_locks w ino)) \<and> caller w (l_owner lk) = Some h)"

definition share_on_host :: "lock_world \<Rightarrow> nat \<Rightarrow> string \<Rightarrow> bool" where
  "share_on_host w s h \<longleftrightarrow> (\<exists>sh. lw_shares w s = Some sh \<and> (\<exists>ino. s \<in> set (i_shares w ino)) \<and> caller w (s_owner sh) = Some h)"

definition hosts_ok :: "lock_world \<Rightarrow> bool" where
  "hosts_ok w \<longleftrightarrow> distinct (map h_name (nlm4_hosts w))
     \<and> (\<forall>h \<in> set (nlm4_hosts w). distinct (h_locks h) \<and> distinct (h_shares h)
          \<and> (\<forall>l. l \<in> set (h_locks h) \<longleftrightarrow> on_host w l (h_name h))
          \<and> (\<forall>s. s \<in> set (h_shares h) \<longleftrightarrow> share_on_host w s (h_name h)))
     \<and> (\<forall>l n. on_host w l n \<or> share_on_host w l n \<longrightarrow> n \<in> h_name ` set (nlm4_hosts w))"

definition nlm_inv :: "(nat \<Rightarrow> nat) \<Rightarrow> (nat \<Rightarrow> nat) \<Rightarrow> lock_world \<Rightarrow> bool" where
  "nlm_inv x y w \<longleftrightarrow> heap_ok w \<and> refs_ok x w \<and> active_ok y w \<and> owners_ok w \<and> lists_ok w \<and> hosts_ok w"

lemmas inv_defs = heap_ok_def refs_ok_def active_ok_def owners_ok_def lists_ok_def hosts_ok_def

lemmas count_defs = olocks_def oshares_def ilocks_def ishares_def

text \<open>What depends only on some fields of the state.\<close>

lemma caller_cong: "lw_owners w' = lw_owners w \<Longrightarrow> caller w' = caller w"
  by (simp add: caller_def fun_eq_iff)

lemma caller_upd [simp]:
  "caller (w\<lparr>lw_locks := a\<rparr>) = caller w" "caller (w\<lparr>lw_shares := b\<rparr>) = caller w"
  "caller (w\<lparr>i_locks := c\<rparr>) = caller w" "caller (w\<lparr>i_shares := c\<rparr>) = caller w"
  "caller (w\<lparr>i_active := d\<rparr>) = caller w" "caller (w\<lparr>nlm4_hosts := e\<rparr>) = caller w"
  "caller (w\<lparr>lw_next := n\<rparr>) = caller w" "caller (w\<lparr>nlm4_owners := f\<rparr>) = caller w"
  by (rule caller_cong, simp)+

lemma refs_ok_same:
  assumes "refs_ok x w" "lw_owners w' = lw_owners w"
    and "\<And>o1. olocks w' o1 + oshares w' o1 + x' o1 = olocks w o1 + oshares w o1 + x o1"
    and "\<And>o1. 0 < x' o1 \<Longrightarrow> lw_owners w o1 \<noteq> None"
  shows "refs_ok x' w'"
  using assms(1,4) unfolding refs_ok_def assms(2,3) by blast

lemma active_ok_same:
  assumes "active_ok y w" "i_active w' = i_active w"
    and "\<And>i. ilocks w' i + ishares w' i + y' i = ilocks w i + ishares w i + y i"
  shows "active_ok y' w'"
  using assms(1) unfolding active_ok_def assms(2,3) .

lemma owners_ok_same:
  assumes "owners_ok w" "lw_owners w' = lw_owners w" "nlm4_owners w' = nlm4_owners w"
  shows "owners_ok w'"
  using assms(1) unfolding owners_ok_def assms(2,3) caller_cong [OF assms(2)] .

lemma hosts_ok_same:
  assumes "hosts_ok w" "nlm4_hosts w' = nlm4_hosts w"
    and "\<And>l n. on_host w' l n = on_host w l n" "\<And>l n. share_on_host w' l n = share_on_host w l n"
  shows "hosts_ok w'"
  using assms(1) unfolding hosts_ok_def assms(2-4) .

lemma inv_piecesD:
  assumes "nlm_inv x y w"
  shows "heap_ok w" "refs_ok x w" "active_ok y w" "owners_ok w" "lists_ok w" "hosts_ok w"
  using assms by (simp_all add: nlm_inv_def)

lemma linked_lock:
  assumes "nlm_inv x y w" "l \<in> set (i_locks w ino)"
  obtains lk lo c where "lw_locks w l = Some lk" "l_inode lk = Some ino" "lw_owners w (l_owner lk) = Some lo"
    "caller w (l_owner lk) = Some c"
proof -
  obtain lk where "lw_locks w l = Some lk" "l_inode lk = Some ino"
    using assms unfolding nlm_inv_def lists_ok_def by blast
  moreover from this obtain lo where "lw_owners w (l_owner lk) = Some lo"
    using assms unfolding nlm_inv_def heap_ok_def by blast
  moreover from this obtain c where "caller w (l_owner lk) = Some c"
    using assms unfolding nlm_inv_def owners_ok_def by blast
  ultimately show thesis using that by blast
qed

lemma linked_share:
  assumes "nlm_inv x y w" "s \<in> set (i_shares w ino)"
  obtains sh lo c where "lw_shares w s = Some sh" "s_inode sh = Some ino" "lw_owners w (s_owner sh) = Some lo"
    "caller w (s_owner sh) = Some c"
proof -
  obtain sh where "lw_shares w s = Some sh" "s_inode sh = Some ino"
    using assms unfolding nlm_inv_def lists_ok_def by blast
  moreover from this obtain lo where "lw_owners w (s_owner sh) = Some lo"
    using assms unfolding nlm_inv_def heap_ok_def by blast
  moreover from this obtain c where "caller w (s_owner sh) = Some c"
    using assms unfolding nlm_inv_def owners_ok_def by blast
  ultimately show thesis using that by blast
qed

section \<open>References to owners\<close>

text \<open>A change of the owner heap that keeps the data of the owners in use.\<close>

definition owners_changed :: "lock_world \<Rightarrow> lock_world \<Rightarrow> bool" where
  "owners_changed w w' \<longleftrightarrow>
     w' = w\<lparr>lw_owners := lw_owners w', nlm4_owners := nlm4_owners w'\<rparr> \<and>
     (\<forall>o1 lo'. lw_owners w' o1 = Some lo' \<longrightarrow> (\<exists>lo. lw_owners w o1 = Some lo \<and> lo_data lo' = lo_data lo))"

lemma owners_changed_fields:
  assumes "owners_changed w w'"
  shows "lw_locks w' = lw_locks w" "lw_shares w' = lw_shares w" "i_locks w' = i_locks w" "i_shares w' = i_shares w"
    "i_active w' = i_active w" "nlm4_hosts w' = nlm4_hosts w" "lw_next w' = lw_next w"
proof -
  have e: "w' = w\<lparr>lw_owners := lw_owners w', nlm4_owners := nlm4_owners w'\<rparr>" using assms by (simp add: owners_changed_def)
  show "lw_locks w' = lw_locks w" "lw_shares w' = lw_shares w" "i_locks w' = i_locks w" "i_shares w' = i_shares w"
    "i_active w' = i_active w" "nlm4_hosts w' = nlm4_hosts w" "lw_next w' = lw_next w"
    by (subst e, simp)+
qed

lemma owners_changed_data:
  assumes "owners_changed w w'" "lw_owners w' o1 = Some lo'"
  obtains lo where "lw_owners w o1 = Some lo" "lo_data lo' = lo_data lo"
  using assms unfolding owners_changed_def by blast

lemma owners_changed_caller:
  assumes "owners_changed w w'" "lw_owners w' o1 \<noteq> None"
  shows "caller w' o1 = caller w o1"
proof -
  obtain lo' where lo': "lw_owners w' o1 = Some lo'" using assms(2) by blast
  from owners_changed_data [OF assms(1) this] show ?thesis using lo' by (metis (no_types) caller_def option.simps(5))
qed

lemma referenced_owner:
  assumes "nlm_inv x y w" "0 < olocks w o1 + oshares w o1"
  shows "lw_owners w o1 \<noteq> None"
proof -
  have "(\<exists>l lk. lw_locks w l = Some lk \<and> l_owner lk = o1) \<or> (\<exists>l sh. lw_shares w l = Some sh \<and> s_owner sh = o1)"
    using assms(2) by (auto simp: count_defs map_count_def card_gt_0_iff)
  then show ?thesis using assms(1) unfolding nlm_inv_def heap_ok_def by blast
qed

lemma owners_changed_inv:
  assumes inv: "nlm_inv x y w" and c: "owners_changed w w'"
    and live: "\<And>o1. 0 < olocks w o1 + oshares w o1 \<Longrightarrow> lw_owners w' o1 \<noteq> None"
    and refs: "refs_ok x' w'" and own: "distinct (nlm4_owners w')" "\<And>o1. o1 \<in> set (nlm4_owners w') \<longleftrightarrow> lw_owners w' o1 \<noteq> None"
  shows "nlm_inv x' y w'"
proof -
  note F = owners_changed_fields [OF c] and C = owners_changed_caller [OF c]
  have sub: "lw_owners w o1 \<noteq> None" if "lw_owners w' o1 \<noteq> None" for o1
    using c that unfolding owners_changed_def by blast
  have fin: "finite (dom (lw_locks w))" "finite (dom (lw_shares w))" using inv by (auto simp: nlm_inv_def heap_ok_def)
  have lk: "lw_owners w' (l_owner lk) \<noteq> None" if "lw_locks w l = Some lk" for l lk
    using live [of "l_owner lk"] map_count_pos [OF fin(1) that, of "\<lambda>v. l_owner v = l_owner lk"] by (simp add: olocks_def)
  have sh: "lw_owners w' (s_owner s1) \<noteq> None" if "lw_shares w l = Some s1" for l s1
    using live [of "s_owner s1"] map_count_pos [OF fin(2) that, of "\<lambda>v. s_owner v = s_owner s1"] by (simp add: oshares_def)
  have fresh: "lw_owners w' k = None \<and> lw_locks w k = None \<and> lw_shares w k = None" if "lw_next w \<le> k" for k
    using inv sub that unfolding nlm_inv_def heap_ok_def by blast
  have "heap_ok w'" unfolding heap_ok_def F using fin lk sh fresh by blast
  moreover have "active_ok y w'" using inv F by (simp add: nlm_inv_def active_ok_def count_defs)
  moreover have "owners_ok w'"
  proof -
    have "caller w' o1 \<noteq> None" if "lw_owners w' o1 \<noteq> None" for o1
      using C [OF that] inv sub [OF that] unfolding nlm_inv_def owners_ok_def by metis
    moreover have "o1 = o2" if "lw_owners w' o1 = Some lo1" "lw_owners w' o2 = Some lo2" "lo_data lo1 = lo_data lo2" for o1 o2 lo1 lo2
      using owners_changed_data [OF c that(1)] owners_changed_data [OF c that(2)] that(3) inv
      unfolding nlm_inv_def owners_ok_def by metis
    ultimately show ?thesis using own unfolding owners_ok_def by blast
  qed
  moreover have "lists_ok w'" using inv F by (simp add: nlm_inv_def lists_ok_def)
  moreover have "hosts_ok w'"
  proof -
    have "on_host w' l n = on_host w l n" for l n
      unfolding on_host_def F using C lk by metis
    moreover have "share_on_host w' l n = share_on_host w l n" for l n
      unfolding share_on_host_def F using C sh by metis
    ultimately show ?thesis using inv F by (simp add: nlm_inv_def hosts_ok_def)
  qed
  ultimately show ?thesis using refs by (simp add: nlm_inv_def)
qed

lemma refs_okD:
  assumes "nlm_inv x y w" "lw_owners w o1 = Some lo"
  shows "0 < lo_ref lo" "lo_ref lo = olocks w o1 + oshares w o1 + x o1"
  using assms unfolding nlm_inv_def refs_ok_def by blast+

lemma held_owner: "nlm_inv x y w \<Longrightarrow> 0 < x o1 \<Longrightarrow> lw_owners w o1 \<noteq> None"
  unfolding nlm_inv_def refs_ok_def by blast

lemma owners_listed:
  assumes "nlm_inv x y w"
  shows "distinct (nlm4_owners w)" "o1 \<in> set (nlm4_owners w) \<longleftrightarrow> lw_owners w o1 \<noteq> None"
  using assms unfolding nlm_inv_def owners_ok_def by blast+

lemma lock_owner_get_inv:
  assumes inv: "nlm_inv x y w" and lo: "lw_owners w o1 = Some lo"
  obtains w' where "lock_owner_get w o1 = Some w'" "nlm_inv (x(o1 := x o1 + 1)) y w'" "owners_changed w w'"
proof -
  let ?x = "x(o1 := x o1 + 1)"
  define w' where "w' = w\<lparr>lw_owners := (lw_owners w)(o1 \<mapsto> lo\<lparr>lo_ref := lo_ref lo + 1\<rparr>)\<rparr>"
  have c: "owners_changed w w'" using lo by (auto simp: owners_changed_def w'_def)
  note F = owners_changed_fields [OF c]
  have cnt: "olocks w' = olocks w" "oshares w' = oshares w" by (rule ext, simp add: count_defs F)+
  have alive: "lw_owners w' o2 \<noteq> None \<longleftrightarrow> lw_owners w o2 \<noteq> None" for o2 using lo by (simp add: w'_def)
  have r: "refs_ok ?x w'"
  proof -
    have "0 < lo_ref lo2 \<and> lo_ref lo2 = olocks w o2 + oshares w o2 + ?x o2" if "lw_owners w' o2 = Some lo2" for o2 lo2
      using that refs_okD [OF inv, of o2] refs_okD [OF inv lo] by (cases "o2 = o1") (auto simp: w'_def)
    moreover have "lw_owners w' o2 \<noteq> None" if "0 < ?x o2" for o2
      using that held_owner [OF inv, of o2] lo unfolding alive by (cases "o2 = o1") auto
    ultimately show ?thesis unfolding refs_ok_def cnt by blast
  qed
  have live: "lw_owners w' o2 \<noteq> None" if "0 < olocks w o2 + oshares w o2" for o2
    unfolding alive by (rule referenced_owner [OF inv that])
  have "nlm4_owners w' = nlm4_owners w" by (simp add: w'_def)
  then have "nlm_inv ?x y w'"
    using owners_changed_inv [OF inv c live r] owners_listed [OF inv] unfolding alive by metis
  moreover have "lock_owner_get w o1 = Some w'" using lo by (simp add: lock_owner_get_def w'_def)
  ultimately show thesis using that c by blast
qed

lemma lock_owner_put_inv:
  assumes inv: "nlm_inv x y w" and x: "0 < x o1"
  obtains w' where "lock_owner_put w o1 = Some w'" "nlm_inv (x(o1 := x o1 - 1)) y w'" "owners_changed w w'"
proof -
  obtain lo where lo: "lw_owners w o1 = Some lo" using held_owner [OF inv x] by blast
  note R = refs_okD [OF inv lo]
  have data: "\<exists>a b c. lo_data lo = Nlm4Owner a b c"
  proof -
    have "caller w o1 \<noteq> None" using inv lo unfolding nlm_inv_def owners_ok_def by blast
    then show ?thesis using lo by (simp add: caller_def split: lo_data.splits)
  qed
  let ?x = "x(o1 := x o1 - 1)"
  define w' where "w' = (if lo_ref lo = 1
     then w\<lparr>nlm4_owners := remove1 o1 (nlm4_owners w), lw_owners := (lw_owners w)(o1 := None)\<rparr>
     else w\<lparr>lw_owners := (lw_owners w)(o1 \<mapsto> lo\<lparr>lo_ref := lo_ref lo - 1\<rparr>)\<rparr>)"
  have c: "owners_changed w w'" using lo by (auto simp: owners_changed_def w'_def)
  note F = owners_changed_fields [OF c]
  have cnt: "olocks w' = olocks w" "oshares w' = oshares w" by (rule ext, simp add: count_defs F)+
  have alive: "lw_owners w' o2 \<noteq> None \<longleftrightarrow> lw_owners w o2 \<noteq> None \<and> \<not> (o2 = o1 \<and> lo_ref lo = 1)" for o2
    using lo by (simp add: w'_def)
  have r: "refs_ok ?x w'"
  proof -
    have "0 < lo_ref lo2 \<and> lo_ref lo2 = olocks w o2 + oshares w o2 + ?x o2" if "lw_owners w' o2 = Some lo2" for o2 lo2
      using that refs_okD [OF inv, of o2] R x by (cases "o2 = o1") (auto simp: w'_def split: if_splits)
    moreover have "lw_owners w' o2 \<noteq> None" if "0 < ?x o2" for o2
      using that held_owner [OF inv, of o2] R unfolding alive by (cases "o2 = o1") auto
    ultimately show ?thesis unfolding refs_ok_def cnt by blast
  qed
  have live: "lw_owners w' o2 \<noteq> None" if "0 < olocks w o2 + oshares w o2" for o2
    using referenced_owner [OF inv that] that R x unfolding alive by auto
  have "distinct (nlm4_owners w')" using owners_listed(1) [OF inv] by (simp add: w'_def)
  moreover have "o2 \<in> set (nlm4_owners w') \<longleftrightarrow> lw_owners w' o2 \<noteq> None" for o2
    using owners_listed(1) [OF inv] owners_listed(2) [OF inv, of o2] lo by (auto simp: w'_def)
  ultimately have "nlm_inv ?x y w'" using owners_changed_inv [OF inv c live r] by blast
  moreover have "lock_owner_put w o1 = Some w'"
    using lo R data by (auto simp: lock_owner_put_def lo_release_def w'_def)
  ultimately show thesis using that c by blast
qed

section \<open>References to inodes\<close>

lemma inv_pieces_active [simp]:
  "heap_ok (w\<lparr>i_active := a\<rparr>) = heap_ok w" "refs_ok x (w\<lparr>i_active := a\<rparr>) = refs_ok x w"
  "owners_ok (w\<lparr>i_active := a\<rparr>) = owners_ok w" "lists_ok (w\<lparr>i_active := a\<rparr>) = lists_ok w"
  "hosts_ok (w\<lparr>i_active := a\<rparr>) = hosts_ok w"
  by (simp_all add: inv_defs count_defs on_host_def share_on_host_def)

lemma active_okD:
  "nlm_inv x y w \<Longrightarrow> 0 < ilocks w ino + ishares w ino + y ino \<Longrightarrow> int (ilocks w ino + ishares w ino + y ino) \<le> i_active w ino"
  unfolding nlm_inv_def active_ok_def by presburger

lemma inode_active_get_inv:
  assumes inv: "nlm_inv x y w"
  obtains (gone) "inode_active_get w (Some ino) = (None, w)" "ilocks w ino + ishares w ino + y ino = 0"
    | (got) "inode_active_get w (Some ino) = (Some ino, w\<lparr>i_active := (i_active w)(ino := i_active w ino + 1)\<rparr>)"
       "nlm_inv x (y(ino := y ino + 1)) (w\<lparr>i_active := (i_active w)(ino := i_active w ino + 1)\<rparr>)"
proof (cases "i_active w ino < 0")
  case True
  have "\<not> 0 < ilocks w ino + ishares w ino + y ino"
    using active_okD [OF inv, of ino] True by linarith
  then show thesis using True gone by (simp add: inode_active_get_def)
next
  case False
  let ?w = "w\<lparr>i_active := (i_active w)(ino := i_active w ino + 1)\<rparr>"
  have cnt: "ilocks ?w = ilocks w" "ishares ?w = ishares w" by (rule ext, simp add: count_defs)+
  have "active_ok (y(ino := y ino + 1)) ?w"
    unfolding active_ok_def cnt
  proof (intro allI impI)
    fix i assume p: "0 < ilocks w i + ishares w i + (y(ino := y ino + 1)) i"
    show "int (ilocks w i + ishares w i + (y(ino := y ino + 1)) i) \<le> i_active ?w i"
      using p False active_okD [OF inv, of i] by (cases "i = ino"; cases "ilocks w i + ishares w i + y i = 0") auto
  qed
  then show thesis using inv False got by (simp add: inode_active_get_def nlm_inv_def)
qed

lemma inode_active_put_inv:
  assumes inv: "nlm_inv x y w" and y: "0 < y ino"
  shows "nlm_inv x (y(ino := y ino - 1)) (inode_active_put w (Some ino))"
proof -
  let ?w = "w\<lparr>i_active := (i_active w)(ino := i_active w ino - 1)\<rparr>"
  have cnt: "ilocks ?w = ilocks w" "ishares ?w = ishares w" by (rule ext, simp add: count_defs)+
  have "active_ok (y(ino := y ino - 1)) ?w"
    unfolding active_ok_def cnt
  proof (intro allI impI)
    fix i assume p: "0 < ilocks w i + ishares w i + (y(ino := y ino - 1)) i"
    show "int (ilocks w i + ishares w i + (y(ino := y ino - 1)) i) \<le> i_active ?w i"
      using p y active_okD [OF inv, of i] by (cases "i = ino") auto
  qed
  then show ?thesis using inv by (simp add: inode_active_put_def nlm_inv_def)
qed

section \<open>Lock objects\<close>

definition add_ref :: "nat option \<Rightarrow> (nat \<Rightarrow> nat) \<Rightarrow> nat \<Rightarrow> nat" where
  "add_ref i y = (case i of None \<Rightarrow> y | Some ino \<Rightarrow> y(ino := y ino + 1))"

definition drop_ref :: "nat option \<Rightarrow> (nat \<Rightarrow> nat) \<Rightarrow> nat \<Rightarrow> nat" where
  "drop_ref i y = (case i of None \<Rightarrow> y | Some ino \<Rightarrow> y(ino := y ino - 1))"

lemma drop_add_ref [simp]: "drop_ref i (add_ref i y) = y"
  by (simp add: add_ref_def drop_ref_def split: option.splits)

definition unlinked :: "lock_world \<Rightarrow> nat \<Rightarrow> bool" where
  "unlinked w l \<longleftrightarrow> (\<forall>ino. l \<notin> set (i_locks w ino))"

lemma fresh_unlinked:
  assumes "nlm_inv x y w"
  shows "lw_locks w (lw_next w) = None" "lw_shares w (lw_next w) = None" "lw_owners w (lw_next w) = None"
    "unlinked w (lw_next w)" "lw_next w \<notin> set (i_shares w ino)"
proof -
  show n: "lw_locks w (lw_next w) = None" "lw_shares w (lw_next w) = None" "lw_owners w (lw_next w) = None"
    using assms unfolding nlm_inv_def heap_ok_def by auto
  show "unlinked w (lw_next w)" using n(1) linked_lock [OF assms] unfolding unlinked_def by (metis option.distinct(1))
  show "lw_next w \<notin> set (i_shares w ino)" using n(2) linked_share [OF assms] by (metis option.distinct(1))
qed

text \<open>Changing the contents of one lock, but not its owner or inode.\<close>

lemma lock_modify_inv:
  assumes inv: "nlm_inv x y w" and l: "lw_locks w l = Some lk"
    and same: "l_owner lk' = l_owner lk" "l_inode lk' = l_inode lk"
  shows "nlm_inv x y (w\<lparr>lw_locks := (lw_locks w)(l \<mapsto> lk')\<rparr>)"
proof -
  let ?w = "w\<lparr>lw_locks := (lw_locks w)(l \<mapsto> lk')\<rparr>"
  have c: "olocks ?w o1 = olocks w o1" "oshares ?w o1 = oshares w o1" "ilocks ?w i = ilocks w i" "ishares ?w i = ishares w i"
    for o1 i using map_count_update [where m = "lw_locks w" and k = l and v = lk and v' = lk', OF l] same
    by (simp_all add: count_defs)
  note I = inv_piecesD [OF inv]
  have "heap_ok ?w" using I(1) l same unfolding heap_ok_def by auto
  moreover have "refs_ok x ?w" by (rule refs_ok_same [OF I(2)]) (use c held_owner [OF inv] in auto)
  moreover have "active_ok y ?w" by (rule active_ok_same [OF I(3)]) (use c in auto)
  moreover have "owners_ok ?w" by (rule owners_ok_same [OF I(4)]) auto
  moreover have "lists_ok ?w" using I(5) l same(2) unfolding lists_ok_def by fastforce
  moreover have "hosts_ok ?w"
    by (rule hosts_ok_same [OF I(6)]) (use l same(1) in \<open>auto simp: on_host_def share_on_host_def\<close>)
  ultimately show ?thesis by (simp add: nlm_inv_def)
qed

lemma lock_alloc_inv:
  assumes inv: "nlm_inv x y w" and x: "0 < x (l_owner lk)" and yi: "\<And>ino. l_inode lk = Some ino \<Longrightarrow> 0 < y ino"
  shows "nlm_inv (x(l_owner lk := x (l_owner lk) - 1)) (drop_ref (l_inode lk) y)
    (w\<lparr>lw_next := lw_next w + 1, lw_locks := (lw_locks w)(lw_next w \<mapsto> lk)\<rparr>)" (is "nlm_inv ?x ?y ?w")
proof -
  note f = fresh_unlinked [OF inv]
  have fin: "finite (dom (lw_locks w))" using inv by (simp add: nlm_inv_def heap_ok_def)
  note cnt = map_count_insert [OF fin f(1)]
  have c: "olocks ?w o1 = olocks w o1 + (if l_owner lk = o1 then 1 else 0)" "oshares ?w o1 = oshares w o1"
    "ilocks ?w ino = ilocks w ino + (if l_inode lk = Some ino then 1 else 0)" "ishares ?w ino = ishares w ino" for o1 ino
    using cnt by (simp_all add: count_defs)
  have own: "lw_owners w (l_owner lk) \<noteq> None" by (rule held_owner [OF inv x])
  note I = inv_piecesD [OF inv]
  have "heap_ok ?w" using I(1) own unfolding heap_ok_def by auto
  moreover have "refs_ok ?x ?w"
    by (rule refs_ok_same [OF I(2)]) (use c x held_owner [OF inv] in \<open>auto split: if_splits\<close>)
  moreover have "active_ok ?y ?w"
    by (rule active_ok_same [OF I(3)]) (use c yi in \<open>auto simp: drop_ref_def split: option.splits\<close>)
  moreover have "owners_ok ?w" by (rule owners_ok_same [OF I(4)]) auto
  moreover have "lists_ok ?w"
  proof -
    have "lw_locks ?w l = lw_locks w l" if "l \<in> set (i_locks w ino)" for l ino
      using that f(4) by (auto simp: unlinked_def)
    then show ?thesis using I(5) by (simp add: lists_ok_def)
  qed
  moreover have "hosts_ok ?w"
    by (rule hosts_ok_same [OF I(6)]) (use f(4) in \<open>auto simp: on_host_def share_on_host_def unlinked_def\<close>)
  ultimately show ?thesis by (simp add: nlm_inv_def)
qed

text \<open>Removing an unlinked lock from the heap hands its references back to the operation.\<close>

lemma lock_delete_inv:
  assumes inv: "nlm_inv x y w" and l: "lw_locks w l = Some lk" and u: "unlinked w l"
  shows "nlm_inv (x(l_owner lk := x (l_owner lk) + 1)) (add_ref (l_inode lk) y)
    (w\<lparr>lw_locks := (lw_locks w)(l := None)\<rparr>)" (is "nlm_inv ?x ?y ?w")
proof -
  have fin: "finite (dom (lw_locks w))" using inv by (simp add: nlm_inv_def heap_ok_def)
  note cnt = map_count_delete [where k = l and v = lk, OF fin l]
  have c: "olocks w o1 = olocks ?w o1 + (if l_owner lk = o1 then 1 else 0)" "oshares ?w o1 = oshares w o1"
    "ilocks w ino = ilocks ?w ino + (if l_inode lk = Some ino then 1 else 0)" "ishares ?w ino = ishares w ino" for o1 ino
    using cnt by (simp_all add: count_defs)
  note I = inv_piecesD [OF inv]
  have own: "lw_owners w (l_owner lk) \<noteq> None" using I(1) l unfolding heap_ok_def by blast
  have "heap_ok ?w" using I(1) unfolding heap_ok_def by auto
  moreover have "refs_ok ?x ?w"
    by (rule refs_ok_same [OF I(2)]) (use c(2) c(1) own held_owner [OF inv] in \<open>auto split: if_splits\<close>)
  moreover have "active_ok ?y ?w"
    by (rule active_ok_same [OF I(3)]) (use c(3,4) in \<open>auto simp: add_ref_def split: option.splits\<close>)
  moreover have "owners_ok ?w" by (rule owners_ok_same [OF I(4)]) auto
  moreover have "lists_ok ?w"
  proof -
    have "lw_locks ?w k = lw_locks w k" if "k \<in> set (i_locks w ino)" for k ino
      using that u by (auto simp: unlinked_def)
    then show ?thesis using I(5) by (simp add: lists_ok_def)
  qed
  moreover have "hosts_ok ?w"
    by (rule hosts_ok_same [OF I(6)]) (use u in \<open>auto simp: on_host_def share_on_host_def unlinked_def\<close>)
  ultimately show ?thesis by (simp add: nlm_inv_def)
qed

lemma lock_owner_put_commute:
  "lock_owner_put (w\<lparr>lw_locks := m\<rparr>) o1 = map_option (\<lambda>w. w\<lparr>lw_locks := m\<rparr>) (lock_owner_put w o1)"
  "lock_owner_put (w\<lparr>lw_shares := m'\<rparr>) o1 = map_option (\<lambda>w. w\<lparr>lw_shares := m'\<rparr>) (lock_owner_put w o1)"
  by (cases "lw_owners w o1"; simp add: lock_owner_put_def lo_release_def split: lo_data.splits)+

lemma lock_owner_put_heaps:
  "lock_owner_put w o1 = Some w' \<Longrightarrow> lw_locks w' = lw_locks w \<and> lw_shares w' = lw_shares w"
  by (cases "lw_owners w o1") (auto simp: lock_owner_put_def lo_release_def split: lo_data.splits if_splits)

text \<open>What a release of references leaves unchanged: everything but owners and activity counts.\<close>

definition lists_same :: "lock_world \<Rightarrow> lock_world \<Rightarrow> bool" where
  "lists_same w w' \<longleftrightarrow> i_locks w' = i_locks w \<and> i_shares w' = i_shares w \<and> nlm4_hosts w' = nlm4_hosts w
     \<and> lw_next w' = lw_next w \<and> (\<forall>o1. lw_owners w' o1 \<noteq> None \<longrightarrow> caller w' o1 = caller w o1 \<and> lw_owners w o1 \<noteq> None)"

lemma reffs_lock_free_inv:
  assumes inv: "nlm_inv x y w" and l: "lw_locks w l = Some lk" and u: "unlinked w l"
  obtains w' where "reffs_lock_free w l = Some w'" "nlm_inv x y w'" "lists_same w w'"
    "lw_locks w' = (lw_locks w)(l := None)" "lw_shares w' = lw_shares w"
proof -
  let ?d = "w\<lparr>lw_locks := (lw_locks w)(l := None)\<rparr>"
  note d = lock_delete_inv [OF inv l u]
  have p: "nlm_inv (x(l_owner lk := x (l_owner lk) + 1)) y (inode_active_put ?d (l_inode lk))"
  proof (cases "l_inode lk")
    case None
    then show ?thesis using d by (simp add: add_ref_def inode_active_put_def)
  next
    case (Some ino)
    then show ?thesis using inode_active_put_inv [OF d, of ino] by (simp add: add_ref_def)
  qed
  then obtain w' where w': "lock_owner_put (inode_active_put ?d (l_inode lk)) (l_owner lk) = Some w'"
    "nlm_inv x y w'" "owners_changed (inode_active_put ?d (l_inode lk)) w'"
    using lock_owner_put_inv [OF p, of "l_owner lk"] by auto
  have comm: "inode_active_put ?d (l_inode lk) = (inode_active_put w (l_inode lk))\<lparr>lw_locks := (lw_locks w)(l := None)\<rparr>"
    by (simp add: inode_active_put_def split: option.splits)
  obtain z where z: "lock_owner_put (inode_active_put w (l_inode lk)) (l_owner lk) = Some z"
    "w' = z\<lparr>lw_locks := (lw_locks w)(l := None)\<rparr>"
    using w'(1) unfolding comm lock_owner_put_commute(1) by auto
  have "lw_locks z = lw_locks w"
    using lock_owner_put_heaps [OF z(1)] by (simp add: inode_active_put_def split: option.splits)
  then have "reffs_lock_free w l = Some w'" using z l by (simp add: reffs_lock_free_def)
  moreover have "lists_same w w'" "lw_locks w' = (lw_locks w)(l := None)" "lw_shares w' = lw_shares w"
  proof -
    have f: "i_locks (inode_active_put ?d i) = i_locks w" "i_shares (inode_active_put ?d i) = i_shares w"
      "nlm4_hosts (inode_active_put ?d i) = nlm4_hosts w" "lw_next (inode_active_put ?d i) = lw_next w"
      "lw_owners (inode_active_put ?d i) = lw_owners w" "caller (inode_active_put ?d i) = caller w"
      "lw_locks (inode_active_put ?d i) = (lw_locks w)(l := None)" "lw_shares (inode_active_put ?d i) = lw_shares w" for i
      by (simp_all add: inode_active_put_def split: option.splits)
    note F = owners_changed_fields [OF w'(3), unfolded f] and C = owners_changed_caller [OF w'(3), unfolded f]
    show "lw_locks w' = (lw_locks w)(l := None)" "lw_shares w' = lw_shares w" by (fact F)+
    have "lw_owners w o1 \<noteq> None" if "lw_owners w' o1 \<noteq> None" for o1
      using w'(3) that unfolding owners_changed_def f by blast
    then show "lists_same w w'" using F C by (simp add: lists_same_def)
  qed
  ultimately show thesis using w'(2) that by blast
qed

lemma host_del_lock_Some:
  assumes inv: "nlm_inv x y w" and l: "l \<in> set (i_locks w ino)"
  shows "host_del_lock w' l = (if nlm4_hosts w' = nlm4_hosts w then
     Some (w'\<lparr>nlm4_hosts := map (\<lambda>host. host\<lparr>h_locks := removeAll l (h_locks host)\<rparr>) (nlm4_hosts w)\<rparr>) else host_del_lock w' l)"
proof -
  obtain lk lo c where "lw_locks w l = Some lk" "caller w (l_owner lk) = Some c" by (rule linked_lock [OF inv l])
  then have "on_host w l c" using l by (auto simp: on_host_def)
  then have "list_ex (\<lambda>host. l \<in> set (h_locks host)) (nlm4_hosts w)"
    using inv_piecesD(6) [OF inv] unfolding hosts_ok_def list_ex_iff by (metis imageE)
  then show ?thesis by (simp add: host_del_lock_def)
qed

definition unlink_lock :: "lock_world \<Rightarrow> nat \<Rightarrow> nat \<Rightarrow> lock_world" where
  "unlink_lock w ino l = w\<lparr>i_locks := (i_locks w)(ino := remove1 l (i_locks w ino)),
     nlm4_hosts := map (\<lambda>host. host\<lparr>h_locks := removeAll l (h_locks host)\<rparr>) (nlm4_hosts w)\<rparr>"

lemma unlink_lock_inv:
  assumes inv: "nlm_inv x y w" and l: "l \<in> set (i_locks w ino)"
  shows "nlm_inv x y (unlink_lock w ino l)" "unlinked (unlink_lock w ino l) l"
proof -
  let ?w = "unlink_lock w ino l"
  note I = inv_piecesD [OF inv]
  have d: "distinct (i_locks w i)" for i using I(5) by (simp add: lists_ok_def)
  have only: "i = ino" if "l \<in> set (i_locks w i)" for i
    using linked_lock [OF inv that] linked_lock [OF inv l] by (metis option.inject)
  show u: "unlinked ?w l" using only d by (auto simp: unlinked_def unlink_lock_def)
  have f: "lw_owners ?w = lw_owners w" "lw_locks ?w = lw_locks w" "lw_shares ?w = lw_shares w" "lw_next ?w = lw_next w"
    "i_active ?w = i_active w" "nlm4_owners ?w = nlm4_owners w" "i_shares ?w = i_shares w" "caller ?w = caller w"
    by (simp_all add: unlink_lock_def)
  have il: "set (i_locks ?w i) = set (i_locks w i) - {l}" for i
    using only d by (auto simp: unlink_lock_def)
  have "heap_ok ?w" using I(1) unfolding heap_ok_def f .
  moreover have "refs_ok x ?w" by (rule refs_ok_same [OF I(2) f(1)]) (use held_owner [OF inv] in \<open>auto simp: count_defs f\<close>)
  moreover have "active_ok y ?w" by (rule active_ok_same [OF I(3) f(5)]) (auto simp: count_defs f)
  moreover have "owners_ok ?w" by (rule owners_ok_same [OF I(4) f(1,6)])
  moreover have "lists_ok ?w"
    using I(5) d unfolding lists_ok_def f il by (auto simp: unlink_lock_def)
  moreover have "hosts_ok ?w"
  proof -
    have on: "on_host ?w k n = (k \<noteq> l \<and> on_host w k n)" "share_on_host ?w k n = share_on_host w k n" for k n
      unfolding on_host_def share_on_host_def f il by auto
    have h: "map h_name (nlm4_hosts ?w) = map h_name (nlm4_hosts w)" by (simp add: unlink_lock_def)
    then have hs: "h_name ` set (nlm4_hosts ?w) = h_name ` set (nlm4_hosts w)" by (metis set_map)
    have each: "distinct (h_locks h) \<and> distinct (h_shares h) \<and> (\<forall>k. k \<in> set (h_locks h) \<longleftrightarrow> on_host ?w k (h_name h))
       \<and> (\<forall>s. s \<in> set (h_shares h) \<longleftrightarrow> share_on_host ?w s (h_name h))" if "h \<in> set (nlm4_hosts ?w)" for h
    proof -
      from that obtain h0 where "h0 \<in> set (nlm4_hosts w)" "h = h0\<lparr>h_locks := removeAll l (h_locks h0)\<rparr>"
        by (auto simp: unlink_lock_def)
      then show ?thesis using I(6) unfolding hosts_ok_def on by (auto simp: distinct_removeAll)
    qed
    show ?thesis using I(6) each unfolding hosts_ok_def h hs on(2) unfolding on(1) by blast
  qed
  ultimately show "nlm_inv x y ?w" by (simp add: nlm_inv_def)
qed

lemma link_lock_inv:
  assumes inv: "nlm_inv x y w" and l: "lw_locks w l = Some lk" "l_inode lk = Some ino" and u: "unlinked w l"
    and ls: "distinct ls" "set ls = insert l (set (i_locks w ino))"
    and c: "caller w (l_owner lk) = Some h" "h \<in> h_name ` set (nlm4_hosts w)"
  shows "nlm_inv x y (host_add_lock (w\<lparr>i_locks := (i_locks w)(ino := ls)\<rparr>) h l)"
proof -
  let ?w = "host_add_lock (w\<lparr>i_locks := (i_locks w)(ino := ls)\<rparr>) h l"
  note I = inv_piecesD [OF inv]
  have f: "lw_owners ?w = lw_owners w" "lw_locks ?w = lw_locks w" "lw_shares ?w = lw_shares w" "lw_next ?w = lw_next w"
    "i_active ?w = i_active w" "nlm4_owners ?w = nlm4_owners w" "i_shares ?w = i_shares w" "caller ?w = caller w"
    "i_locks ?w = (i_locks w)(ino := ls)"
    by (simp_all add: host_add_lock_def)
  have "heap_ok ?w" using I(1) unfolding heap_ok_def f .
  moreover have "refs_ok x ?w" by (rule refs_ok_same [OF I(2) f(1)]) (use held_owner [OF inv] in \<open>auto simp: count_defs f\<close>)
  moreover have "active_ok y ?w" by (rule active_ok_same [OF I(3) f(5)]) (auto simp: count_defs f)
  moreover have "owners_ok ?w" by (rule owners_ok_same [OF I(4) f(1,6)])
  moreover have "lists_ok ?w"
    using I(5) ls l unfolding lists_ok_def f by auto
  moreover have "hosts_ok ?w"
  proof -
    have on: "on_host ?w k n = (k = l \<and> n = h \<or> on_host w k n)" "share_on_host ?w k n = share_on_host w k n" for k n
      unfolding on_host_def share_on_host_def f using l(1) ls(2) c(1) by (auto split: if_splits)
    have nl: "\<not> on_host w l n" for n using u by (simp add: on_host_def unlinked_def)
    have h: "map h_name (nlm4_hosts ?w) = map h_name (nlm4_hosts w)" by (simp add: host_add_lock_def)
    then have hs: "h_name ` set (nlm4_hosts ?w) = h_name ` set (nlm4_hosts w)" by (metis set_map)
    have each: "distinct (h_locks h1) \<and> distinct (h_shares h1) \<and> (\<forall>k. k \<in> set (h_locks h1) \<longleftrightarrow> on_host ?w k (h_name h1))
       \<and> (\<forall>s. s \<in> set (h_shares h1) \<longleftrightarrow> share_on_host ?w s (h_name h1))" if "h1 \<in> set (nlm4_hosts ?w)" for h1
    proof -
      from that obtain h0 where h0: "h0 \<in> set (nlm4_hosts w)"
        "h1 = (if h_name h0 = h then h0\<lparr>h_locks := l # h_locks h0\<rparr> else h0)"
        by (auto simp: host_add_lock_def)
      have "distinct (h_locks h0) \<and> distinct (h_shares h0) \<and> (\<forall>k. k \<in> set (h_locks h0) \<longleftrightarrow> on_host w k (h_name h0))
       \<and> (\<forall>s. s \<in> set (h_shares h0) \<longleftrightarrow> share_on_host w s (h_name h0))" using I(6) h0(1) unfolding hosts_ok_def by blast
      then show ?thesis using h0(2) nl unfolding on by auto
    qed
    show ?thesis using I(6) each c(2) unfolding hosts_ok_def h hs on(2) unfolding on(1) by blast
  qed
  ultimately show ?thesis by (simp add: nlm_inv_def)
qed

end
