(* ===== verification/NlmShares.thy ===== *)
theory NlmShares
  imports NlmSafety
begin

text \<open>
  The share half of the invariant of theory \<open>NlmSafety\<close>: allocation, change, release, linking and
  unlinking of share objects.
\<close>

definition s_unlinked :: "lock_world \<Rightarrow> nat \<Rightarrow> bool" where
  "s_unlinked w s \<longleftrightarrow> (\<forall>ino. s \<notin> set (i_shares w ino))"

lemma fresh_s_unlinked:
  assumes "nlm_inv x y w"
  shows "lw_shares w (lw_next w) = None" "lw_locks w (lw_next w) = None" "lw_owners w (lw_next w) = None"
    "s_unlinked w (lw_next w)"
  using fresh_unlinked [OF assms] by (simp_all add: s_unlinked_def)

text \<open>Changing the contents of one share, but not its owner or inode.\<close>

lemma share_modify_inv:
  assumes inv: "nlm_inv x y w" and l: "lw_shares w l = Some lk"
    and same: "s_owner lk' = s_owner lk" "s_inode lk' = s_inode lk"
  shows "nlm_inv x y (w\<lparr>lw_shares := (lw_shares w)(l \<mapsto> lk')\<rparr>)"
proof -
  let ?w = "w\<lparr>lw_shares := (lw_shares w)(l \<mapsto> lk')\<rparr>"
  have c: "oshares ?w o1 = oshares w o1" "olocks ?w o1 = olocks w o1" "ishares ?w i = ishares w i" "ilocks ?w i = ilocks w i"
    for o1 i using map_count_update [where m = "lw_shares w" and k = l and v = lk and v' = lk', OF l] same
    by (simp_all add: count_defs)
  note I = inv_piecesD [OF inv]
  have "heap_ok ?w" using I(1) l same unfolding heap_ok_def by auto
  moreover have "refs_ok x ?w" by (rule refs_ok_same [OF I(2)]) (use c held_owner [OF inv] in auto)
  moreover have "active_ok y ?w" by (rule active_ok_same [OF I(3)]) (use c in auto)
  moreover have "owners_ok ?w" by (rule owners_ok_same [OF I(4)]) auto
  moreover have "lists_ok ?w" using I(5) l same(2) unfolding lists_ok_def by fastforce
  moreover have "hosts_ok ?w"
    by (rule hosts_ok_same [OF I(6)]) (use l same(1) in \<open>auto simp: on_host_def share_on_host_def\<close>)
  ultimately show ?thesis by (simp add: nlm_inv_def)
qed

lemma share_alloc_inv:
  assumes inv: "nlm_inv x y w" and x: "0 < x (s_owner lk)" and yi: "\<And>ino. s_inode lk = Some ino \<Longrightarrow> 0 < y ino"
  shows "nlm_inv (x(s_owner lk := x (s_owner lk) - 1)) (drop_ref (s_inode lk) y)
    (w\<lparr>lw_next := lw_next w + 1, lw_shares := (lw_shares w)(lw_next w \<mapsto> lk)\<rparr>)" (is "nlm_inv ?x ?y ?w")
proof -
  note f = fresh_s_unlinked [OF inv]
  have fin: "finite (dom (lw_shares w))" using inv by (simp add: nlm_inv_def heap_ok_def)
  note cnt = map_count_insert [OF fin f(1)]
  have c: "oshares ?w o1 = oshares w o1 + (if s_owner lk = o1 then 1 else 0)" "olocks ?w o1 = olocks w o1"
    "ishares ?w ino = ishares w ino + (if s_inode lk = Some ino then 1 else 0)" "ilocks ?w ino = ilocks w ino" for o1 ino
    using cnt by (simp_all add: count_defs)
  have own: "lw_owners w (s_owner lk) \<noteq> None" by (rule held_owner [OF inv x])
  note I = inv_piecesD [OF inv]
  have "heap_ok ?w" using I(1) own unfolding heap_ok_def by auto
  moreover have "refs_ok ?x ?w"
    by (rule refs_ok_same [OF I(2)]) (use c x held_owner [OF inv] in \<open>auto split: if_splits\<close>)
  moreover have "active_ok ?y ?w"
    by (rule active_ok_same [OF I(3)]) (use c yi in \<open>auto simp: drop_ref_def split: option.splits\<close>)
  moreover have "owners_ok ?w" by (rule owners_ok_same [OF I(4)]) auto
  moreover have "lists_ok ?w"
  proof -
    have "lw_shares ?w l = lw_shares w l" if "l \<in> set (i_shares w ino)" for l ino
      using that f(4) by (auto simp: s_unlinked_def)
    then show ?thesis using I(5) by (simp add: lists_ok_def)
  qed
  moreover have "hosts_ok ?w"
    by (rule hosts_ok_same [OF I(6)]) (use f(4) in \<open>auto simp: on_host_def share_on_host_def s_unlinked_def\<close>)
  ultimately show ?thesis by (simp add: nlm_inv_def)
qed

text \<open>Removing an unlinked share from the heap hands its references back to the operation.\<close>

lemma share_delete_inv:
  assumes inv: "nlm_inv x y w" and l: "lw_shares w l = Some lk" and u: "s_unlinked w l"
  shows "nlm_inv (x(s_owner lk := x (s_owner lk) + 1)) (add_ref (s_inode lk) y)
    (w\<lparr>lw_shares := (lw_shares w)(l := None)\<rparr>)" (is "nlm_inv ?x ?y ?w")
proof -
  have fin: "finite (dom (lw_shares w))" using inv by (simp add: nlm_inv_def heap_ok_def)
  note cnt = map_count_delete [where k = l and v = lk, OF fin l]
  have c: "oshares w o1 = oshares ?w o1 + (if s_owner lk = o1 then 1 else 0)" "olocks ?w o1 = olocks w o1"
    "ishares w ino = ishares ?w ino + (if s_inode lk = Some ino then 1 else 0)" "ilocks ?w ino = ilocks w ino" for o1 ino
    using cnt by (simp_all add: count_defs)
  note I = inv_piecesD [OF inv]
  have own: "lw_owners w (s_owner lk) \<noteq> None" using I(1) l unfolding heap_ok_def by blast
  have "heap_ok ?w" using I(1) unfolding heap_ok_def by auto
  moreover have "refs_ok ?x ?w"
    by (rule refs_ok_same [OF I(2)]) (use c(2) c(1) own held_owner [OF inv] in \<open>auto split: if_splits\<close>)
  moreover have "active_ok ?y ?w"
    by (rule active_ok_same [OF I(3)]) (use c(3,4) in \<open>auto simp: add_ref_def split: option.splits\<close>)
  moreover have "owners_ok ?w" by (rule owners_ok_same [OF I(4)]) auto
  moreover have "lists_ok ?w"
  proof -
    have "lw_shares ?w k = lw_shares w k" if "k \<in> set (i_shares w ino)" for k ino
      using that u by (auto simp: s_unlinked_def)
    then show ?thesis using I(5) by (simp add: lists_ok_def)
  qed
  moreover have "hosts_ok ?w"
    by (rule hosts_ok_same [OF I(6)]) (use u in \<open>auto simp: on_host_def share_on_host_def s_unlinked_def\<close>)
  ultimately show ?thesis by (simp add: nlm_inv_def)
qed

lemma reffs_share_free_inv:
  assumes inv: "nlm_inv x y w" and l: "lw_shares w l = Some lk" and u: "s_unlinked w l"
  obtains w' where "reffs_share_free w l = Some w'" "nlm_inv x y w'" "lists_same w w'"
    "lw_shares w' = (lw_shares w)(l := None)" "lw_locks w' = lw_locks w"
proof -
  let ?d = "w\<lparr>lw_shares := (lw_shares w)(l := None)\<rparr>"
  note d = share_delete_inv [OF inv l u]
  have p: "nlm_inv (x(s_owner lk := x (s_owner lk) + 1)) y (inode_active_put ?d (s_inode lk))"
  proof (cases "s_inode lk")
    case None
    then show ?thesis using d by (simp add: add_ref_def inode_active_put_def)
  next
    case (Some ino)
    then show ?thesis using inode_active_put_inv [OF d, of ino] by (simp add: add_ref_def)
  qed
  then obtain w' where w': "lock_owner_put (inode_active_put ?d (s_inode lk)) (s_owner lk) = Some w'"
    "nlm_inv x y w'" "owners_changed (inode_active_put ?d (s_inode lk)) w'"
    using lock_owner_put_inv [OF p, of "s_owner lk"] by auto
  have comm: "inode_active_put ?d (s_inode lk) = (inode_active_put w (s_inode lk))\<lparr>lw_shares := (lw_shares w)(l := None)\<rparr>"
    by (simp add: inode_active_put_def split: option.splits)
  obtain z where z: "lock_owner_put (inode_active_put w (s_inode lk)) (s_owner lk) = Some z"
    "w' = z\<lparr>lw_shares := (lw_shares w)(l := None)\<rparr>"
    using w'(1) unfolding comm lock_owner_put_commute(2) by auto
  have "lw_shares z = lw_shares w"
    using lock_owner_put_heaps [OF z(1)] by (simp add: inode_active_put_def split: option.splits)
  then have "reffs_share_free w l = Some w'" using z l by (simp add: reffs_share_free_def)
  moreover have "lists_same w w'" "lw_shares w' = (lw_shares w)(l := None)" "lw_locks w' = lw_locks w"
  proof -
    have f: "i_shares (inode_active_put ?d i) = i_shares w" "i_locks (inode_active_put ?d i) = i_locks w"
      "nlm4_hosts (inode_active_put ?d i) = nlm4_hosts w" "lw_next (inode_active_put ?d i) = lw_next w"
      "lw_owners (inode_active_put ?d i) = lw_owners w" "caller (inode_active_put ?d i) = caller w"
      "lw_shares (inode_active_put ?d i) = (lw_shares w)(l := None)" "lw_locks (inode_active_put ?d i) = lw_locks w" for i
      by (simp_all add: inode_active_put_def split: option.splits)
    note F = owners_changed_fields [OF w'(3), unfolded f] and C = owners_changed_caller [OF w'(3), unfolded f]
    show "lw_shares w' = (lw_shares w)(l := None)" "lw_locks w' = lw_locks w" by (fact F)+
    have "lw_owners w o1 \<noteq> None" if "lw_owners w' o1 \<noteq> None" for o1
      using w'(3) that unfolding owners_changed_def f by blast
    then show "lists_same w w'" using F C by (simp add: lists_same_def)
  qed
  ultimately show thesis using w'(2) that by blast
qed

lemma host_del_share_Some:
  assumes inv: "nlm_inv x y w" and l: "l \<in> set (i_shares w ino)"
  shows "host_del_share w' l = (if nlm4_hosts w' = nlm4_hosts w then
     Some (w'\<lparr>nlm4_hosts := map (\<lambda>host. host\<lparr>h_shares := removeAll l (h_shares host)\<rparr>) (nlm4_hosts w)\<rparr>) else host_del_share w' l)"
proof -
  obtain lk lo c where "lw_shares w l = Some lk" "caller w (s_owner lk) = Some c" by (rule linked_share [OF inv l])
  then have "share_on_host w l c" using l by (auto simp: share_on_host_def)
  then have "list_ex (\<lambda>host. l \<in> set (h_shares host)) (nlm4_hosts w)"
    using inv_piecesD(6) [OF inv] unfolding hosts_ok_def list_ex_iff by (metis imageE)
  then show ?thesis by (simp add: host_del_share_def)
qed

definition unlink_share :: "lock_world \<Rightarrow> nat \<Rightarrow> nat \<Rightarrow> lock_world" where
  "unlink_share w ino l = w\<lparr>i_shares := (i_shares w)(ino := remove1 l (i_shares w ino)),
     nlm4_hosts := map (\<lambda>host. host\<lparr>h_shares := removeAll l (h_shares host)\<rparr>) (nlm4_hosts w)\<rparr>"

lemma unlink_share_inv:
  assumes inv: "nlm_inv x y w" and l: "l \<in> set (i_shares w ino)"
  shows "nlm_inv x y (unlink_share w ino l)" "s_unlinked (unlink_share w ino l) l"
proof -
  let ?w = "unlink_share w ino l"
  note I = inv_piecesD [OF inv]
  have d: "distinct (i_shares w i)" for i using I(5) by (simp add: lists_ok_def)
  have only: "i = ino" if "l \<in> set (i_shares w i)" for i
    using linked_share [OF inv that] linked_share [OF inv l] by (metis option.inject)
  show u: "s_unlinked ?w l" using only d by (auto simp: s_unlinked_def unlink_share_def)
  have f: "lw_owners ?w = lw_owners w" "lw_shares ?w = lw_shares w" "lw_locks ?w = lw_locks w" "lw_next ?w = lw_next w"
    "i_active ?w = i_active w" "nlm4_owners ?w = nlm4_owners w" "i_locks ?w = i_locks w" "caller ?w = caller w"
    by (simp_all add: unlink_share_def)
  have il: "set (i_shares ?w i) = set (i_shares w i) - {l}" for i
    using only d by (auto simp: unlink_share_def)
  have "heap_ok ?w" using I(1) unfolding heap_ok_def f .
  moreover have "refs_ok x ?w" by (rule refs_ok_same [OF I(2) f(1)]) (use held_owner [OF inv] in \<open>auto simp: count_defs f\<close>)
  moreover have "active_ok y ?w" by (rule active_ok_same [OF I(3) f(5)]) (auto simp: count_defs f)
  moreover have "owners_ok ?w" by (rule owners_ok_same [OF I(4) f(1,6)])
  moreover have "lists_ok ?w"
    using I(5) d unfolding lists_ok_def f il by (auto simp: unlink_share_def)
  moreover have "hosts_ok ?w"
  proof -
    have on: "share_on_host ?w k n = (k \<noteq> l \<and> share_on_host w k n)" "on_host ?w k n = on_host w k n" for k n
      unfolding on_host_def share_on_host_def f il by auto
    have h: "map h_name (nlm4_hosts ?w) = map h_name (nlm4_hosts w)" by (simp add: unlink_share_def)
    then have hs: "h_name ` set (nlm4_hosts ?w) = h_name ` set (nlm4_hosts w)" by (metis set_map)
    have each: "distinct (h_shares h) \<and> distinct (h_locks h) \<and> (\<forall>k. k \<in> set (h_shares h) \<longleftrightarrow> share_on_host ?w k (h_name h))
       \<and> (\<forall>s. s \<in> set (h_locks h) \<longleftrightarrow> on_host ?w s (h_name h))" if "h \<in> set (nlm4_hosts ?w)" for h
    proof -
      from that obtain h0 where "h0 \<in> set (nlm4_hosts w)" "h = h0\<lparr>h_shares := removeAll l (h_shares h0)\<rparr>"
        by (auto simp: unlink_share_def)
      then show ?thesis using I(6) unfolding hosts_ok_def on by (auto simp: distinct_removeAll)
    qed
    show ?thesis using I(6) each unfolding hosts_ok_def h hs on(2) unfolding on(1) by blast
  qed
  ultimately show "nlm_inv x y ?w" by (simp add: nlm_inv_def)
qed

lemma link_share_inv:
  assumes inv: "nlm_inv x y w" and l: "lw_shares w l = Some lk" "s_inode lk = Some ino" and u: "s_unlinked w l"
    and ls: "distinct ls" "set ls = insert l (set (i_shares w ino))"
    and c: "caller w (s_owner lk) = Some h" "h \<in> h_name ` set (nlm4_hosts w)"
  shows "nlm_inv x y (host_add_share (w\<lparr>i_shares := (i_shares w)(ino := ls)\<rparr>) h l)"
proof -
  let ?w = "host_add_share (w\<lparr>i_shares := (i_shares w)(ino := ls)\<rparr>) h l"
  note I = inv_piecesD [OF inv]
  have f: "lw_owners ?w = lw_owners w" "lw_shares ?w = lw_shares w" "lw_locks ?w = lw_locks w" "lw_next ?w = lw_next w"
    "i_active ?w = i_active w" "nlm4_owners ?w = nlm4_owners w" "i_locks ?w = i_locks w" "caller ?w = caller w"
    "i_shares ?w = (i_shares w)(ino := ls)"
    by (simp_all add: host_add_share_def)
  have "heap_ok ?w" using I(1) unfolding heap_ok_def f .
  moreover have "refs_ok x ?w" by (rule refs_ok_same [OF I(2) f(1)]) (use held_owner [OF inv] in \<open>auto simp: count_defs f\<close>)
  moreover have "active_ok y ?w" by (rule active_ok_same [OF I(3) f(5)]) (auto simp: count_defs f)
  moreover have "owners_ok ?w" by (rule owners_ok_same [OF I(4) f(1,6)])
  moreover have "lists_ok ?w"
    using I(5) ls l unfolding lists_ok_def f by auto
  moreover have "hosts_ok ?w"
  proof -
    have on: "share_on_host ?w k n = (k = l \<and> n = h \<or> share_on_host w k n)" "on_host ?w k n = on_host w k n" for k n
      unfolding on_host_def share_on_host_def f using l(1) ls(2) c(1) by (auto split: if_splits)
    have nl: "\<not> share_on_host w l n" for n using u by (simp add: share_on_host_def s_unlinked_def)
    have h: "map h_name (nlm4_hosts ?w) = map h_name (nlm4_hosts w)" by (simp add: host_add_share_def)
    then have hs: "h_name ` set (nlm4_hosts ?w) = h_name ` set (nlm4_hosts w)" by (metis set_map)
    have each: "distinct (h_shares h1) \<and> distinct (h_locks h1) \<and> (\<forall>k. k \<in> set (h_shares h1) \<longleftrightarrow> share_on_host ?w k (h_name h1))
       \<and> (\<forall>s. s \<in> set (h_locks h1) \<longleftrightarrow> on_host ?w s (h_name h1))" if "h1 \<in> set (nlm4_hosts ?w)" for h1
    proof -
      from that obtain h0 where h0: "h0 \<in> set (nlm4_hosts w)"
        "h1 = (if h_name h0 = h then h0\<lparr>h_shares := l # h_shares h0\<rparr> else h0)"
        by (auto simp: host_add_share_def)
      have "distinct (h_shares h0) \<and> distinct (h_locks h0) \<and> (\<forall>k. k \<in> set (h_shares h0) \<longleftrightarrow> share_on_host w k (h_name h0))
       \<and> (\<forall>s. s \<in> set (h_locks h0) \<longleftrightarrow> on_host w s (h_name h0))" using I(6) h0(1) unfolding hosts_ok_def by blast
      then show ?thesis using h0(2) nl unfolding on by auto
    qed
    show ?thesis using I(6) each c(2) unfolding hosts_ok_def h hs on(2) unfolding on(1) by blast
  qed
  ultimately show ?thesis by (simp add: nlm_inv_def)
qed

end
