(* ===== verification/NlmOps.thy ===== *)
theory NlmOps
  imports NlmShares
begin

text \<open>
  The operations of the NLM lock manager on states that satisfy the invariant: none of them is
  undefined, each restores the invariant, and their effect on the bytes that are locked is exact.
\<close>

section \<open>Removing a range\<close>

text \<open>Owners that are still allocated keep their client host.\<close>

definition callers_kept :: "lock_world \<Rightarrow> lock_world \<Rightarrow> bool" where
  "callers_kept w w' \<longleftrightarrow> (\<forall>o1. lw_owners w' o1 \<noteq> None \<longrightarrow> lw_owners w o1 \<noteq> None \<and> caller w' o1 = caller w o1)"

lemma callers_kept_refl [simp]: "callers_kept w w"
  by (simp add: callers_kept_def)

lemma callers_kept_trans: "callers_kept w w' \<Longrightarrow> callers_kept w' w'' \<Longrightarrow> callers_kept w w''"
  by (simp add: callers_kept_def)

lemma callers_kept_same: "lw_owners w' = lw_owners w \<Longrightarrow> callers_kept w w'"
  using caller_cong [of w' w] by (simp add: callers_kept_def)

lemma owners_changed_kept: "owners_changed w w' \<Longrightarrow> callers_kept w w'"
  using owners_changed_caller unfolding callers_kept_def owners_changed_def by blast

lemma lists_same_kept: "lists_same w w' \<Longrightarrow> callers_kept w w'"
  unfolding lists_same_def callers_kept_def by blast

text \<open>What one iteration does to the lists and to the bytes held; \<open>N\<close> are the pieces left of \<open>l\<close>.\<close>

definition step_effect :: "lock_world \<Rightarrow> nat \<Rightarrow> nat \<Rightarrow> (nat \<times> bool \<times> nat) set \<Rightarrow> lock_world \<Rightarrow> bool" where
  "step_effect w ino l c w' \<longleftrightarrow>
     (\<exists>N. N \<subseteq> {l, lw_next w} \<and> set (i_locks w' ino) = set (i_locks w ino) - {l} \<union> N
        \<and> (\<Union>n \<in> N. holds_at w' n) = holds_at w l - c
        \<and> (\<forall>n \<in> N. \<exists>lk lk'. lw_locks w l = Some lk \<and> lw_locks w' n = Some lk' \<and> l_owner lk' = l_owner lk))
     \<and> (\<forall>k. k \<noteq> l \<and> k \<noteq> lw_next w \<longrightarrow> lw_locks w' k = lw_locks w k)
     \<and> (\<forall>i. i \<noteq> ino \<longrightarrow> i_locks w' i = i_locks w i)"

lemma step_effect_keep:
  assumes "l \<in> set (i_locks w ino)" "holds_at w l \<inter> c = {}" "lw_locks w l = Some le"
  shows "step_effect w ino l c w"
  unfolding step_effect_def using assms by (intro conjI exI [of _ "{l}"]) auto

lemma step_effect_shrink:
  assumes "l \<in> set (i_locks w ino)" "lw_locks w l = Some le" "lock_holds lk' = lock_holds le - c" "l_owner lk' = l_owner le"
  shows "step_effect w ino l c (w\<lparr>lw_locks := (lw_locks w)(l \<mapsto> lk')\<rparr>)"
  unfolding step_effect_def using assms by (intro conjI exI [of _ "{l}"]) (auto simp: holds_at_def)

lemma lock_holds_cut:
  assumes "l_owner le = owner" "range_bytes off' len' = range_bytes (l_offset le) (l_len le) - range_bytes u_off u_len"
  shows "lock_holds (le\<lparr>l_offset := off', l_len := len'\<rparr>) = lock_holds le - cut owner u_off u_len"
  using assms by (auto simp: lock_holds_def cut_def)

lemma lock_holds_split:
  assumes "l_owner le = owner"
    and "range_bytes (l_offset le) len2 \<union> range_bytes off' len' = range_bytes (l_offset le) (l_len le) - range_bytes u_off u_len"
  shows "lock_holds (le\<lparr>l_offset := off', l_len := len'\<rparr>) \<union> lock_holds (le\<lparr>l_len := len2\<rparr>)
    = lock_holds le - cut owner u_off u_len"
proof -
  have "lock_holds (le\<lparr>l_offset := off', l_len := len'\<rparr>) \<union> lock_holds (le\<lparr>l_len := len2\<rparr>)
      = {owner} \<times> {l_exclusive le} \<times> (range_bytes (l_offset le) len2 \<union> range_bytes off' len')"
    using assms(1) by (auto simp: lock_holds_def)
  then show ?thesis unfolding assms(2) using assms(1) by (auto simp: lock_holds_def cut_def)
qed

lemma step_effect_split:
  assumes "l \<in> set (i_locks w ino)" "lw_locks w l = Some le" "lw_next w \<noteq> l"
    and "lock_holds new \<union> lock_holds le' = lock_holds le - c" "l_owner new = l_owner le" "l_owner le' = l_owner le"
    and "lw_locks w' = (lw_locks w)(lw_next w \<mapsto> new, l \<mapsto> le')"
    and "i_locks w' = (i_locks w)(ino := insert_after l (lw_next w) (i_locks w ino))"
  shows "step_effect w ino l c w'"
  unfolding step_effect_def
proof (intro conjI exI [of _ "{l, lw_next w}"])
  show "(\<Union>n \<in> {l, lw_next w}. holds_at w' n) = holds_at w l - c"
    using assms(2-7) by (auto simp: holds_at_def)
qed (use assms set_insert_after [OF assms(1), of "lw_next w"] in auto)

lemma lock_remove_full:
  assumes inv: "nlm_inv x y w" and l: "l \<in> set (i_locks w ino)" "lw_locks w l = Some le"
    and full: "u_off \<le> l_offset le" "range_end (l_offset le) (l_len le) \<le> range_end u_off u_len" "l_owner le = owner"
  obtains w' where "reffs_lock_free (unlink_lock w ino l) l = Some w'" "nlm_inv x y w'" "callers_kept w w'"
    "step_effect w ino l (cut owner u_off u_len) w'"
proof -
  note u = unlink_lock_inv [OF inv l(1)]
  have l': "lw_locks (unlink_lock w ino l) l = Some le" using l(2) by (simp add: unlink_lock_def)
  obtain w' where w': "reffs_lock_free (unlink_lock w ino l) l = Some w'" "nlm_inv x y w'"
    "lists_same (unlink_lock w ino l) w'" "lw_locks w' = (lw_locks (unlink_lock w ino l))(l := None)"
    by (rule reffs_lock_free_inv [OF u(1) l' u(2)])
  have "lw_owners (unlink_lock w ino l) = lw_owners w" by (simp add: unlink_lock_def)
  from callers_kept_trans [OF callers_kept_same [OF this] lists_same_kept [OF w'(3)]] have k: "callers_kept w w'" .
  have "distinct (i_locks w ino)" using inv_piecesD(5) [OF inv] by (simp add: lists_ok_def)
  then have il: "set (i_locks w' ino) = set (i_locks w ino) - {l}" "i \<noteq> ino \<Longrightarrow> i_locks w' i = i_locks w i" for i
    using w'(3) by (auto simp: lists_same_def unlink_lock_def)
  have "holds_at w l - cut owner u_off u_len = {}"
    using l(2) full(3) cut_full [OF full(1,2)] by (auto simp: holds_at_def lock_holds_def cut_def)
  then have "step_effect w ino l (cut owner u_off u_len) w'"
    unfolding step_effect_def using il w'(4) by (intro conjI exI [of _ "{}"]) (auto simp: unlink_lock_def)
  then show thesis using that w'(1,2) k by blast
qed

lemma lock_remove_split:
  assumes inv: "nlm_inv x y w" and l: "l \<in> set (i_locks w ino)" "lw_locks w l = Some le"
    and h: "caller w (l_owner le) = Some h"
  obtains w1 w2 w' where "lock_owner_get w (l_owner le) = Some w1" "inode_active_get w1 (l_inode le) = (Some ino, w2)"
    "lw_next w1 = lw_next w" "lw_next w2 = lw_next w" "lw_locks w2 = lw_locks w" "i_locks w2 = i_locks w"
    "w' = host_add_lock (w2\<lparr>lw_next := lw_next w + 1, lw_locks := (lw_locks w)(lw_next w \<mapsto> le\<lparr>l_offset := off1, l_len := len1\<rparr>,
        l \<mapsto> le\<lparr>l_len := len2\<rparr>), i_locks := (i_locks w)(ino := insert_after l (lw_next w) (i_locks w ino))\<rparr>) h (lw_next w)"
    "nlm_inv x y w'" "callers_kept w w'" "l_inode le = Some ino"
proof -
  obtain lo where le: "l_inode le = Some ino" "lw_owners w (l_owner le) = Some lo" using linked_lock [OF inv l(1)] l(2) by auto
  obtain w1 where w1: "lock_owner_get w (l_owner le) = Some w1" "nlm_inv (x(l_owner le := x (l_owner le) + 1)) y w1"
    "owners_changed w w1" by (rule lock_owner_get_inv [OF inv le(2)])
  note F = owners_changed_fields [OF w1(3)]
  define w2 where "w2 = w1\<lparr>i_active := (i_active w1)(ino := i_active w1 ino + 1)\<rparr>"
  have "0 < ilocks w1 ino"
  proof -
    have "finite (dom (lw_locks w1))" using inv_piecesD(1) [OF w1(2)] by (simp add: heap_ok_def)
    then show ?thesis using map_count_pos [of "lw_locks w1" l le] l(2) le(1) F(1) by (simp add: ilocks_def)
  qed
  then have w2: "inode_active_get w1 (Some ino) = (Some ino, w2)"
    "nlm_inv (x(l_owner le := x (l_owner le) + 1)) (y(ino := y ino + 1)) w2"
    using inode_active_get_inv [OF w1(2), of ino] by (auto simp: w2_def)
  have f: "lw_next w2 = lw_next w" "lw_locks w2 = lw_locks w" "i_locks w2 = i_locks w" "lw_owners w2 = lw_owners w1"
    "nlm4_hosts w2 = nlm4_hosts w" "caller w2 = caller w1" using F by (simp_all add: w2_def)
  let ?new = "le\<lparr>l_offset := off1, l_len := len1\<rparr>"
  define w3 where "w3 = w2\<lparr>lw_next := lw_next w2 + 1, lw_locks := (lw_locks w2)(lw_next w2 \<mapsto> ?new)\<rparr>"
  have i3: "nlm_inv x y w3"
    using lock_alloc_inv [OF w2(2), of ?new] le(1) by (simp add: w3_def drop_ref_def)
  have ne: "l \<noteq> lw_next w" using l(2) fresh_unlinked(1) [OF inv] by auto
  then have l3: "lw_locks w3 l = Some le" using l(2) f by (simp add: w3_def)
  define w4 where "w4 = w3\<lparr>lw_locks := (lw_locks w3)(l \<mapsto> le\<lparr>l_len := len2\<rparr>)\<rparr>"
  have i4: "nlm_inv x y w4" unfolding w4_def by (rule lock_modify_inv [OF i3 l3]) auto
  have g: "i_locks w4 = i_locks w" "nlm4_hosts w4 = nlm4_hosts w" "lw_locks w4 (lw_next w) = Some ?new" "caller w4 = caller w1"
    "lw_owners w4 = lw_owners w1"
    using f ne by (simp_all add: w4_def w3_def)
  have u: "unlinked w4 (lw_next w)" using fresh_unlinked(4) [OF inv] g(1) by (simp add: unlinked_def)
  have own1: "lw_owners w1 (l_owner le) \<noteq> None" using held_owner [OF w1(2), of "l_owner le"] by simp
  then have c: "caller w4 (l_owner ?new) = Some h" using owners_changed_caller [OF w1(3) own1] h g(4) by simp
  have "on_host w l h" using l h by (auto simp: on_host_def)
  then have hn: "h \<in> h_name ` set (nlm4_hosts w4)" using inv_piecesD(6) [OF inv] g(2) unfolding hosts_ok_def by metis
  have "distinct (i_locks w ino)" using inv_piecesD(5) [OF inv] by (simp add: lists_ok_def)
  moreover have "lw_next w \<notin> set (i_locks w ino)" using fresh_unlinked(4) [OF inv] by (simp add: unlinked_def)
  ultimately have ls: "distinct (insert_after l (lw_next w) (i_locks w ino))"
    "set (insert_after l (lw_next w) (i_locks w ino)) = insert (lw_next w) (set (i_locks w4 ino))"
    using distinct_insert_after set_insert_after [OF l(1)] g(1) by auto
  let ?w' = "host_add_lock (w4\<lparr>i_locks := (i_locks w4)(ino := insert_after l (lw_next w) (i_locks w ino))\<rparr>) h (lw_next w)"
  have inv': "nlm_inv x y ?w'" using link_lock_inv [OF i4 g(3) _ u ls c hn] le(1) by simp
  have eq: "?w' = host_add_lock (w2\<lparr>lw_next := lw_next w + 1, lw_locks := (lw_locks w)(lw_next w \<mapsto> ?new,
        l \<mapsto> le\<lparr>l_len := len2\<rparr>), i_locks := (i_locks w)(ino := insert_after l (lw_next w) (i_locks w ino))\<rparr>) h (lw_next w)"
    using f by (simp add: w4_def w3_def)
  have "lw_owners ?w' = lw_owners w1" using g(5) by (simp add: host_add_lock_def)
  then have "callers_kept w ?w'"
    using callers_kept_trans [OF owners_changed_kept [OF w1(3)] callers_kept_same] by blast
  then show thesis using that [OF w1(1) _ F(7) f(1-3) eq inv'] w2(1) le(1) by simp
qed

text \<open>The host list passed by the caller is that of the owner, whenever the owner has a lock here.\<close>

definition host_arg_ok :: "lock_world \<Rightarrow> nat \<Rightarrow> nat \<Rightarrow> string option \<Rightarrow> bool" where
  "host_arg_ok w ino owner host_list \<longleftrightarrow>
     (\<forall>l lk. l \<in> set (i_locks w ino) \<longrightarrow> lw_locks w l = Some lk \<longrightarrow> l_owner lk = owner \<longrightarrow>
        host_list \<noteq> None \<and> caller w owner = host_list)"

lemma lock_remove_step_inv:
  assumes inv: "nlm_inv x y w" and l: "l \<in> set (i_locks w ino)" and h: "host_arg_ok w ino owner host_list"
  obtains (failed) "lock_remove_step mem ino u_off u_len owner host_list l w = Some (Some ENOMEM, w)" "\<not> mem l"
    | (stepped) w' where "lock_remove_step mem ino u_off u_len owner host_list l w = Some (None, w')" "nlm_inv x y w'"
        "callers_kept w w'" "step_effect w ino l (cut owner u_off u_len) w'"
proof -
  obtain le where le: "lw_locks w l = Some le" using linked_lock [OF inv l] by blast
  let ?ue = "range_end u_off u_len" and ?le = "range_end (l_offset le) (l_len le)"
  note D = lock_remove_step_def Let_def le
  consider (other) "l_owner le \<noteq> owner" | (apart) "l_owner le = owner" "\<not> reffs_lock_range_overlap (l_offset le) (l_len le) u_off u_len"
    | (cut) "l_owner le = owner" "reffs_lock_range_overlap (l_offset le) (l_len le) u_off u_len" by blast
  then show thesis
  proof cases
    case other
    have "step_effect w ino l (cut owner u_off u_len) w"
      by (rule step_effect_keep [OF l _ le]) (use le other in \<open>auto simp: holds_at_def lock_holds_def cut_def\<close>)
    moreover have "lock_remove_step mem ino u_off u_len owner host_list l w = Some (None, w)" using other by (simp add: D)
    ultimately show thesis using stepped inv callers_kept_refl by blast
  next
    case apart
    have "step_effect w ino l (cut owner u_off u_len) w"
      by (rule step_effect_keep [OF l _ le])
        (use le no_overlap_disjoint [OF apart(2)] in \<open>auto simp: holds_at_def lock_holds_def cut_def\<close>)
    moreover have "lock_remove_step mem ino u_off u_len owner host_list l w = Some (None, w)" using apart by (simp add: D)
    ultimately show thesis using stepped inv callers_kept_refl by blast
  next
    case cut
    then obtain hn where hn: "host_list = Some hn" "caller w (l_owner le) = Some hn"
      using h l le unfolding host_arg_ok_def by fastforce
    consider (full) "u_off \<le> l_offset le" "?le \<le> ?ue" | (mid) "l_offset le < u_off" "?ue < ?le"
      | (start) "u_off \<le> l_offset le" "?ue < ?le" | (tail) "l_offset le < u_off" "\<not> ?ue < ?le"
      by (meson leI)
    then show thesis
    proof cases
      case full
      obtain w' where w': "reffs_lock_free (unlink_lock w ino l) l = Some w'" "nlm_inv x y w'" "callers_kept w w'"
        "step_effect w ino l (cut owner u_off u_len) w'" by (rule lock_remove_full [OF inv l le full cut(1)])
      have "host_del_lock (w\<lparr>i_locks := (i_locks w)(ino := remove1 l (i_locks w ino))\<rparr>) l = Some (unlink_lock w ino l)"
        using host_del_lock_Some [OF inv l, of "w\<lparr>i_locks := (i_locks w)(ino := remove1 l (i_locks w ino))\<rparr>"]
        by (simp add: unlink_lock_def)
      then have "lock_remove_step mem ino u_off u_len owner host_list l w = Some (None, w')" using w'(1) cut full hn(1) by (simp add: D)
      then show thesis using stepped w'(2-4) by blast
    next
      case mid
      show thesis
      proof (cases "mem l")
        case False
        have "lock_remove_step mem ino u_off u_len owner host_list l w = Some (Some ENOMEM, w)" using False cut mid by (simp add: D not_le [symmetric])
        then show thesis using failed False by blast
      next
        case True
        let ?off = "?ue + 1" and ?len = "if l_len le = 0 then 0 else ?le - (?ue + 1) + 1" and ?len2 = "u_off - l_offset le"
        obtain w1 w2 w' where w': "lock_owner_get w (l_owner le) = Some w1" "inode_active_get w1 (l_inode le) = (Some ino, w2)"
          "lw_next w1 = lw_next w" "lw_next w2 = lw_next w" "lw_locks w2 = lw_locks w" "i_locks w2 = i_locks w"
          "w' = host_add_lock (w2\<lparr>lw_next := lw_next w + 1, lw_locks := (lw_locks w)(lw_next w \<mapsto> le\<lparr>l_offset := ?off, l_len := ?len\<rparr>,
            l \<mapsto> le\<lparr>l_len := ?len2\<rparr>), i_locks := (i_locks w)(ino := insert_after l (lw_next w) (i_locks w ino))\<rparr>) hn (lw_next w)"
          "nlm_inv x y w'" "callers_kept w w'" "l_inode le = Some ino"
          by (rule lock_remove_split [OF inv l le hn(2)])
        have lk': "lw_locks w' = (lw_locks w)(lw_next w \<mapsto> le\<lparr>l_offset := ?off, l_len := ?len\<rparr>, l \<mapsto> le\<lparr>l_len := ?len2\<rparr>)"
          and il: "i_locks w' = (i_locks w)(ino := insert_after l (lw_next w) (i_locks w ino))"
          using w'(7) by (simp_all add: host_add_lock_def)
        have "le = \<lparr>l_inode = l_inode le, l_owner = l_owner le, l_offset = l_offset le, l_len = l_len le, l_exclusive = l_exclusive le\<rparr>"
          by simp
        then have new: "\<lparr>l_inode = Some ino, l_owner = l_owner le, l_offset = ?off, l_len = ?len, l_exclusive = l_exclusive le\<rparr>
            = le\<lparr>l_offset := ?off, l_len := ?len\<rparr>" using w'(10) by (cases le) simp
        have run: "lock_remove_step mem ino u_off u_len owner host_list l w = Some (None, w')"
          using w'(1-6) True cut mid hn(1) new unfolding w'(7) by (simp add: D not_le [symmetric])
        have ne: "lw_next w \<noteq> l" using le fresh_unlinked(1) [OF inv] by auto
        have "step_effect w ino l (ByteLocks.cut owner u_off u_len) w'"
          by (rule step_effect_split [OF l le ne lock_holds_split [OF cut(1) cut_middle [OF cut(2) mid]] _ _ lk' il]) simp_all
        then show thesis using stepped [OF run w'(8,9)] by blast
      qed
    next
      case start
      let ?lk = "le\<lparr>l_offset := ?ue + 1, l_len := (if l_len le = 0 then 0 else ?le - (?ue + 1) + 1)\<rparr>"
      have "lock_holds ?lk = lock_holds le - ByteLocks.cut owner u_off u_len"
        by (rule lock_holds_cut [OF cut(1) cut_head [OF cut(2) start]])
      from step_effect_shrink [OF l le this] lock_modify_inv [OF inv le, of ?lk]
      have e: "step_effect w ino l (ByteLocks.cut owner u_off u_len) (w\<lparr>lw_locks := (lw_locks w)(l \<mapsto> ?lk)\<rparr>)"
        "nlm_inv x y (w\<lparr>lw_locks := (lw_locks w)(l \<mapsto> ?lk)\<rparr>)" by simp_all
      have "lock_remove_step mem ino u_off u_len owner host_list l w = Some (None, w\<lparr>lw_locks := (lw_locks w)(l \<mapsto> ?lk)\<rparr>)"
        using cut start by (simp add: D not_le [symmetric])
      then show thesis using stepped e callers_kept_same [of "w\<lparr>lw_locks := (lw_locks w)(l \<mapsto> ?lk)\<rparr>" w] by simp
    next
      case tail
      let ?lk = "le\<lparr>l_len := u_off - l_offset le\<rparr>"
      have "lock_holds (le\<lparr>l_offset := l_offset le, l_len := u_off - l_offset le\<rparr>) = lock_holds le - ByteLocks.cut owner u_off u_len"
        by (rule lock_holds_cut [OF cut(1) cut_tail [OF cut(2) tail]])
      then have "lock_holds ?lk = lock_holds le - ByteLocks.cut owner u_off u_len" by simp
      from step_effect_shrink [OF l le this] lock_modify_inv [OF inv le, of ?lk]
      have e: "step_effect w ino l (ByteLocks.cut owner u_off u_len) (w\<lparr>lw_locks := (lw_locks w)(l \<mapsto> ?lk)\<rparr>)"
        "nlm_inv x y (w\<lparr>lw_locks := (lw_locks w)(l \<mapsto> ?lk)\<rparr>)" by simp_all
      have "lock_remove_step mem ino u_off u_len owner host_list l w = Some (None, w\<lparr>lw_locks := (lw_locks w)(l \<mapsto> ?lk)\<rparr>)"
        using cut tail by (simp add: D not_le [symmetric])
      then show thesis using stepped e callers_kept_same [of "w\<lparr>lw_locks := (lw_locks w)(l \<mapsto> ?lk)\<rparr>" w] by simp
    qed
  qed
qed

lemma step_effect_frame:
  assumes "nlm_inv x y w" "step_effect w ino l c w'" "k \<in> set (i_locks w i)" "k \<noteq> l"
  shows "lw_locks w' k = lw_locks w k" "holds_at w' k = holds_at w k" "k \<noteq> lw_next w"
proof -
  show n: "k \<noteq> lw_next w" using assms(3) fresh_unlinked(4) [OF assms(1)] by (auto simp: unlinked_def)
  then show "lw_locks w' k = lw_locks w k" using assms(2,4) by (simp add: step_effect_def)
  then show "holds_at w' k = holds_at w k" by (simp add: holds_at_def)
qed

lemma linked_once:
  assumes "nlm_inv x y w" "l \<in> set (i_locks w i)" "l \<in> set (i_locks w j)"
  shows "i = j"
  using linked_lock [OF assms(1,2)] linked_lock [OF assms(1,3)] by (metis option.inject)

lemma step_effect_other_inode:
  assumes inv: "nlm_inv x y w" and e: "step_effect w ino l c w'" and l: "l \<in> set (i_locks w ino)" and i: "i \<noteq> ino"
  shows "held w' i = held w i"
proof -
  have il: "i_locks w' i = i_locks w i" using e i by (simp add: step_effect_def)
  have "holds_at w' k = holds_at w k" if "k \<in> set (i_locks w i)" for k
    using step_effect_frame(2) [OF inv e that] linked_once [OF inv that] l i by blast
  then show ?thesis by (simp add: held_def il)
qed

lemma step_effect_rest:
  assumes inv: "nlm_inv x y w" and e: "step_effect w ino l c w'" and l: "l \<in> set (i_locks w ino)"
    and ls: "set ls \<subseteq> set (i_locks w ino)" "l \<notin> set ls"
  shows "(\<Union>k \<in> set (i_locks w' ino) - set ls. holds_at w' k)
    = (\<Union>k \<in> set (i_locks w ino) - insert l (set ls). holds_at w k) \<union> (holds_at w l - c)"
    and "(\<Union>k \<in> set ls. holds_at w' k) = (\<Union>k \<in> set ls. holds_at w k)"
    and "set ls \<subseteq> set (i_locks w' ino)"
proof -
  note F = step_effect_frame [OF inv e]
  obtain N where N: "N \<subseteq> {l, lw_next w}" "set (i_locks w' ino) = set (i_locks w ino) - {l} \<union> N"
    "(\<Union>n \<in> N. holds_at w' n) = holds_at w l - c" using e by (auto simp: step_effect_def)
  have "N \<inter> set ls = {}" using N(1) ls F(3) by blast
  then have "set (i_locks w' ino) - set ls = (set (i_locks w ino) - insert l (set ls)) \<union> N"
    using N(2) by auto
  moreover have "holds_at w' k = holds_at w k" if "k \<in> set (i_locks w ino) - insert l (set ls)" for k
    using F(2) that by blast
  ultimately show "(\<Union>k \<in> set (i_locks w' ino) - set ls. holds_at w' k)
    = (\<Union>k \<in> set (i_locks w ino) - insert l (set ls). holds_at w k) \<union> (holds_at w l - c)"
    using N(3) by (simp add: UN_Un)
  have "holds_at w' k = holds_at w k" if "k \<in> set ls" for k using F(2) that ls by blast
  then show "(\<Union>k \<in> set ls. holds_at w' k) = (\<Union>k \<in> set ls. holds_at w k)" by simp
  show "set ls \<subseteq> set (i_locks w' ino)" using ls N(2) by blast
qed

lemma step_host_arg:
  assumes inv: "nlm_inv x y w" "nlm_inv x y w'" and e: "step_effect w ino l c w'" and k: "callers_kept w w'"
    and l: "l \<in> set (i_locks w ino)" and h: "host_arg_ok w ino owner host_list"
  shows "host_arg_ok w' ino owner host_list"
  unfolding host_arg_ok_def
proof (intro allI impI)
  fix j lk' assume j: "j \<in> set (i_locks w' ino)" "lw_locks w' j = Some lk'" "l_owner lk' = owner"
  have "j \<in> set (i_locks w ino) \<and> j \<noteq> l \<or> (\<exists>lk. lw_locks w l = Some lk \<and> l_owner lk = owner)"
    using e j unfolding step_effect_def by fastforce
  then have "\<exists>j0 lk. j0 \<in> set (i_locks w ino) \<and> lw_locks w j0 = Some lk \<and> l_owner lk = owner"
    using j l step_effect_frame(1) [OF inv(1) e, of j ino] by metis
  then have c: "host_list \<noteq> None" "caller w owner = host_list" using h unfolding host_arg_ok_def by blast+
  have "lw_owners w' owner \<noteq> None" using j inv_piecesD(1) [OF inv(2)] unfolding heap_ok_def by blast
  then show "host_list \<noteq> None \<and> caller w' owner = host_list" using c k unfolding callers_kept_def by simp
qed

text \<open>The whole loop.\<close>

lemma lock_remove_from_inv:
  assumes "nlm_inv x y w" "set ls \<subseteq> set (i_locks w ino)" "distinct ls" "host_arg_ok w ino owner host_list"
  shows "\<exists>e w'. lock_remove_from mem ino u_off u_len owner host_list ls w = Some (e, w') \<and> nlm_inv x y w'
    \<and> callers_kept w w' \<and> (e = None \<or> e = Some ENOMEM \<and> (\<exists>l \<in> set ls. \<not> mem l)) \<and> (\<forall>i. i \<noteq> ino \<longrightarrow> held w' i = held w i)
    \<and> held w' ino \<subseteq> held w ino \<and> held w ino - cut owner u_off u_len \<subseteq> held w' ino
    \<and> (e = None \<longrightarrow> held w' ino = (\<Union>l \<in> set (i_locks w ino) - set ls. holds_at w l)
          \<union> ((\<Union>l \<in> set ls. holds_at w l) - cut owner u_off u_len))"
  using assms
proof (induction ls arbitrary: w)
  case Nil
  then show ?case by (auto simp: held_def)
next
  case (Cons l ls)
  let ?c = "cut owner u_off u_len"
  have l: "l \<in> set (i_locks w ino)" and ls: "set ls \<subseteq> set (i_locks w ino)" "l \<notin> set ls" using Cons.prems by auto
  show ?case
  proof (cases rule: lock_remove_step_inv [OF Cons.prems(1) l Cons.prems(4), of mem u_off u_len, case_names failed stepped])
    case failed
    then show ?thesis using Cons.prems(1) by auto
  next
    case (stepped w1)
    note R = step_effect_rest [OF Cons.prems(1) stepped(4) l ls]
    have h1: "host_arg_ok w1 ino owner host_list"
      by (rule step_host_arg [OF Cons.prems(1) stepped(2,4,3) l Cons.prems(4)])
    obtain e w' where w': "lock_remove_from mem ino u_off u_len owner host_list ls w1 = Some (e, w')" "nlm_inv x y w'"
      "callers_kept w1 w'" "e = None \<or> e = Some ENOMEM \<and> (\<exists>l \<in> set ls. \<not> mem l)"
      "\<And>i. i \<noteq> ino \<Longrightarrow> held w' i = held w1 i" "held w' ino \<subseteq> held w1 ino" "held w1 ino - ?c \<subseteq> held w' ino"
      "e = None \<longrightarrow> held w' ino = (\<Union>l \<in> set (i_locks w1 ino) - set ls. holds_at w1 l) \<union> ((\<Union>l \<in> set ls. holds_at w1 l) - ?c)"
      using Cons.IH [OF stepped(2) R(3) _ h1] Cons.prems(3) by auto
    have run: "lock_remove_from mem ino u_off u_len owner host_list (l # ls) w = Some (e, w')"
      using stepped(1) w'(1) by simp
    have h: "held w1 ino = (\<Union>k \<in> set (i_locks w ino) - {l}. holds_at w k) \<union> (holds_at w l - ?c)"
      using step_effect_rest(1) [OF Cons.prems(1) stepped(4) l, of "[]"] by (simp add: held_def)
    have w: "held w ino = (\<Union>k \<in> set (i_locks w ino) - {l}. holds_at w k) \<union> holds_at w l"
      using l by (auto simp: held_def)
    have sub: "held w1 ino \<subseteq> held w ino" "held w ino - ?c \<subseteq> held w1 ino" unfolding h w by auto
    have "e = None \<longrightarrow> held w' ino = (\<Union>k \<in> set (i_locks w ino) - set (l # ls). holds_at w k)
        \<union> ((\<Union>k \<in> set (l # ls). holds_at w k) - ?c)" using w'(8) unfolding R(1,2) by auto
    moreover have "held w' i = held w i" if "i \<noteq> ino" for i
      using w'(5) [OF that] step_effect_other_inode [OF Cons.prems(1) stepped(4) l that] by simp
    ultimately show ?thesis
      using run w'(2) callers_kept_trans [OF stepped(3) w'(3)] w'(4,6,7) sub by (intro exI conjI) auto
  qed
qed

lemma reffs_lock_remove_inv:
  assumes "nlm_inv x y w" "host_arg_ok w ino owner host_list"
  obtains e w' where "reffs_lock_remove mem w ino offset len owner host_list = Some (e, w')" "nlm_inv x y w'"
    "callers_kept w w'" "e = None \<or> e = Some ENOMEM \<and> (\<exists>l. \<not> mem l)" "\<And>i. i \<noteq> ino \<Longrightarrow> held w' i = held w i"
    "held w' ino \<subseteq> held w ino" "held w ino - cut owner offset len \<subseteq> held w' ino"
    "e = None \<Longrightarrow> held w' ino = held w ino - cut owner offset len"
proof -
  have "distinct (i_locks w ino)" using inv_piecesD(5) [OF assms(1)] by (simp add: lists_ok_def)
  note L = lock_remove_from_inv [OF assms(1) subset_refl this assms(2), of mem offset len]
  then show thesis
  proof (elim exE conjE)
    fix e w'
    assume a: "lock_remove_from mem ino offset len owner host_list (i_locks w ino) w = Some (e, w')" "nlm_inv x y w'"
      "callers_kept w w'" "e = None \<or> e = Some ENOMEM \<and> (\<exists>l \<in> set (i_locks w ino). \<not> mem l)"
      "\<forall>i. i \<noteq> ino \<longrightarrow> held w' i = held w i" "held w' ino \<subseteq> held w ino" "held w ino - cut owner offset len \<subseteq> held w' ino"
      "e = None \<longrightarrow> held w' ino = (\<Union>l \<in> set (i_locks w ino) - set (i_locks w ino). holds_at w l)
          \<union> ((\<Union>l \<in> set (i_locks w ino). holds_at w l) - cut owner offset len)"
    have "e = None \<Longrightarrow> held w' ino = held w ino - cut owner offset len" using a(8) by (simp add: held_def)
    then show thesis using that [of e w'] a(1-7) by (auto simp: reffs_lock_remove_def)
  qed
qed

section \<open>Hosts and owners\<close>

text \<open>The locks and shares, on their lists and in the heap, are the same.\<close>

definition same_locks :: "lock_world \<Rightarrow> lock_world \<Rightarrow> bool" where
  "same_locks w w' \<longleftrightarrow> lw_locks w' = lw_locks w \<and> i_locks w' = i_locks w \<and> lw_shares w' = lw_shares w \<and> i_shares w' = i_shares w"

lemma same_locks_held: "same_locks w w' \<Longrightarrow> held w' = held w"
  by (rule ext) (simp add: same_locks_def held_def holds_at_def)

lemma same_locks_trans: "same_locks w w' \<Longrightarrow> same_locks w' w'' \<Longrightarrow> same_locks w w''"
  by (simp add: same_locks_def)

lemma owners_changed_same: "owners_changed w w' \<Longrightarrow> same_locks w w'"
  using owners_changed_fields [of w w'] by (simp add: same_locks_def)

lemma nlm4_get_host_inv:
  assumes inv: "nlm_inv x y w"
  obtains (none) "nlm4_get_host mem w n = (None, w)" "n \<notin> h_name ` set (nlm4_hosts w)" "\<exists>site. \<not> mem site"
    | (host) w' where "nlm4_get_host mem w n = (Some n, w')" "nlm_inv x y w'" "n \<in> h_name ` set (nlm4_hosts w')"
        "w' = w\<lparr>nlm4_hosts := nlm4_hosts w'\<rparr>"
proof (cases "n \<in> h_name ` set (nlm4_hosts w)")
  case True
  then have "nlm4_get_host mem w n = (Some n, w)" by (auto simp: nlm4_get_host_def list_ex_iff)
  then show thesis using host [of w] inv True by simp
next
  case False
  then have no: "\<not> list_ex (\<lambda>host. h_name host = n) (nlm4_hosts w)" by (auto simp: list_ex_iff)
  show thesis
  proof (cases "mem ''host'' \<and> mem ''h_name''")
    case f: False
    then have "nlm4_get_host mem w n = (None, w)" using no by (auto simp: nlm4_get_host_def)
    then show thesis using none False f by blast
  next
    case True
    let ?h = "\<lparr>h_name = n, h_locks = [], h_shares = []\<rparr>"
    let ?w = "w\<lparr>nlm4_hosts := ?h # nlm4_hosts w\<rparr>"
    note I = inv_piecesD [OF inv]
    have on: "on_host ?w l m = on_host w l m" "share_on_host ?w l m = share_on_host w l m" for l m
      by (simp_all add: on_host_def share_on_host_def)
    have none_on: "\<not> on_host w l n" "\<not> share_on_host w l n" for l using I(6) False unfolding hosts_ok_def by blast+
    have "hosts_ok ?w"
      unfolding hosts_ok_def on using I(6) False none_on unfolding hosts_ok_def by auto
    moreover have "heap_ok ?w" "lists_ok ?w" using I(1,5) by (simp_all add: heap_ok_def lists_ok_def)
    moreover have "refs_ok x ?w" by (rule refs_ok_same [OF I(2)]) (use held_owner [OF inv] in \<open>auto simp: count_defs\<close>)
    moreover have "active_ok y ?w" by (rule active_ok_same [OF I(3)]) (auto simp: count_defs)
    moreover have "owners_ok ?w" by (rule owners_ok_same [OF I(4)]) auto
    ultimately have i: "nlm_inv x y ?w" by (simp add: nlm_inv_def)
    have "nlm4_get_host mem w n = (Some n, ?w)" using no True by (simp add: nlm4_get_host_def)
    then show thesis using host [of ?w] i by simp
  qed
qed

definition owner_data :: "nlm4_lock \<Rightarrow> lo_data" where
  "owner_data lk = Nlm4Owner (oh lk) (svid lk) (caller_name lk)"

lemma nlm4_match_iff:
  "\<exists>c. d = Nlm4Owner a b c \<Longrightarrow> nlm4_owner_match_op d (ArgNlm4Lock lk) = Some (d = owner_data lk)"
  by (auto simp: owner_data_def)

lemma nlm_owner_data:
  assumes "nlm_inv x y w" "lw_owners w o1 = Some lo"
  obtains a b c where "lo_data lo = Nlm4Owner a b c" "caller w o1 = Some c"
proof -
  have "caller w o1 \<noteq> None" using inv_piecesD(4) [OF assms(1)] assms(2) unfolding owners_ok_def by blast
  then show thesis using that assms(2) by (auto simp: caller_def split: lo_data.splits)
qed

lemma nlm4_find_owner_from_total:
  assumes inv: "nlm_inv x y w" and os: "set os \<subseteq> set (nlm4_owners w)"
  shows "nlm4_find_owner_from w os lk = Some (find (\<lambda>o1. map_option lo_data (lw_owners w o1) = Some (owner_data lk)) os)"
  using os
proof (induction os)
  case (Cons o1 os)
  then obtain lo where lo: "lw_owners w o1 = Some lo" using owners_listed(2) [OF inv, of o1] by auto
  then obtain a b c where "lo_data lo = Nlm4Owner a b c" using nlm_owner_data [OF inv] by metis
  then have "nlm4_owner_match_op (lo_data lo) (ArgNlm4Lock lk) = Some (lo_data lo = owner_data lk)"
    using nlm4_match_iff by blast
  then show ?case using Cons lo by simp
qed simp

lemma owner_alloc_inv:
  assumes inv: "nlm_inv x y w" and new: "\<And>o1 lo. lw_owners w o1 = Some lo \<Longrightarrow> lo_data lo \<noteq> owner_data lk"
    and w': "w' = w\<lparr>lw_next := lw_next w + 1, lw_owners := (lw_owners w)(lw_next w \<mapsto> \<lparr>lo_ref = 1, lo_data = owner_data lk\<rparr>),
              nlm4_owners := lw_next w # nlm4_owners w\<rparr>"
  shows "nlm_inv (x(lw_next w := x (lw_next w) + 1)) y w'" "\<And>o1. lw_owners w o1 \<noteq> None \<Longrightarrow> caller w' o1 = caller w o1"
proof -
  let ?n = "lw_next w"
  note I = inv_piecesD [OF inv] and f = fresh_unlinked [OF inv]
  have ow: "lw_owners w' o1 = (if o1 = ?n then Some \<lparr>lo_ref = 1, lo_data = owner_data lk\<rparr> else lw_owners w o1)" for o1
    by (simp add: w')
  have g: "lw_locks w' = lw_locks w" "lw_shares w' = lw_shares w" "i_locks w' = i_locks w" "i_shares w' = i_shares w"
    "i_active w' = i_active w" "nlm4_hosts w' = nlm4_hosts w" "lw_next w' = ?n + 1" "nlm4_owners w' = ?n # nlm4_owners w"
    by (simp_all add: w')
  show ck: "caller w' o1 = caller w o1" if "lw_owners w o1 \<noteq> None" for o1
  proof -
    have "o1 \<noteq> ?n" using that f(3) by auto
    then show ?thesis by (simp add: caller_def ow)
  qed
  have x0: "x ?n = 0" using held_owner [OF inv, of ?n] f(3) by auto
  have c0: "olocks w ?n + oshares w ?n = 0" using referenced_owner [OF inv, of ?n] f(3) by (metis gr0I)
  have cnt: "olocks w' o1 = olocks w o1" "oshares w' o1 = oshares w o1" "ilocks w' i = ilocks w i" "ishares w' i = ishares w i" for o1 i
    by (simp_all add: count_defs g)
  have "heap_ok w'" using I(1) unfolding heap_ok_def g ow by auto
  moreover have "refs_ok (x(?n := x ?n + 1)) w'"
    unfolding refs_ok_def
  proof (intro conjI allI impI)
    fix o1 assume "0 < (x(?n := x ?n + 1)) o1"
    then show "lw_owners w' o1 \<noteq> None" using held_owner [OF inv, of o1] by (cases "o1 = ?n") (auto simp: ow)
  next
    fix o1 lo assume lo: "lw_owners w' o1 = Some lo"
    show "0 < lo_ref lo" "lo_ref lo = olocks w' o1 + oshares w' o1 + (x(?n := x ?n + 1)) o1"
      using lo refs_okD [OF inv, of o1 lo] x0 c0 by (auto simp: ow cnt split: if_splits)
  qed
  moreover have "active_ok y w'" by (rule active_ok_same [OF I(3) g(5)]) (simp add: cnt)
  moreover have "owners_ok w'"
    unfolding owners_ok_def
  proof (intro conjI allI impI)
    show "distinct (nlm4_owners w')" using owners_listed(1) [OF inv] owners_listed(2) [OF inv, of ?n] f(3) by (simp add: g)
    show "o1 \<in> set (nlm4_owners w') \<longleftrightarrow> lw_owners w' o1 \<noteq> None" for o1
      using owners_listed(2) [OF inv, of o1] by (auto simp: g ow)
    show "caller w' o1 \<noteq> None" if "lw_owners w' o1 \<noteq> None" for o1
    proof (cases "o1 = ?n")
      case True
      then show ?thesis by (simp add: caller_def ow owner_data_def)
    next
      case False
      then have "lw_owners w o1 \<noteq> None" using that by (simp add: ow)
      then show ?thesis using ck [of o1] I(4) unfolding owners_ok_def by simp
    qed
    show "o1 = o2" if "lw_owners w' o1 = Some lo1" "lw_owners w' o2 = Some lo2" "lo_data lo1 = lo_data lo2" for o1 o2 lo1 lo2
    proof -
      have "o1 = o2" if "lw_owners w o1 = Some lo1" "lw_owners w o2 = Some lo2"
        using that \<open>lo_data lo1 = lo_data lo2\<close> I(4) unfolding owners_ok_def by blast
      moreover have "lo_data lo1 \<noteq> owner_data lk" if "lw_owners w o1 = Some lo1" using new that by blast
      moreover have "lo_data lo2 \<noteq> owner_data lk" if "lw_owners w o2 = Some lo2" using new that by blast
      ultimately show ?thesis using that by (auto simp: ow split: if_splits)
    qed
  qed
  moreover have "lists_ok w'" using I(5) by (simp add: lists_ok_def g)
  moreover have "hosts_ok w'"
  proof (rule hosts_ok_same [OF I(6) g(6)])
    fix l n
    have "lw_locks w l = Some lk \<Longrightarrow> caller w' (l_owner lk) = caller w (l_owner lk)" for lk
      using ck I(1) unfolding heap_ok_def by blast
    then show "on_host w' l n = on_host w l n" unfolding on_host_def g by auto
    have "lw_shares w l = Some sh \<Longrightarrow> caller w' (s_owner sh) = caller w (s_owner sh)" for sh
      using ck I(1) unfolding heap_ok_def by blast
    then show "share_on_host w' l n = share_on_host w l n" unfolding share_on_host_def g by auto
  qed
  ultimately show "nlm_inv (x(?n := x ?n + 1)) y w'" by (simp add: nlm_inv_def)
qed

end
