(* ===== verification/NlmCorrect.thy ===== *)
theory NlmCorrect
  imports NlmOps
begin

text \<open>
  The NLM procedures: no reachable state lets one of them use freed or foreign memory, locks of
  different owners exclude each other, unlocking and \<^verbatim>\<open>FREE_ALL\<close> remove exactly what they
  should, and share reservations never conflict.
\<close>

section \<open>Finding owners and conflicts\<close>

text \<open>After \<^verbatim>\<open>nlm4_get_owner\<close> the operation holds a reference to the owner named by the argument.\<close>

definition is_owner :: "lock_world \<Rightarrow> nat \<Rightarrow> nlm4_lock \<Rightarrow> bool" where
  "is_owner w o1 lk \<longleftrightarrow> map_option lo_data (lw_owners w o1) = Some (owner_data lk)"

lemma is_owner_caller: "is_owner w o1 lk \<Longrightarrow> caller w o1 = Some (caller_name lk)"
  by (auto simp: is_owner_def caller_def owner_data_def)

definition callers_extended :: "lock_world \<Rightarrow> lock_world \<Rightarrow> bool" where
  "callers_extended w w' \<longleftrightarrow> (\<forall>o1. lw_owners w o1 \<noteq> None \<longrightarrow>
     map_option lo_data (lw_owners w' o1) = map_option lo_data (lw_owners w o1))"

lemma nlm4_get_owner_inv:
  assumes inv: "nlm_inv x y w"
  obtains (none) "nlm4_get_owner mem w lk = Some (None, w)" "\<exists>site. \<not> mem site"
    | (got) lo w' where "nlm4_get_owner mem w lk = Some (Some lo, w')" "nlm_inv (x(lo := x lo + 1)) y w'"
        "same_locks w w'" "is_owner w' lo lk" "callers_extended w w'" "nlm4_hosts w' = nlm4_hosts w" "i_active w' = i_active w"
proof -
  let ?P = "\<lambda>o1. map_option lo_data (lw_owners w o1) = Some (owner_data lk)"
  have F: "nlm4_find_owner_from w (nlm4_owners w) lk = Some (find ?P (nlm4_owners w))"
    by (rule nlm4_find_owner_from_total [OF inv subset_refl])
  show thesis
  proof (cases "find ?P (nlm4_owners w)")
    case (Some o1)
    then have p: "?P o1" by (auto simp: find_Some_iff)
    then obtain lo where lo: "lw_owners w o1 = Some lo" by auto
    obtain w' where w': "lock_owner_get w o1 = Some w'" "nlm_inv (x(o1 := x o1 + 1)) y w'" "owners_changed w w'"
      by (rule lock_owner_get_inv [OF inv lo])
    have d: "map_option lo_data (lw_owners w' o2) = map_option lo_data (lw_owners w o2)" for o2
      using w'(1) lo by (auto simp: lock_owner_get_def)
    have "nlm4_get_owner mem w lk = Some (Some o1, w')"
      using F Some w'(1) by (simp add: nlm4_get_owner_def nlm4_find_owner_def)
    then show thesis
      using got [OF _ w'(2) owners_changed_same [OF w'(3)]] owners_changed_fields [OF w'(3)] d p
      by (simp add: is_owner_def callers_extended_def)
  next
    case None
    have new: "lo_data lo \<noteq> owner_data lk" if "lw_owners w o1 = Some lo" for o1 lo
      using None that owners_listed(2) [OF inv, of o1] by (auto simp: find_None_iff)
    show thesis
    proof (cases "mem ''lo'' \<and> mem ''lo_oh'' \<and> mem ''lo_caller''")
      case True
      define w' where "w' = w\<lparr>lw_next := lw_next w + 1, lw_owners := (lw_owners w)(lw_next w \<mapsto> \<lparr>lo_ref = 1, lo_data = owner_data lk\<rparr>),
              nlm4_owners := lw_next w # nlm4_owners w\<rparr>"
      note A = owner_alloc_inv [OF inv new w'_def]
      have "nlm4_get_owner mem w lk = Some (Some (lw_next w), w')"
        using F None True by (simp add: nlm4_get_owner_def nlm4_find_owner_def w'_def owner_data_def Let_def)
      moreover have "callers_extended w w'"
        using fresh_unlinked(3) [OF inv] by (auto simp: callers_extended_def w'_def)
      ultimately show thesis using got [OF _ A(1)] by (simp add: w'_def same_locks_def is_owner_def)
    next
      case False
      then have "nlm4_get_owner mem w lk = Some (None, w)"
        using F None by (auto simp: nlm4_get_owner_def nlm4_find_owner_def)
      then show thesis using none False by blast
    qed
  qed
qed

lemma find_conflict_from_total:
  assumes inv: "nlm_inv x y w" and lo: "is_owner w lo lk" and ls: "set ls \<subseteq> set (i_locks w ino)"
  shows "find_conflict_from w ls off len excl (Some lo) (ArgNlm4Lock lk) =
    Some (find (\<lambda>l. \<exists>rl. lw_locks w l = Some rl \<and> (excl \<or> l_exclusive rl) \<and> l_owner rl \<noteq> lo
            \<and> reffs_lock_range_overlap (l_offset rl) (l_len rl) off len) ls)"
  using ls
proof (induction ls)
  case (Cons l ls)
  then have "l \<in> set (i_locks w ino)" by simp
  then obtain rl rlo c where rl: "lw_locks w l = Some rl" "lw_owners w (l_owner rl) = Some rlo"
    using linked_lock [OF inv] by metis
  obtain lo1 where lo1: "lw_owners w lo = Some lo1" "lo_data lo1 = owner_data lk" using lo by (auto simp: is_owner_def)
  obtain a b c where d: "lo_data rlo = Nlm4Owner a b c" using nlm_owner_data [OF inv rl(2)] by metis
  then have m: "lo_match (lo_data lo1) (lo_data rlo) (ArgNlm4Lock lk) = Some (lo_data rlo = owner_data lk)"
    using nlm4_match_iff [of "lo_data rlo"] lo1(2) by (simp add: owner_data_def)
  have "lo_data rlo = owner_data lk \<longleftrightarrow> l_owner rl = lo"
    using inv_piecesD(4) [OF inv] rl(2) lo1 unfolding owners_ok_def by (metis option.inject)
  then show ?case using Cons rl lo1(1) m by auto
qed simp

lemma find_conflict_total:
  assumes inv: "nlm_inv x y w" and lo: "is_owner w lo lk"
  obtains (free) "reffs_lock_find_conflict w ino off len excl (Some lo) (ArgNlm4Lock lk) = Some None"
      "\<And>o1 e b. (o1, e, b) \<in> held w ino \<Longrightarrow> o1 \<noteq> lo \<Longrightarrow> b \<in> range_bytes off len \<Longrightarrow> \<not> e \<and> \<not> excl"
    | (conflict) l rl where "reffs_lock_find_conflict w ino off len excl (Some lo) (ArgNlm4Lock lk) = Some (Some l)"
      "l \<in> set (i_locks w ino)" "lw_locks w l = Some rl" "excl \<or> l_exclusive rl" "l_owner rl \<noteq> lo"
      "reffs_lock_range_overlap (l_offset rl) (l_len rl) off len"
proof -
  let ?P = "\<lambda>l. \<exists>rl. lw_locks w l = Some rl \<and> (excl \<or> l_exclusive rl) \<and> l_owner rl \<noteq> lo
            \<and> reffs_lock_range_overlap (l_offset rl) (l_len rl) off len"
  have F: "reffs_lock_find_conflict w ino off len excl (Some lo) (ArgNlm4Lock lk) = Some (find ?P (i_locks w ino))"
    unfolding reffs_lock_find_conflict_def by (rule find_conflict_from_total [OF inv lo subset_refl])
  show thesis
  proof (cases "find ?P (i_locks w ino)")
    case None
    have "\<not> e \<and> \<not> excl" if "(o1, e, b) \<in> held w ino" "o1 \<noteq> lo" "b \<in> range_bytes off len" for o1 e b
    proof -
      from that(1) obtain l rl where l: "l \<in> set (i_locks w ino)" "lw_locks w l = Some rl" "(o1, e, b) \<in> lock_holds rl"
        by (auto simp: held_def holds_at_def split: option.splits)
      then have "\<not> ?P l" using None by (auto simp: find_None_iff)
      moreover have "reffs_lock_range_overlap (l_offset rl) (l_len rl) off len"
        using l(3) that(3) no_overlap_disjoint [of "l_offset rl" "l_len rl" off len] by (auto simp: lock_holds_def)
      ultimately show ?thesis using l that(2) by (auto simp: lock_holds_def)
    qed
    moreover have "reffs_lock_find_conflict w ino off len excl (Some lo) (ArgNlm4Lock lk) = Some None" using F None by simp
    ultimately show thesis using free by blast
  next
    case (Some l)
    then have "?P l" "l \<in> set (i_locks w ino)" by (auto simp: find_Some_iff)
    then show thesis using conflict F Some by auto
  qed
qed

lemma find_same_range_total:
  assumes inv: "nlm_inv x y w" and ls: "set ls \<subseteq> set (i_locks w ino)"
  shows "find_same_range w ls lock = Some (find (\<lambda>l. \<exists>le. lw_locks w l = Some le \<and> l_owner le = l_owner lock
     \<and> l_offset le = l_offset lock \<and> l_len le = l_len lock) ls)"
  using ls
proof (induction ls)
  case (Cons l ls)
  then obtain le where "lw_locks w l = Some le" using linked_lock [OF inv, of l ino] by auto
  then show ?case using Cons by auto
qed simp

section \<open>Locking\<close>

definition same_shares :: "lock_world \<Rightarrow> lock_world \<Rightarrow> bool" where
  "same_shares w w' \<longleftrightarrow> lw_shares w' = lw_shares w \<and> i_shares w' = i_shares w"

lemma held_update:
  assumes inv: "nlm_inv x y w" and l: "l \<in> set (i_locks w ino)"
  shows "held (w\<lparr>lw_locks := (lw_locks w)(l \<mapsto> lk)\<rparr>) ino = (\<Union>k \<in> set (i_locks w ino) - {l}. holds_at w k) \<union> lock_holds lk"
    and "i \<noteq> ino \<Longrightarrow> held (w\<lparr>lw_locks := (lw_locks w)(l \<mapsto> lk)\<rparr>) i = held w i"
proof -
  let ?w = "w\<lparr>lw_locks := (lw_locks w)(l \<mapsto> lk)\<rparr>"
  have at: "holds_at ?w k = (if k = l then lock_holds lk else holds_at w k)" for k by (simp add: holds_at_def)
  show "held ?w ino = (\<Union>k \<in> set (i_locks w ino) - {l}. holds_at w k) \<union> lock_holds lk"
    using l by (auto simp: held_def at split: if_splits)
  show "held ?w i = held w i" if "i \<noteq> ino"
    using linked_once [OF inv l, of i] that by (auto simp: held_def at split: if_splits)
qed

lemma reffs_lock_add_inv:
  assumes inv: "nlm_inv x y w" and l: "lw_locks w l = Some lk" "l_inode lk = Some ino" and u: "unlinked w l"
    and h: "caller w (l_owner lk) = Some h" "h \<in> h_name ` set (nlm4_hosts w)"
  obtains w' where "reffs_lock_add w ino l (Some h) = Some w'" "nlm_inv x y w'" "same_shares w w'" "lw_owners w' = lw_owners w"
    "\<And>i. i \<noteq> ino \<Longrightarrow> held w' i = held w i" "lock_holds lk \<subseteq> held w' ino" "held w' ino \<subseteq> held w ino \<union> lock_holds lk"
    "held w ino \<subseteq> held w' ino \<union> {l_owner lk} \<times> UNIV"
proof -
  let ?P = "\<lambda>k. \<exists>le. lw_locks w k = Some le \<and> l_owner le = l_owner lk \<and> l_offset le = l_offset lk \<and> l_len le = l_len lk"
  have F: "find_same_range w (i_locks w ino) lk = Some (find ?P (i_locks w ino))"
    by (rule find_same_range_total [OF inv subset_refl])
  show thesis
  proof (cases "find ?P (i_locks w ino)")
    case None
    let ?w1 = "w\<lparr>i_locks := (i_locks w)(ino := l # i_locks w ino)\<rparr>"
    let ?w' = "host_add_lock ?w1 h l"
    have run: "reffs_lock_add w ino l (Some h) = Some ?w'" using l(1) F None by (simp add: reffs_lock_add_def Let_def)
    have "distinct (l # i_locks w ino)" using u inv_piecesD(5) [OF inv] by (simp add: unlinked_def lists_ok_def)
    then have i: "nlm_inv x y ?w'" using link_lock_inv [OF inv l u _ _ h, of "l # i_locks w ino"] by simp
    have g: "i_locks ?w' = (i_locks w)(ino := l # i_locks w ino)" "lw_locks ?w' = lw_locks w" by (simp_all add: host_add_lock_def)
    have "held ?w' ino = held w ino \<union> lock_holds lk" "i \<noteq> ino \<Longrightarrow> held ?w' i = held w i" for i
      using l(1) by (auto simp: held_def g holds_at_def)
    then show thesis using that [OF run i] by (auto simp: same_shares_def host_add_lock_def)
  next
    case (Some l')
    then obtain le where le: "l' \<in> set (i_locks w ino)" "lw_locks w l' = Some le" "l_owner le = l_owner lk"
      "l_offset le = l_offset lk" "l_len le = l_len lk" by (auto simp: find_Some_iff)
    let ?le = "le\<lparr>l_exclusive := l_exclusive lk\<rparr>"
    let ?w' = "w\<lparr>lw_locks := (lw_locks w)(l' \<mapsto> ?le)\<rparr>"
    have run: "reffs_lock_add w ino l (Some h) = Some ?w'" using l(1) F Some le(2) by (simp add: reffs_lock_add_def)
    have i: "nlm_inv x y ?w'" by (rule lock_modify_inv [OF inv le(2)]) auto
    have e: "lock_holds ?le = lock_holds lk" using le(3-5) by (simp add: lock_holds_def)
    note H = held_update [OF inv le(1), where lk = ?le, unfolded e]
    have w: "held w ino = (\<Union>k \<in> set (i_locks w ino) - {l'}. holds_at w k) \<union> lock_holds le"
      using le(1,2) by (auto simp: held_def holds_at_def)
    have "lock_holds le \<subseteq> {l_owner lk} \<times> UNIV" using le(3) by (auto simp: lock_holds_def)
    then show thesis using that [OF run i] H(2) unfolding H(1) w by (auto simp: same_shares_def)
  qed
qed

text \<open>What a lock request does to the bytes that are held.\<close>

definition lock_spec :: "lock_world \<Rightarrow> nat \<Rightarrow> bool \<Rightarrow> nlm4_lock \<Rightarrow> nlm4_stats \<Rightarrow> lock_world \<Rightarrow> bool" where
  "lock_spec w ino excl lk st w' \<longleftrightarrow> same_shares w w' \<and> (\<forall>i. i \<noteq> ino \<longrightarrow> held w' i = held w i) \<and>
     (if st = NLM4_GRANTED
      then \<exists>lo. is_owner w' lo lk
          \<and> {lo} \<times> {excl} \<times> range_bytes (a_offset lk) (a_len lk) \<subseteq> held w' ino
          \<and> held w' ino \<subseteq> held w ino \<union> {lo} \<times> {excl} \<times> range_bytes (a_offset lk) (a_len lk)
          \<and> held w ino \<subseteq> held w' ino \<union> {lo} \<times> UNIV
          \<and> (\<forall>o1 e b. (o1, e, b) \<in> held w ino \<longrightarrow> o1 \<noteq> lo \<longrightarrow> b \<in> range_bytes (a_offset lk) (a_len lk) \<longrightarrow> \<not> e \<and> \<not> excl)
      else held w' ino = held w ino)"

lemma lock_spec_unchanged:
  "st \<noteq> NLM4_GRANTED \<Longrightarrow> same_locks w w' \<Longrightarrow> lock_spec w ino excl lk st w'"
  using same_locks_held [of w w'] by (auto simp: lock_spec_def same_shares_def same_locks_def)

text \<open>Freeing a lock that was allocated but never linked.\<close>

lemma free_fresh_lock:
  assumes inv: "nlm_inv x y w" and l: "lw_locks w l = Some lk" and u: "unlinked w l"
    and w0: "lw_locks w = (lw_locks w0)(l \<mapsto> lk)" "lw_locks w0 l = None" "i_locks w = i_locks w0" "lw_shares w = lw_shares w0"
      "i_shares w = i_shares w0"
  obtains w' where "reffs_lock_free w l = Some w'" "nlm_inv x y w'" "same_locks w0 w'"
proof -
  obtain w' where w': "reffs_lock_free w l = Some w'" "nlm_inv x y w'" "lists_same w w'"
    "lw_locks w' = (lw_locks w)(l := None)" "lw_shares w' = lw_shares w" by (rule reffs_lock_free_inv [OF inv l u])
  have "lw_locks w' = lw_locks w0" using w'(4) w0(1,2) by (simp add: fun_upd_idem)
  then show thesis using that [OF w'(1,2)] w'(3,5) w0(3-5) by (simp add: same_locks_def lists_same_def)
qed

lemma nlm4_lock_inv:
  assumes inv: "nlm_inv x y w"
  obtains st w' where "reffs_nlm4_lock mem w ino excl alock = Some (st, w')" "nlm_inv x y w'" "lock_spec w ino excl alock st w'"
proof (cases rule: nlm4_get_owner_inv [OF inv, of mem alock, case_names none got])
  case none
  then show thesis using that [of NLM4_DENIED_NOLOCKS w] inv
    by (simp add: reffs_nlm4_lock_def lock_spec_unchanged same_locks_def)
next
  case (got lo w1)
  note G = reffs_nlm4_lock_def got(1) Let_def
  have put: "\<exists>w2. lock_owner_put w1 lo = Some w2 \<and> nlm_inv x y w2 \<and> same_locks w w2"
    using lock_owner_put_inv [OF got(2), of lo] same_locks_trans [OF got(3) owners_changed_same] by auto
  show thesis
  proof (cases rule: find_conflict_total [OF got(2) got(4), of ino "a_offset alock" "a_len alock" excl, case_names free conflict])
    case (conflict l rl)
    obtain w2 where w2: "lock_owner_put w1 lo = Some w2" "nlm_inv x y w2" "same_locks w w2" using put by blast
    have "reffs_nlm4_lock mem w ino excl alock = Some (NLM4_DENIED, w2)" using conflict(1) w2(1) by (simp add: G)
    then show thesis using that w2(2) lock_spec_unchanged [OF _ w2(3)] by blast
  next
    case free
    show thesis
    proof (cases "mem ''lock''")
      case False
      obtain w2 where w2: "lock_owner_put w1 lo = Some w2" "nlm_inv x y w2" "same_locks w w2" using put by blast
      have "reffs_nlm4_lock mem w ino excl alock = Some (NLM4_DENIED_NOLOCKS, w2)" using free(1) False w2(1) by (simp add: G)
      then show thesis using that w2(2) lock_spec_unchanged [OF _ w2(3)] by blast
    next
      case mem: True
      let ?l = "lw_next w1"
      let ?lk = "\<lambda>i. \<lparr>l_inode = i, l_owner = lo, l_offset = a_offset alock, l_len = a_len alock, l_exclusive = excl\<rparr>"
      let ?a = "\<lambda>w i. w\<lparr>lw_next := ?l + 1, lw_locks := (lw_locks w)(?l \<mapsto> ?lk i)\<rparr>"
      note f = fresh_unlinked [OF got(2)]
      have s: "lw_locks w1 = lw_locks w" "i_locks w1 = i_locks w" "lw_shares w1 = lw_shares w" "i_shares w1 = i_shares w"
        using got(3) by (simp_all add: same_locks_def)
      show thesis
      proof (cases rule: inode_active_get_inv [OF got(2), of ino, case_names gone got2])
        case gone
        have a: "nlm_inv x y (?a w1 None)" using lock_alloc_inv [OF got(2), of "?lk None"] by (simp add: drop_ref_def)
        obtain w' where w': "reffs_lock_free (?a w1 None) ?l = Some w'" "nlm_inv x y w'" "same_locks w w'"
          by (rule free_fresh_lock [OF a, of ?l "?lk None" w]) (use f s in \<open>auto simp: unlinked_def\<close>)
        have "reffs_nlm4_lock mem w ino excl alock = Some (NLM4_DENIED_NOLOCKS, w')" using free(1) mem gone(1) w'(1) by (simp add: G)
        then show thesis using that w'(2) lock_spec_unchanged [OF _ w'(3)] by blast
      next
        case got2
        define w2 where "w2 = w1\<lparr>i_active := (i_active w1)(ino := i_active w1 ino + 1)\<rparr>"
        note got2 = got2 [folded w2_def]
        have n: "lw_next w2 = ?l" "lw_locks w2 = lw_locks w" "i_locks w2 = i_locks w" "lw_shares w2 = lw_shares w" "i_shares w2 = i_shares w"
          "lw_owners w2 = lw_owners w1" using s by (simp_all add: w2_def)
        let ?w3 = "?a w2 (Some ino)"
        have a: "nlm_inv x y ?w3" using lock_alloc_inv [OF got2(2), of "?lk (Some ino)"] n(1) by (simp add: drop_ref_def)
        have u: "unlinked ?w3 ?l" using f(4) n s by (simp add: unlinked_def)
        have sk: "same_locks w (w\<lparr>lw_owners := lw_owners w1\<rparr>)" by (simp add: same_locks_def)
        show thesis
        proof (cases rule: nlm4_get_host_inv [OF a, of mem "caller_name alock", case_names none host])
          case none
          obtain w' where w': "reffs_lock_free ?w3 ?l = Some w'" "nlm_inv x y w'" "same_locks w w'"
            by (rule free_fresh_lock [OF a, of ?l "?lk (Some ino)" w]) (use f s n u in auto)
          have "reffs_nlm4_lock mem w ino excl alock = Some (NLM4_DENIED_NOLOCKS, w')"
            using free(1) mem got2(1) n(1) none(1) w'(1) by (simp add: G)
          then show thesis using that w'(2) lock_spec_unchanged [OF _ w'(3)] by blast
        next
          case (host w4)
          have w4: "lw_locks w4 = (lw_locks w)(?l \<mapsto> ?lk (Some ino))" "i_locks w4 = i_locks w" "lw_shares w4 = lw_shares w"
            "i_shares w4 = i_shares w" "lw_owners w4 = lw_owners w1"
            by (subst host(4), use n in simp)+
          have c: "caller w4 (l_owner (?lk (Some ino))) = Some (caller_name alock)"
            using is_owner_caller [OF got(4)] caller_cong [OF w4(5)] by simp
          obtain w' where w': "reffs_lock_add w4 ino ?l (Some (caller_name alock)) = Some w'" "nlm_inv x y w'" "same_shares w4 w'"
            "lw_owners w' = lw_owners w4" "\<And>i. i \<noteq> ino \<Longrightarrow> held w' i = held w4 i" "lock_holds (?lk (Some ino)) \<subseteq> held w' ino"
            "held w' ino \<subseteq> held w4 ino \<union> lock_holds (?lk (Some ino))" "held w4 ino \<subseteq> held w' ino \<union> {l_owner (?lk (Some ino))} \<times> UNIV"
            by (rule reffs_lock_add_inv [OF host(2), of ?l "?lk (Some ino)" ino "caller_name alock"])
              (use w4 c host(3) u n in \<open>auto simp: unlinked_def\<close>)
          have "k \<noteq> ?l" if "k \<in> set (i_locks w i)" for k i using that f(4) s by (auto simp: unlinked_def)
          then have "holds_at w4 k = holds_at w k" if "k \<in> set (i_locks w i)" for k i
            using that by (auto simp: holds_at_def w4)
          then have h4: "held w4 i = held w i" for i by (simp add: held_def w4)
          have "held w1 = held w" by (rule same_locks_held [OF got(3)])
          then have "lock_spec w ino excl alock NLM4_GRANTED w'"
            unfolding lock_spec_def using w'(3-8) free(2) got(4) w4 h4
            by (auto simp: lock_holds_def is_owner_def same_shares_def)
          moreover have "reffs_nlm4_lock mem w ino excl alock = Some (NLM4_GRANTED, w')"
            using free(1) mem got2(1) n(1) host(1) w'(1) by (simp add: G)
          ultimately show thesis using that w'(2) by blast
        qed
      qed
    qed
  qed
qed

section \<open>Unlocking\<close>

lemma lock_owner_put_lists:
  "lock_owner_put w o1 = Some w' \<Longrightarrow> i_shares w' = i_shares w \<and> i_locks w' = i_locks w \<and> nlm4_hosts w' = nlm4_hosts w"
  by (cases "lw_owners w o1") (auto simp: lock_owner_put_def lo_release_def split: lo_data.splits if_splits)

lemma reffs_lock_free_shares: "reffs_lock_free w l = Some w' \<Longrightarrow> same_shares w w'"
proof -
  assume "reffs_lock_free w l = Some w'"
  then obtain lk :: reffs_lock and z where z: "lock_owner_put (inode_active_put w (l_inode lk)) (l_owner lk) = Some z"
    "w' = z\<lparr>lw_locks := (lw_locks z)(l := None)\<rparr>" unfolding reffs_lock_free_def bind_eq_Some_conv option.inject by metis
  then show ?thesis using lock_owner_put_heaps [OF z(1)] lock_owner_put_lists [OF z(1)]
    by (auto simp: same_shares_def inode_active_put_def split: option.splits)
qed

lemma lock_remove_step_shares:
  assumes "lock_remove_step mem ino u_off u_len owner host_list l w = Some (e, w')"
  shows "same_shares w w'"
proof -
  obtain le where le: "lw_locks w l = Some le" using assms by (auto simp: lock_remove_step_def bind_eq_Some_conv)
  have del: "lw_shares w2 = lw_shares w1 \<and> i_shares w2 = i_shares w1" if "host_del_lock w1 l = Some w2" for w1 w2
    using that by (auto simp: host_del_lock_def split: if_splits)
  have free: "lw_shares w2 = lw_shares w1 \<and> i_shares w2 = i_shares w1" if "reffs_lock_free w1 l = Some w2" for w1 w2
    using reffs_lock_free_shares [OF that] by (simp add: same_shares_def)
  show ?thesis
    using assms le
    by (auto simp: lock_remove_step_def Let_def bind_eq_Some_conv same_shares_def lock_owner_get_def inode_active_get_def
        host_add_lock_def split: if_splits option.splits dest!: del free)
qed

lemma lock_remove_from_shares:
  "lock_remove_from mem ino u_off u_len owner host_list ls w = Some (e, w') \<Longrightarrow> same_shares w w'"
proof (induction ls arbitrary: w)
  case (Cons l ls)
  then obtain e1 w1 where s: "lock_remove_step mem ino u_off u_len owner host_list l w = Some (e1, w1)"
    "(case e1 of Some e \<Rightarrow> Some (Some e, w1) | None \<Rightarrow> lock_remove_from mem ino u_off u_len owner host_list ls w1) = Some (e, w')"
    by (auto simp: bind_eq_Some_conv)
  show ?case using lock_remove_step_shares [OF s(1)] s(2) Cons.IH
    by (cases e1) (auto simp: same_shares_def)
qed (simp add: same_shares_def)

definition request_cut :: "lock_world \<Rightarrow> nlm4_lock \<Rightarrow> (nat \<times> bool \<times> nat) set" where
  "request_cut w lk = {(o1, e, b). is_owner w o1 lk \<and> b \<in> range_bytes (a_offset lk) (a_len lk)}"

lemma unique_owner: "nlm_inv x y w \<Longrightarrow> is_owner w o1 lk \<Longrightarrow> is_owner w o2 lk \<Longrightarrow> o1 = o2"
  using inv_piecesD(4) unfolding is_owner_def owners_ok_def by fastforce

lemma held_owner_allocated:
  assumes "nlm_inv x y w" "(o1, e, b) \<in> held w ino" shows "lw_owners w o1 \<noteq> None"
proof -
  from assms(2) obtain l lk where "lw_locks w l = Some lk" "l_owner lk = o1"
    by (auto simp: held_def holds_at_def lock_holds_def split: option.splits)
  then show ?thesis using inv_piecesD(1) [OF assms(1)] unfolding heap_ok_def by blast
qed

lemma request_cut_held:
  assumes inv: "nlm_inv x y w" "nlm_inv x' y' w1" and e: "callers_extended w w1" and lo: "is_owner w1 lo lk"
  shows "held w ino - cut lo (a_offset lk) (a_len lk) = held w ino - request_cut w lk"
proof -
  have "is_owner w o1 lk \<longleftrightarrow> o1 = lo" if "lw_owners w o1 \<noteq> None" for o1
  proof -
    have "is_owner w1 o1 lk \<longleftrightarrow> is_owner w o1 lk" using e that unfolding callers_extended_def is_owner_def by simp
    then show ?thesis using unique_owner [OF inv(2) lo] lo by blast
  qed
  then show ?thesis using held_owner_allocated [OF inv(1)] by (auto simp: cut_def request_cut_def)
qed

lemma nlm4_unlock_inv:
  assumes inv: "nlm_inv x y w"
  obtains st w' where "reffs_nlm4_unlock mem memsplit w ino alock = Some (st, w')" "nlm_inv x y w'" "same_shares w w'"
    "\<And>i. i \<noteq> ino \<Longrightarrow> held w' i = held w i" "held w' ino \<subseteq> held w ino" "held w ino - request_cut w alock \<subseteq> held w' ino"
    "(\<And>site. mem site) \<Longrightarrow> (\<And>l. memsplit l) \<Longrightarrow> st = NLM4_GRANTED \<and> held w' ino = held w ino - request_cut w alock"
proof (cases rule: nlm4_get_owner_inv [OF inv, of mem alock, case_names none got])
  case none
  have "reffs_nlm4_unlock mem memsplit w ino alock = Some (NLM4_DENIED_NOLOCKS, w)" using none(1) by (simp add: reffs_nlm4_unlock_def)
  then show thesis using that inv none(2) by (auto simp: same_shares_def)
next
  case (got lo w1)
  have caller: "caller w1 lo = Some (caller_name alock)" by (rule is_owner_caller [OF got(4)])
  obtain host w2 where h: "nlm4_get_host mem w1 (caller_name alock) = (host, w2)" by fastforce
  have w2: "nlm_inv (x(lo := x lo + 1)) y w2" "w2 = w1\<lparr>nlm4_hosts := nlm4_hosts w2\<rparr>"
    "caller_name alock \<in> h_name ` set (nlm4_hosts w2) \<longrightarrow> host = Some (caller_name alock)"
    by (cases rule: nlm4_get_host_inv [OF got(2), of mem "caller_name alock", case_names none host]; use h got(2) in simp)+
  have f2: "lw_owners w2 = lw_owners w1" "same_locks w1 w2" by (subst w2(2), simp add: same_locks_def)+
  obtain w3 where w3: "lock_owner_put w2 lo = Some w3" "nlm_inv x y w3" "owners_changed w2 w3"
    using lock_owner_put_inv [OF w2(1), of lo] by auto
  have sl: "same_locks w w3" using same_locks_trans [OF got(3) same_locks_trans [OF f2(2) owners_changed_same [OF w3(3)]]] .
  have ok: "host_arg_ok w3 ino lo host"
    unfolding host_arg_ok_def
  proof (intro allI impI)
    fix l lk assume l: "l \<in> set (i_locks w3 ino)" "lw_locks w3 l = Some lk" "l_owner lk = lo"
    have "lw_owners w3 lo \<noteq> None" using l inv_piecesD(1) [OF w3(2)] unfolding heap_ok_def by blast
    then have c: "caller w3 lo = Some (caller_name alock)"
      using owners_changed_caller [OF w3(3)] caller caller_cong [OF f2(1)] by simp
    then have "on_host w3 l (caller_name alock)" using l by (auto simp: on_host_def)
    then have "caller_name alock \<in> h_name ` set (nlm4_hosts w3)" using inv_piecesD(6) [OF w3(2)] unfolding hosts_ok_def by blast
    then show "host \<noteq> None \<and> caller w3 lo = host" using w2(3) owners_changed_fields(6) [OF w3(3)] c by simp
  qed
  obtain e w' where w': "reffs_lock_remove memsplit w3 ino (a_offset alock) (a_len alock) lo host = Some (e, w')" "nlm_inv x y w'"
    "e = None \<or> e = Some ENOMEM \<and> (\<exists>l. \<not> memsplit l)" "\<And>i. i \<noteq> ino \<Longrightarrow> held w' i = held w3 i"
    "held w' ino \<subseteq> held w3 ino" "held w3 ino - cut lo (a_offset alock) (a_len alock) \<subseteq> held w' ino"
    "e = None \<Longrightarrow> held w' ino = held w3 ino - cut lo (a_offset alock) (a_len alock)"
    using reffs_lock_remove_inv [OF w3(2) ok, where mem = memsplit and offset = "a_offset alock" and len = "a_len alock"] by metis
  have run: "reffs_nlm4_unlock mem memsplit w ino alock = Some (NLM4_GRANTED, w')"
    using got(1) h w3(1) w'(1) by (simp add: reffs_nlm4_unlock_def)
  note h3 = same_locks_held [OF sl] and rc = request_cut_held [OF inv got(2,5,4), of ino]
  have "same_shares w w'"
    using lock_remove_from_shares [OF w'(1) [unfolded reffs_lock_remove_def]] sl by (simp add: same_shares_def same_locks_def)
  then show thesis
    using that [OF run w'(2)] w'(3-7) unfolding h3 rc by blast
qed

end
