(* ===== verification/NlmReach.thy ===== *)
theory NlmReach
  imports NlmCorrect
begin

text \<open>
  Tests, shares and \<^verbatim>\<open>FREE_ALL\<close> of the NLM lock manager, the states that its procedures can
  reach, and the properties of those states.
\<close>

section \<open>Dropping one lock or share\<close>

lemma drop_lock_inv:
  assumes inv: "nlm_inv x y w" and l: "l \<in> set (i_locks w ino)"
  obtains w' where "host_del_lock (w\<lparr>i_locks := (i_locks w)(ino := remove1 l (i_locks w ino))\<rparr>) l = Some (unlink_lock w ino l)"
    "reffs_lock_free (unlink_lock w ino l) l = Some w'" "nlm_inv x y w'" "callers_kept w w'"
    "i_locks w' = (i_locks w)(ino := remove1 l (i_locks w ino))" "lw_locks w' = (lw_locks w)(l := None)" "same_shares w w'"
    "map h_name (nlm4_hosts w') = map h_name (nlm4_hosts w)"
proof -
  obtain lk where lk: "lw_locks w l = Some lk" using linked_lock [OF inv l] by metis
  note u = unlink_lock_inv [OF inv l]
  have l': "lw_locks (unlink_lock w ino l) l = Some lk" using lk by (simp add: unlink_lock_def)
  obtain w' where w': "reffs_lock_free (unlink_lock w ino l) l = Some w'" "nlm_inv x y w'"
    "lists_same (unlink_lock w ino l) w'" "lw_locks w' = (lw_locks (unlink_lock w ino l))(l := None)"
    "lw_shares w' = lw_shares (unlink_lock w ino l)"
    by (rule reffs_lock_free_inv [OF u(1) l' u(2)])
  have "lw_owners (unlink_lock w ino l) = lw_owners w" by (simp add: unlink_lock_def)
  from callers_kept_trans [OF callers_kept_same [OF this] lists_same_kept [OF w'(3)]] have k: "callers_kept w w'" .
  have d: "host_del_lock (w\<lparr>i_locks := (i_locks w)(ino := remove1 l (i_locks w ino))\<rparr>) l = Some (unlink_lock w ino l)"
    using host_del_lock_Some [OF inv l, of "w\<lparr>i_locks := (i_locks w)(ino := remove1 l (i_locks w ino))\<rparr>"]
    by (simp add: unlink_lock_def)
  have "map h_name (nlm4_hosts (unlink_lock w ino l)) = map h_name (nlm4_hosts w)" by (simp add: unlink_lock_def)
  then show thesis using that [OF d w'(1,2) k] w'(3-5) by (simp add: lists_same_def same_shares_def unlink_lock_def)
qed

lemma drop_share_inv:
  assumes inv: "nlm_inv x y w" and s: "s \<in> set (i_shares w ino)"
  obtains w' where "host_del_share (w\<lparr>i_shares := (i_shares w)(ino := remove1 s (i_shares w ino))\<rparr>) s = Some (unlink_share w ino s)"
    "reffs_share_free (unlink_share w ino s) s = Some w'" "nlm_inv x y w'" "callers_kept w w'"
    "i_shares w' = (i_shares w)(ino := remove1 s (i_shares w ino))" "lw_shares w' = (lw_shares w)(s := None)"
    "i_locks w' = i_locks w" "lw_locks w' = lw_locks w" "map h_name (nlm4_hosts w') = map h_name (nlm4_hosts w)"
proof -
  obtain sh where sh: "lw_shares w s = Some sh" using linked_share [OF inv s] by metis
  note u = unlink_share_inv [OF inv s]
  have s': "lw_shares (unlink_share w ino s) s = Some sh" using sh by (simp add: unlink_share_def)
  obtain w' where w': "reffs_share_free (unlink_share w ino s) s = Some w'" "nlm_inv x y w'"
    "lists_same (unlink_share w ino s) w'" "lw_shares w' = (lw_shares (unlink_share w ino s))(s := None)"
    "lw_locks w' = lw_locks (unlink_share w ino s)"
    by (rule reffs_share_free_inv [OF u(1) s' u(2)])
  have "lw_owners (unlink_share w ino s) = lw_owners w" by (simp add: unlink_share_def)
  from callers_kept_trans [OF callers_kept_same [OF this] lists_same_kept [OF w'(3)]] have k: "callers_kept w w'" .
  have d: "host_del_share (w\<lparr>i_shares := (i_shares w)(ino := remove1 s (i_shares w ino))\<rparr>) s = Some (unlink_share w ino s)"
    using host_del_share_Some [OF inv s, of "w\<lparr>i_shares := (i_shares w)(ino := remove1 s (i_shares w ino))\<rparr>"]
    by (simp add: unlink_share_def)
  have "map h_name (nlm4_hosts (unlink_share w ino s)) = map h_name (nlm4_hosts w)" by (simp add: unlink_share_def)
  then show thesis using that [OF d w'(1,2) k] w'(3-5) by (simp add: lists_same_def unlink_share_def)
qed

section \<open>Tests\<close>

lemma nlm4_test_inv:
  assumes inv: "nlm_inv x y w"
  obtains r w' where "reffs_nlm4_test mem w ino excl alock = Some (r, w')" "nlm_inv x y w'" "same_locks w w'"
proof (cases rule: nlm4_get_owner_inv [OF inv, of mem alock, case_names none got])
  case none
  then show thesis using that [of "TestStat NLM4_DENIED_NOLOCKS" w] inv by (simp add: reffs_nlm4_test_def same_locks_def)
next
  case (got lo w1)
  note G = reffs_nlm4_test_def got(1)
  obtain w2 where w2: "lock_owner_put w1 lo = Some w2" "nlm_inv x y w2" "same_locks w w2"
    using lock_owner_put_inv [OF got(2), of lo] same_locks_trans [OF got(3) owners_changed_same] by auto
  show thesis
  proof (cases rule: find_conflict_total [OF got(2) got(4), of ino "a_offset alock" "a_len alock" excl, case_names free conflict])
    case free
    then show thesis using that [OF _ w2(2,3)] w2(1) by (simp add: G)
  next
    case (conflict l rl)
    obtain clo where clo: "lw_owners w1 (l_owner rl) = Some clo" using linked_lock [OF got(2) conflict(2)] conflict(3) by (metis option.inject)
    then obtain a b c where "lo_data clo = Nlm4Owner a b c" using nlm_owner_data [OF got(2)] by metis
    then show thesis using that [OF _ w2(2,3)] w2(1) conflict(1,3) clo by (cases "mem ''n_bytes''") (simp_all add: G)
  qed
qed

section \<open>Shares\<close>

text \<open>Share reservations of an inode: at most one per owner, and none that denies another's access.\<close>

definition share_at :: "lock_world \<Rightarrow> nat \<Rightarrow> nat \<Rightarrow> reffs_share \<Rightarrow> bool" where
  "share_at w ino s sh \<longleftrightarrow> s \<in> set (i_shares w ino) \<and> lw_shares w s = Some sh"

definition shares_ok :: "lock_world \<Rightarrow> bool" where
  "shares_ok w \<longleftrightarrow> (\<forall>ino s1 s2 sh1 sh2. share_at w ino s1 sh1 \<longrightarrow> share_at w ino s2 sh2 \<longrightarrow>
     (s_owner sh1 = s_owner sh2 \<longrightarrow> s1 = s2) \<and>
     (s_owner sh1 \<noteq> s_owner sh2 \<longrightarrow> \<not> reffs_share_conflict (s_mode sh1) (s_access sh1) (s_mode sh2) (s_access sh2)))"

lemma share_conflict_sym: "reffs_share_conflict a b c d = reffs_share_conflict c d a b"
  by (auto simp: reffs_share_conflict_def)

lemma shares_ok_same: "same_shares w w' \<Longrightarrow> shares_ok w' = shares_ok w"
  by (simp add: shares_ok_def share_at_def same_shares_def)

lemma same_locks_shares: "same_locks w w' \<Longrightarrow> same_shares w w'"
  by (simp add: same_locks_def same_shares_def)

lemma share_scan_total:
  assumes inv: "nlm_inv x y w" and ss: "set ss \<subseteq> set (i_shares w ino)"
  obtains (conflict) "share_scan w ss share ex = Some (Inl EACCES)"
    | (free) r where "share_scan w ss share ex = Some (Inr r)"
       "\<And>s se. s \<in> set ss \<Longrightarrow> lw_shares w s = Some se \<Longrightarrow> s_owner se \<noteq> s_owner share \<Longrightarrow>
          \<not> reffs_share_conflict (s_mode se) (s_access se) (s_mode share) (s_access share)"
       "r = ex \<and> (\<forall>s \<in> set ss. \<forall>se. lw_shares w s = Some se \<longrightarrow> s_owner se \<noteq> s_owner share)
        \<or> (\<exists>s se. r = Some s \<and> s \<in> set ss \<and> lw_shares w s = Some se \<and> s_owner se = s_owner share)"
proof -
  have "share_scan w ss share ex = Some (Inl EACCES) \<or>
    (\<exists>r. share_scan w ss share ex = Some (Inr r) \<and>
       (\<forall>s se. s \<in> set ss \<longrightarrow> lw_shares w s = Some se \<longrightarrow> s_owner se \<noteq> s_owner share \<longrightarrow>
          \<not> reffs_share_conflict (s_mode se) (s_access se) (s_mode share) (s_access share)) \<and>
       (r = ex \<and> (\<forall>s \<in> set ss. \<forall>se. lw_shares w s = Some se \<longrightarrow> s_owner se \<noteq> s_owner share)
        \<or> (\<exists>s se. r = Some s \<and> s \<in> set ss \<and> lw_shares w s = Some se \<and> s_owner se = s_owner share)))"
    using ss
  proof (induction ss arbitrary: ex)
    case (Cons s ss)
    then have "s \<in> set (i_shares w ino)" by simp
    then obtain se where se: "lw_shares w s = Some se" using linked_share [OF inv] by metis
    have sub: "set ss \<subseteq> set (i_shares w ino)" using Cons.prems by simp
    show ?case
    proof (cases "s_owner se = s_owner share")
      case True
      then show ?thesis using Cons.IH [OF sub, of "Some s"] se by auto
    next
      case False
      then show ?thesis using Cons.IH [OF sub, of ex] se
        by (cases "reffs_share_conflict (s_mode se) (s_access se) (s_mode share) (s_access share)") auto
    qed
  qed simp
  then show thesis using conflict free by blast
qed

text \<open>The inode lists and the heap of locks are the same.\<close>

definition kept_locks :: "lock_world \<Rightarrow> lock_world \<Rightarrow> bool" where
  "kept_locks w w' \<longleftrightarrow> lw_locks w' = lw_locks w \<and> i_locks w' = i_locks w"

lemma kept_locks_held: "kept_locks w w' \<Longrightarrow> held w' = held w"
  by (rule ext) (simp add: kept_locks_def held_def holds_at_def)

lemma share_at_inode:
  assumes "nlm_inv x y w" "share_at w i s sh" "share_at w j s sh'" shows "i = j"
  using assms linked_share [OF assms(1), of s i] linked_share [OF assms(1), of s j] unfolding share_at_def
  by (metis option.inject)

lemma reffs_share_add_inv:
  assumes inv: "nlm_inv x y w" and s: "lw_shares w s = Some sh" "s_inode sh = Some ino" and u: "s_unlinked w s"
    and h: "caller w (s_owner sh) = Some h" "h \<in> h_name ` set (nlm4_hosts w)" and ok: "shares_ok w"
  obtains e w' where "reffs_share_add w ino s (Some h) = Some (e, w')" "nlm_inv x y w'" "kept_locks w w'" "shares_ok w'"
proof (cases rule: share_scan_total [OF inv subset_refl, of ino sh None, case_names conflict free])
  case conflict
  then show thesis using that [of "Some EACCES" w] s(1) inv ok by (simp add: reffs_share_add_def kept_locks_def)
next
  case (free r)
  have nin: "s \<notin> set (i_shares w i)" for i using u by (simp add: s_unlinked_def)
  show thesis
  proof (cases r)
    case None
    let ?w' = "host_add_share (w\<lparr>i_shares := (i_shares w)(ino := s # i_shares w ino)\<rparr>) h s"
    have run: "reffs_share_add w ino s (Some h) = Some (None, ?w')"
      using s(1) free(1) None by (simp add: reffs_share_add_def Let_def)
    have "distinct (s # i_shares w ino)" using nin inv_piecesD(5) [OF inv] by (simp add: lists_ok_def)
    then have i: "nlm_inv x y ?w'" using link_share_inv [OF inv s u _ _ h, of "s # i_shares w ino"] by simp
    have at: "share_at ?w' i t sh1 \<longleftrightarrow> (i = ino \<and> t = s \<and> sh1 = sh) \<or> share_at w i t sh1" for i t sh1
      using s(1) nin by (auto simp: share_at_def host_add_share_def)
    have new: "s_owner sh1 \<noteq> s_owner sh \<and> \<not> reffs_share_conflict (s_mode sh1) (s_access sh1) (s_mode sh) (s_access sh)"
      if "share_at w ino t sh1" for t sh1
      using free(2,3) None that unfolding share_at_def by blast
    have "shares_ok ?w'"
      unfolding shares_ok_def
    proof (intro allI impI)
      fix i s1 s2 sh1 sh2 assume "share_at ?w' i s1 sh1" "share_at ?w' i s2 sh2"
      then show "(s_owner sh1 = s_owner sh2 \<longrightarrow> s1 = s2) \<and>
         (s_owner sh1 \<noteq> s_owner sh2 \<longrightarrow> \<not> reffs_share_conflict (s_mode sh1) (s_access sh1) (s_mode sh2) (s_access sh2))"
        unfolding at using ok new share_conflict_sym unfolding shares_ok_def by metis
    qed
    moreover have "kept_locks w ?w'" by (simp add: kept_locks_def host_add_share_def)
    ultimately show thesis using that [OF run i] by blast
  next
    case (Some s')
    then obtain se where se: "s' \<in> set (i_shares w ino)" "lw_shares w s' = Some se" "s_owner se = s_owner sh"
      using free(3) by auto
    let ?se = "se\<lparr>s_mode := s_mode sh, s_access := s_access sh\<rparr>"
    let ?w1 = "w\<lparr>lw_shares := (lw_shares w)(s' \<mapsto> ?se)\<rparr>"
    have i1: "nlm_inv x y ?w1" by (rule share_modify_inv [OF inv se(2)]) auto
    have ne: "s \<noteq> s'" using se(1) nin by auto
    have s1: "lw_shares ?w1 s = Some sh" "s_unlinked ?w1 s" using s(1) ne u by (simp_all add: s_unlinked_def)
    obtain w' where w': "reffs_share_free ?w1 s = Some w'" "nlm_inv x y w'" "lists_same ?w1 w'"
      "lw_shares w' = (lw_shares ?w1)(s := None)" "lw_locks w' = lw_locks ?w1"
      by (rule reffs_share_free_inv [OF i1 s1])
    have run: "reffs_share_add w ino s (Some h) = Some (None, w')"
      using s(1) free(1) Some se(2) w'(1) by (simp add: reffs_share_add_def)
    have il: "i_shares w' = i_shares w" "kept_locks w w'" using w'(3,5) by (simp_all add: lists_same_def kept_locks_def)
    have at: "share_at w' i t sh1 \<longleftrightarrow> (if t = s' then i = ino \<and> sh1 = ?se else share_at w i t sh1)" for i t sh1
    proof (cases "t = s'")
      case True
      have "s' \<in> set (i_shares w i) \<longleftrightarrow> i = ino"
        using share_at_inode [OF inv, of i s' se ino se] se unfolding share_at_def by blast
      then show ?thesis using True ne by (auto simp: share_at_def il w'(4))
    next
      case False
      then show ?thesis using nin [of i] by (auto simp: share_at_def il w'(4))
    qed
    have old: "share_at w ino s' se" using se by (simp add: share_at_def)
    have new: "s_owner sh1 \<noteq> s_owner sh \<and> \<not> reffs_share_conflict (s_mode sh1) (s_access sh1) (s_mode sh) (s_access sh)"
      if "share_at w ino t sh1" "t \<noteq> s'" for t sh1
    proof -
      have "s_owner sh1 \<noteq> s_owner sh" using ok that old se(3) unfolding shares_ok_def by metis
      then show ?thesis using free(2) that(1) unfolding share_at_def by blast
    qed
    have "shares_ok w'"
      unfolding shares_ok_def
    proof (intro allI impI)
      fix i s1 s2 sh1 sh2 assume a: "share_at w' i s1 sh1" "share_at w' i s2 sh2"
      have e: "s_owner ?se = s_owner sh" "s_mode ?se = s_mode sh" "s_access ?se = s_access sh" using se(3) by simp_all
      show "(s_owner sh1 = s_owner sh2 \<longrightarrow> s1 = s2) \<and>
         (s_owner sh1 \<noteq> s_owner sh2 \<longrightarrow> \<not> reffs_share_conflict (s_mode sh1) (s_access sh1) (s_mode sh2) (s_access sh2))"
      proof (cases "s1 = s'"; cases "s2 = s'")
        assume "s1 = s'" "s2 = s'" then show ?thesis using a unfolding at by simp
      next
        assume c: "s1 = s'" "s2 \<noteq> s'"
        then have "i = ino" "sh1 = ?se" "share_at w ino s2 sh2" using a unfolding at by simp_all
        then show ?thesis using new [OF _ c(2)] e share_conflict_sym [of "s_mode sh2"] by metis
      next
        assume c: "s1 \<noteq> s'" "s2 = s'"
        then have "i = ino" "sh2 = ?se" "share_at w ino s1 sh1" using a unfolding at by simp_all
        then show ?thesis using new [OF _ c(1)] e by metis
      next
        assume "s1 \<noteq> s'" "s2 \<noteq> s'"
        then show ?thesis using a ok unfolding at shares_ok_def by simp
      qed
    qed
    then show thesis using that [OF run w'(2) il(2)] by blast
  qed
qed

lemma free_fresh_share:
  assumes inv: "nlm_inv x y w" and l: "lw_shares w l = Some lk" and u: "s_unlinked w l"
    and w0: "lw_shares w = (lw_shares w0)(l \<mapsto> lk)" "lw_shares w0 l = None" "i_locks w = i_locks w0" "lw_locks w = lw_locks w0"
      "i_shares w = i_shares w0"
  obtains w' where "reffs_share_free w l = Some w'" "nlm_inv x y w'" "same_locks w0 w'"
proof -
  obtain w' where w': "reffs_share_free w l = Some w'" "nlm_inv x y w'" "lists_same w w'"
    "lw_shares w' = (lw_shares w)(l := None)" "lw_locks w' = lw_locks w" by (rule reffs_share_free_inv [OF inv l u])
  have "lw_shares w' = lw_shares w0" using w'(4) w0(1,2) by (simp add: fun_upd_idem)
  then show thesis using that [OF w'(1,2)] w'(3,5) w0(3-5) by (simp add: same_locks_def lists_same_def)
qed

lemma nlm4_share_inv:
  assumes inv: "nlm_inv x y w" and ok: "shares_ok w"
  obtains st w' where "reffs_nlm4_share mem w ino sh = Some (st, w')" "nlm_inv x y w'" "kept_locks w w'" "shares_ok w'"
proof (cases rule: nlm4_get_owner_inv [OF inv, of mem "share_owner_arg sh", case_names none got])
  case none
  then show thesis using that [of NLM4_DENIED_NOLOCKS w] inv ok by (simp add: reffs_nlm4_share_def kept_locks_def)
next
  case (got lo w1)
  note G = reffs_nlm4_share_def got(1) Let_def
  have fin: "nlm_inv x y w2 \<Longrightarrow> same_locks w w2 \<Longrightarrow> reffs_nlm4_share mem w ino sh = Some (st, w2) \<Longrightarrow> thesis" for w2 st
  proof -
    assume a: "nlm_inv x y w2" "same_locks w w2" "reffs_nlm4_share mem w ino sh = Some (st, w2)"
    have "shares_ok w2" using shares_ok_same [OF same_locks_shares [OF a(2)]] ok by simp
    moreover have "kept_locks w w2" using a(2) by (simp add: kept_locks_def same_locks_def)
    ultimately show thesis using that a(1,3) by blast
  qed
  have s: "lw_locks w1 = lw_locks w" "i_locks w1 = i_locks w" "lw_shares w1 = lw_shares w" "i_shares w1 = i_shares w"
    using got(3) by (simp_all add: same_locks_def)
  show thesis
  proof (cases "mem ''share''")
    case False
    obtain w2 where w2: "lock_owner_put w1 lo = Some w2" "nlm_inv x y w2" "same_locks w w2"
      using lock_owner_put_inv [OF got(2), of lo] same_locks_trans [OF got(3) owners_changed_same] by auto
    show thesis by (rule fin [OF w2(2,3)]) (use False w2(1) in \<open>simp add: G\<close>)
  next
    case mem: True
    let ?s = "lw_next w1"
    let ?sh = "\<lambda>i. \<lparr>s_inode = i, s_owner = lo, s_mode = sh_mode sh, s_access = sh_access sh\<rparr>"
    let ?a = "\<lambda>w i. w\<lparr>lw_next := ?s + 1, lw_shares := (lw_shares w)(?s \<mapsto> ?sh i)\<rparr>"
    note f = fresh_s_unlinked [OF got(2)]
    show thesis
    proof (cases rule: inode_active_get_inv [OF got(2), of ino, case_names gone got2])
      case gone
      have a: "nlm_inv x y (?a w1 None)" using share_alloc_inv [OF got(2), of "?sh None"] by (simp add: drop_ref_def)
      obtain w' where w': "reffs_share_free (?a w1 None) ?s = Some w'" "nlm_inv x y w'" "same_locks w w'"
        by (rule free_fresh_share [OF a, of ?s "?sh None" w]) (use f s in \<open>auto simp: s_unlinked_def\<close>)
      show thesis by (rule fin [OF w'(2,3)]) (use mem gone(1) w'(1) in \<open>simp add: G\<close>)
    next
      case got2
      define w2 where "w2 = w1\<lparr>i_active := (i_active w1)(ino := i_active w1 ino + 1)\<rparr>"
      note got2 = got2 [folded w2_def]
      have n: "lw_next w2 = ?s" "lw_locks w2 = lw_locks w" "i_locks w2 = i_locks w" "lw_shares w2 = lw_shares w" "i_shares w2 = i_shares w"
        "lw_owners w2 = lw_owners w1" using s by (simp_all add: w2_def)
      let ?w3 = "?a w2 (Some ino)"
      have a: "nlm_inv x y ?w3" using share_alloc_inv [OF got2(2), of "?sh (Some ino)"] n(1) by (simp add: drop_ref_def)
      have u: "s_unlinked ?w3 ?s" using f(4) n s by (simp add: s_unlinked_def)
      show thesis
      proof (cases rule: nlm4_get_host_inv [OF a, of mem "sh_caller_name sh", case_names none host])
        case none
        obtain w' where w': "reffs_share_free ?w3 ?s = Some w'" "nlm_inv x y w'" "same_locks w w'"
          by (rule free_fresh_share [OF a, of ?s "?sh (Some ino)" w]) (use f s n u in auto)
        show thesis by (rule fin [OF w'(2,3)]) (use mem got2(1) n(1) none(1) w'(1) in \<open>simp add: G\<close>)
      next
        case (host w4)
        have w4: "lw_shares w4 = (lw_shares w)(?s \<mapsto> ?sh (Some ino))" "i_locks w4 = i_locks w" "lw_locks w4 = lw_locks w"
          "i_shares w4 = i_shares w" "lw_owners w4 = lw_owners w1"
          by (subst host(4), use n in simp)+
        have c: "caller w4 (s_owner (?sh (Some ino))) = Some (sh_caller_name sh)"
          using is_owner_caller [OF got(4)] caller_cong [OF w4(5)] by (simp add: share_owner_arg_def)
        have "?s \<notin> set (i_shares w i)" for i using f(4) s by (simp add: s_unlinked_def)
        then have "share_at w4 i t v \<longleftrightarrow> share_at w i t v" for i t v
          by (auto simp: share_at_def w4)
        then have ok4: "shares_ok w4" using ok by (simp add: shares_ok_def)
        obtain e w' where w': "reffs_share_add w4 ino ?s (Some (sh_caller_name sh)) = Some (e, w')" "nlm_inv x y w'" "kept_locks w4 w'" "shares_ok w'"
          by (rule reffs_share_add_inv [OF host(2), of ?s "?sh (Some ino)" ino "sh_caller_name sh"])
            (use w4 c host(3) u n ok4 in \<open>auto simp: s_unlinked_def\<close>)
        have "reffs_nlm4_share mem w ino sh = Some (if e = None then NLM4_GRANTED else NLM4_DENIED, w')"
          using mem got2(1) n(1) host(1) w'(1) by (simp add: G)
        then show thesis using that w'(2-4) w4 by (auto simp: kept_locks_def)
      qed
    qed
  qed
qed

text \<open>Removing the shares of an owner.\<close>

lemma share_remove_from_inv:
  assumes "nlm_inv x y w" "set ss \<subseteq> set (i_shares w ino)" "distinct ss"
    and "\<forall>s sh. s \<in> set ss \<longrightarrow> lw_shares w s = Some sh \<longrightarrow> s_owner sh = owner \<longrightarrow> host_list \<noteq> None"
  shows "\<exists>w'. share_remove_from ino owner host_list ss w = Some w' \<and> nlm_inv x y w' \<and> kept_locks w w' \<and>
    (\<forall>i s sh. share_at w' i s sh \<longleftrightarrow> share_at w i s sh \<and> \<not> (i = ino \<and> s \<in> set ss \<and> s_owner sh = owner))"
  using assms
proof (induction ss arbitrary: w)
  case Nil
  then show ?case by (auto simp: kept_locks_def)
next
  case (Cons s ss)
  have s: "s \<in> set (i_shares w ino)" and ss: "set ss \<subseteq> set (i_shares w ino)" "s \<notin> set ss" "distinct ss" using Cons.prems by auto
  obtain se where se: "lw_shares w s = Some se" using linked_share [OF Cons.prems(1) s] by metis
  show ?case
  proof (cases "s_owner se = owner")
    case False
    have o1: "\<forall>t sh. t \<in> set ss \<longrightarrow> lw_shares w t = Some sh \<longrightarrow> s_owner sh = owner \<longrightarrow> host_list \<noteq> None"
      using Cons.prems(4) by simp
    obtain w' where w': "share_remove_from ino owner host_list ss w = Some w'" "nlm_inv x y w'" "kept_locks w w'"
      "\<And>i t sh. share_at w' i t sh \<longleftrightarrow> share_at w i t sh \<and> \<not> (i = ino \<and> t \<in> set ss \<and> s_owner sh = owner)"
      using Cons.IH [OF Cons.prems(1) ss(1,3) o1] by blast
    have "share_at w i s sh \<Longrightarrow> s_owner sh \<noteq> owner" for i sh using se False by (simp add: share_at_def)
    then have "share_at w' i t sh \<longleftrightarrow> share_at w i t sh \<and> \<not> (i = ino \<and> t \<in> set (s # ss) \<and> s_owner sh = owner)" for i t sh
      unfolding w'(4) by auto
    moreover have "share_remove_from ino owner host_list (s # ss) w = Some w'" using w'(1) se False by simp
    ultimately show ?thesis using w'(2,3) by blast
  next
    case True
    then obtain h where h: "host_list = Some h" using Cons.prems(4) se by auto
    obtain w1 where w1: "host_del_share (w\<lparr>i_shares := (i_shares w)(ino := remove1 s (i_shares w ino))\<rparr>) s = Some (unlink_share w ino s)"
      "reffs_share_free (unlink_share w ino s) s = Some w1" "nlm_inv x y w1" "callers_kept w w1"
      "i_shares w1 = (i_shares w)(ino := remove1 s (i_shares w ino))" "lw_shares w1 = (lw_shares w)(s := None)"
      "i_locks w1 = i_locks w" "lw_locks w1 = lw_locks w" by (rule drop_share_inv [OF Cons.prems(1) s])
    have d: "distinct (i_shares w ino)" using inv_piecesD(5) [OF Cons.prems(1)] by (simp add: lists_ok_def)
    then have sub: "set ss \<subseteq> set (i_shares w1 ino)" using ss w1(5) by auto
    have at: "share_at w1 i t sh \<longleftrightarrow> share_at w i t sh \<and> t \<noteq> s" for i t sh
      using d by (auto simp: share_at_def w1(5,6))
    have o1: "\<forall>t sh. t \<in> set ss \<longrightarrow> lw_shares w1 t = Some sh \<longrightarrow> s_owner sh = owner \<longrightarrow> host_list \<noteq> None" using h by simp
    obtain w' where w': "share_remove_from ino owner host_list ss w1 = Some w'" "nlm_inv x y w'" "kept_locks w1 w'"
      "\<And>i t sh. share_at w' i t sh \<longleftrightarrow> share_at w1 i t sh \<and> \<not> (i = ino \<and> t \<in> set ss \<and> s_owner sh = owner)"
      using Cons.IH [OF w1(3) sub ss(3) o1] by blast
    have run: "share_remove_from ino owner host_list (s # ss) w = Some w'"
      using se True h w1(1,2) w'(1) by simp
    have k: "kept_locks w w'" using w'(3) w1(7,8) by (simp add: kept_locks_def)
    have "share_at w' i t sh \<longleftrightarrow> share_at w i t sh \<and> \<not> (i = ino \<and> t \<in> set (s # ss) \<and> s_owner sh = owner)" for i t sh
    proof (cases "t = s")
      case t: True
      have "share_at w i s sh \<Longrightarrow> i = ino \<and> sh = se"
        using share_at_inode [OF Cons.prems(1), of i s sh ino se] se s by (auto simp: share_at_def)
      then show ?thesis unfolding w'(4) at using t True by auto
    qed (auto simp: w'(4) at)
    then show ?thesis using run w'(2) k by blast
  qed
qed

lemma nlm4_unshare_inv:
  assumes inv: "nlm_inv x y w" and ok: "shares_ok w"
  obtains st w' where "reffs_nlm4_unshare mem w ino sh = Some (st, w')" "nlm_inv x y w'" "kept_locks w w'" "shares_ok w'"
    "(\<And>site. mem site) \<Longrightarrow> st = NLM4_GRANTED \<and> (\<forall>i s v. share_at w' i s v \<longleftrightarrow>
       share_at w i s v \<and> \<not> (i = ino \<and> is_owner w (s_owner v) (share_owner_arg sh)))"
proof (cases rule: nlm4_get_owner_inv [OF inv, of mem "share_owner_arg sh", case_names none got])
  case none
  have "reffs_nlm4_unshare mem w ino sh = Some (NLM4_DENIED_NOLOCKS, w)" using none(1) by (simp add: reffs_nlm4_unshare_def)
  then show thesis using that inv ok none(2) by (auto simp: kept_locks_def)
next
  case (got lo w1)
  obtain host w2 where h: "nlm4_get_host mem w1 (sh_caller_name sh) = (host, w2)" by fastforce
  have w2: "nlm_inv (x(lo := x lo + 1)) y w2" "w2 = w1\<lparr>nlm4_hosts := nlm4_hosts w2\<rparr>"
    "sh_caller_name sh \<in> h_name ` set (nlm4_hosts w2) \<longrightarrow> host = Some (sh_caller_name sh)"
    by (cases rule: nlm4_get_host_inv [OF got(2), of mem "sh_caller_name sh", case_names none host]; use h got(2) in simp)+
  have f2: "lw_owners w2 = lw_owners w1" "same_locks w1 w2" by (subst w2(2), simp add: same_locks_def)+
  obtain w3 where w3: "lock_owner_put w2 lo = Some w3" "nlm_inv x y w3" "owners_changed w2 w3"
    using lock_owner_put_inv [OF w2(1), of lo] by auto
  have sl: "same_locks w w3" using same_locks_trans [OF got(3) same_locks_trans [OF f2(2) owners_changed_same [OF w3(3)]]] .
  have hl: "host \<noteq> None" if "s \<in> set (i_shares w3 ino)" "lw_shares w3 s = Some v" "s_owner v = lo" for s v
  proof -
    have "lw_owners w3 lo \<noteq> None" using that inv_piecesD(1) [OF w3(2)] unfolding heap_ok_def by blast
    then have "caller w3 lo = Some (sh_caller_name sh)"
      using owners_changed_caller [OF w3(3)] is_owner_caller [OF got(4)] caller_cong [OF f2(1)] by (simp add: share_owner_arg_def)
    then have "share_on_host w3 s (sh_caller_name sh)" using that by (auto simp: share_on_host_def)
    then have "sh_caller_name sh \<in> h_name ` set (nlm4_hosts w3)" using inv_piecesD(6) [OF w3(2)] unfolding hosts_ok_def by blast
    then show ?thesis using w2(3) owners_changed_fields(6) [OF w3(3)] by simp
  qed
  have hl': "\<forall>s v. s \<in> set (i_shares w3 ino) \<longrightarrow> lw_shares w3 s = Some v \<longrightarrow> s_owner v = lo \<longrightarrow> host \<noteq> None"
    using hl by blast
  have "distinct (i_shares w3 ino)" using inv_piecesD(5) [OF w3(2)] by (simp add: lists_ok_def)
  from share_remove_from_inv [OF w3(2) subset_refl this hl'] obtain w' where
    w': "share_remove_from ino lo host (i_shares w3 ino) w3 = Some w'" "nlm_inv x y w'" "kept_locks w3 w'"
    "\<And>i s v. share_at w' i s v \<longleftrightarrow> share_at w3 i s v \<and> \<not> (i = ino \<and> s \<in> set (i_shares w3 ino) \<and> s_owner v = lo)" by blast
  have run: "reffs_nlm4_unshare mem w ino sh = Some (NLM4_GRANTED, w')"
    using got(1) h w3(1) w'(1) by (simp add: reffs_nlm4_unshare_def reffs_share_remove_def)
  have at: "share_at w' i s v \<longleftrightarrow> share_at w i s v \<and> \<not> (i = ino \<and> s_owner v = lo)" for i s v
    using w'(4) sl by (auto simp: share_at_def same_locks_def)
  have own: "s_owner v = lo \<longleftrightarrow> is_owner w (s_owner v) (share_owner_arg sh)" if "share_at w i s v" for i s v
  proof -
    have a: "lw_owners w (s_owner v) \<noteq> None" using that inv_piecesD(1) [OF inv] unfolding heap_ok_def share_at_def by blast
    then have "is_owner w1 (s_owner v) (share_owner_arg sh) \<longleftrightarrow> is_owner w (s_owner v) (share_owner_arg sh)"
      using got(5) unfolding callers_extended_def is_owner_def by simp
    then show ?thesis using unique_owner [OF got(2,4)] got(4) by blast
  qed
  have "shares_ok w'" using ok unfolding shares_ok_def at by blast
  moreover have "kept_locks w w'" using w'(3) sl by (simp add: kept_locks_def same_locks_def)
  ultimately show thesis using that [OF run w'(2)] at own by blast
qed

section \<open>A client restarts\<close>

lemma free_locks_from_inv:
  assumes "nlm_inv x y w" "distinct ls" "\<forall>l \<in> set ls. \<exists>ino. l \<in> set (i_locks w ino)"
  shows "\<exists>w'. free_locks_from ls w = Some w' \<and> nlm_inv x y w' \<and> same_shares w w' \<and> callers_kept w w' \<and>
    (\<forall>i l. l \<in> set (i_locks w' i) \<longleftrightarrow> l \<in> set (i_locks w i) \<and> l \<notin> set ls) \<and> (\<forall>l. l \<notin> set ls \<longrightarrow> lw_locks w' l = lw_locks w l)
    \<and> map h_name (nlm4_hosts w') = map h_name (nlm4_hosts w)"
  using assms
proof (induction ls arbitrary: w)
  case Nil
  then show ?case by (simp add: same_shares_def)
next
  case (Cons l ls)
  then obtain ino where l: "l \<in> set (i_locks w ino)" by auto
  obtain lk where lk: "lw_locks w l = Some lk" "l_inode lk = Some ino" using linked_lock [OF Cons.prems(1) l] by metis
  obtain w1 where w1: "host_del_lock (w\<lparr>i_locks := (i_locks w)(ino := remove1 l (i_locks w ino))\<rparr>) l = Some (unlink_lock w ino l)"
    "reffs_lock_free (unlink_lock w ino l) l = Some w1" "nlm_inv x y w1" "callers_kept w w1"
    "i_locks w1 = (i_locks w)(ino := remove1 l (i_locks w ino))" "lw_locks w1 = (lw_locks w)(l := None)" "same_shares w w1"
    "map h_name (nlm4_hosts w1) = map h_name (nlm4_hosts w)" by (rule drop_lock_inv [OF Cons.prems(1) l])
  have d: "distinct (i_locks w ino)" using inv_piecesD(5) [OF Cons.prems(1)] by (simp add: lists_ok_def)
  have at: "k \<in> set (i_locks w1 i) \<longleftrightarrow> k \<in> set (i_locks w i) \<and> k \<noteq> l" for k i
    using d linked_once [OF Cons.prems(1) l, of i] by (auto simp: w1(5))
  have sub: "\<forall>k \<in> set ls. \<exists>i. k \<in> set (i_locks w1 i)" using Cons.prems(2,3) unfolding at by auto
  have dl: "distinct ls" using Cons.prems(2) by simp
  obtain w' where w': "free_locks_from ls w1 = Some w'" "nlm_inv x y w'" "same_shares w1 w'" "callers_kept w1 w'"
    "\<And>i k. k \<in> set (i_locks w' i) \<longleftrightarrow> k \<in> set (i_locks w1 i) \<and> k \<notin> set ls" "\<And>k. k \<notin> set ls \<Longrightarrow> lw_locks w' k = lw_locks w1 k"
    "map h_name (nlm4_hosts w') = map h_name (nlm4_hosts w1)"
    using Cons.IH [OF w1(3) dl sub] by blast
  have "free_locks_from (l # ls) w = Some w'" using lk l w1(1,2) w'(1) by simp
  moreover have "same_shares w w'" using w1(7) w'(3) by (simp add: same_shares_def)
  moreover have "k \<in> set (i_locks w' i) \<longleftrightarrow> k \<in> set (i_locks w i) \<and> k \<notin> set (l # ls)" for i k unfolding w'(5) at by auto
  moreover have "lw_locks w' k = lw_locks w k" if "k \<notin> set (l # ls)" for k using w'(6) w1(6) that by simp
  ultimately show ?case using w'(2,7) w1(8) callers_kept_trans [OF w1(4) w'(4)] by (intro exI [of _ w']) simp
qed

lemma free_shares_from_inv:
  assumes "nlm_inv x y w" "distinct ss" "\<forall>s \<in> set ss. \<exists>ino. s \<in> set (i_shares w ino)"
  shows "\<exists>w'. free_shares_from ss w = Some w' \<and> nlm_inv x y w' \<and> kept_locks w w' \<and> callers_kept w w' \<and>
    (\<forall>i s. s \<in> set (i_shares w' i) \<longleftrightarrow> s \<in> set (i_shares w i) \<and> s \<notin> set ss) \<and> (\<forall>s. s \<notin> set ss \<longrightarrow> lw_shares w' s = lw_shares w s)"
  using assms
proof (induction ss arbitrary: w)
  case Nil
  then show ?case by (simp add: kept_locks_def)
next
  case (Cons s ss)
  then obtain ino where s: "s \<in> set (i_shares w ino)" by auto
  obtain sh where sh: "lw_shares w s = Some sh" "s_inode sh = Some ino" using linked_share [OF Cons.prems(1) s] by metis
  obtain w1 where w1: "host_del_share (w\<lparr>i_shares := (i_shares w)(ino := remove1 s (i_shares w ino))\<rparr>) s = Some (unlink_share w ino s)"
    "reffs_share_free (unlink_share w ino s) s = Some w1" "nlm_inv x y w1" "callers_kept w w1"
    "i_shares w1 = (i_shares w)(ino := remove1 s (i_shares w ino))" "lw_shares w1 = (lw_shares w)(s := None)"
    "i_locks w1 = i_locks w" "lw_locks w1 = lw_locks w" by (rule drop_share_inv [OF Cons.prems(1) s])
  have d: "distinct (i_shares w ino)" using inv_piecesD(5) [OF Cons.prems(1)] by (simp add: lists_ok_def)
  have once: "s \<in> set (i_shares w i) \<Longrightarrow> i = ino" for i
    using share_at_inode [OF Cons.prems(1), of i s sh ino sh] s sh by (simp add: share_at_def)
  have at: "k \<in> set (i_shares w1 i) \<longleftrightarrow> k \<in> set (i_shares w i) \<and> k \<noteq> s" for k i
    using d once [of i] by (auto simp: w1(5))
  have sub: "\<forall>k \<in> set ss. \<exists>i. k \<in> set (i_shares w1 i)" using Cons.prems(2,3) unfolding at by auto
  have dl: "distinct ss" using Cons.prems(2) by simp
  obtain w' where w': "free_shares_from ss w1 = Some w'" "nlm_inv x y w'" "kept_locks w1 w'" "callers_kept w1 w'"
    "\<And>i k. k \<in> set (i_shares w' i) \<longleftrightarrow> k \<in> set (i_shares w1 i) \<and> k \<notin> set ss" "\<And>k. k \<notin> set ss \<Longrightarrow> lw_shares w' k = lw_shares w1 k"
    using Cons.IH [OF w1(3) dl sub] by blast
  have "free_shares_from (s # ss) w = Some w'" using sh s w1(1,2) w'(1) by simp
  moreover have "kept_locks w w'" using w1(7,8) w'(3) by (simp add: kept_locks_def)
  moreover have "k \<in> set (i_shares w' i) \<longleftrightarrow> k \<in> set (i_shares w i) \<and> k \<notin> set (s # ss)" for i k unfolding w'(5) at by auto
  moreover have "lw_shares w' k = lw_shares w k" if "k \<notin> set (s # ss)" for k using w'(6) w1(6) that by simp
  ultimately show ?case using w'(2) callers_kept_trans [OF w1(4) w'(4)] by (intro exI [of _ w']) simp
qed

end
