(* ===== verification/NlmProperties.thy ===== *)
theory NlmProperties
  imports NlmReach
begin

text \<open>
  The reachable states of the NLM lock manager and what holds in all of them. A step is one
  procedure call with arbitrary arguments and arbitrary allocation failures, or a change of the
  activity counts of inodes by other parts of the server, which keep the references that locks and
  shares hold.
\<close>

section \<open>FREE\_ALL\<close>

lemma nlm4_free_all_inv:
  assumes inv: "nlm_inv x y w" and n: "n \<in> h_name ` set (nlm4_hosts w)"
  obtains w' where "reffs_nlm4_free_all w n = Some w'" "nlm_inv x y w'"
    "\<And>i t. t \<in> held w' i \<longleftrightarrow> t \<in> held w i \<and> caller w (fst t) \<noteq> Some n"
    "\<And>i s v. share_at w' i s v \<longleftrightarrow> share_at w i s v \<and> caller w (s_owner v) \<noteq> Some n"
proof -
  let ?P = "\<lambda>host. h_name host = n"
  obtain host where f: "find ?P (nlm4_hosts w) = Some host"
    using n by (cases "find ?P (nlm4_hosts w)") (auto simp: find_None_iff)
  then have host: "host \<in> set (nlm4_hosts w)" "h_name host = n" by (auto simp: find_Some_iff)
  note H = inv_piecesD(6) [OF inv]
  have hl: "distinct (h_locks host)" "distinct (h_shares host)" "l \<in> set (h_locks host) \<longleftrightarrow> on_host w l n"
    "s \<in> set (h_shares host) \<longleftrightarrow> share_on_host w s n" for l s
    using H host unfolding hosts_ok_def by auto
  have lnk: "\<forall>l \<in> set (h_locks host). \<exists>ino. l \<in> set (i_locks w ino)" using hl(3) by (auto simp: on_host_def)
  obtain w1 where w1: "free_locks_from (h_locks host) w = Some w1" "nlm_inv x y w1" "same_shares w w1"
    "\<And>i l. l \<in> set (i_locks w1 i) \<longleftrightarrow> l \<in> set (i_locks w i) \<and> l \<notin> set (h_locks host)"
    "\<And>l. l \<notin> set (h_locks host) \<Longrightarrow> lw_locks w1 l = lw_locks w l"
    using free_locks_from_inv [OF inv hl(1) lnk] by blast
  have slnk: "\<forall>s \<in> set (h_shares host). \<exists>ino. s \<in> set (i_shares w1 ino)"
    using hl(4) w1(3) by (auto simp: share_on_host_def same_shares_def)
  obtain w' where w': "free_shares_from (h_shares host) w1 = Some w'" "nlm_inv x y w'" "kept_locks w1 w'"
    "\<And>i s. s \<in> set (i_shares w' i) \<longleftrightarrow> s \<in> set (i_shares w1 i) \<and> s \<notin> set (h_shares host)"
    "\<And>s. s \<notin> set (h_shares host) \<Longrightarrow> lw_shares w' s = lw_shares w1 s"
    using free_shares_from_inv [OF w1(2) hl(2) slnk] by blast
  have run: "reffs_nlm4_free_all w n = Some w'" using f w1(1) w'(1) by (simp add: reffs_nlm4_free_all_def)
  have "t \<in> held w' i \<longleftrightarrow> t \<in> held w i \<and> caller w (fst t) \<noteq> Some n" for i t
  proof -
    have c: "caller w (fst t) = Some n \<longleftrightarrow> l \<in> set (h_locks host)"
      if "l \<in> set (i_locks w i)" "t \<in> holds_at w l" for l
      using that unfolding hl(3) on_host_def by (auto simp: holds_at_def lock_holds_def split: option.splits)
    have "held w' i = held w1 i" using kept_locks_held [OF w'(3)] by simp
    moreover have "holds_at w1 l = holds_at w l" if "l \<notin> set (h_locks host)" for l using w1(5) [OF that] by (simp add: holds_at_def)
    then have "t \<in> held w1 i \<longleftrightarrow> (\<exists>l \<in> set (i_locks w i). l \<notin> set (h_locks host) \<and> t \<in> holds_at w l)"
      unfolding held_def UN_iff Bex_def using w1(4) by metis
    moreover have "\<dots> \<longleftrightarrow> (\<exists>l \<in> set (i_locks w i). t \<in> holds_at w l \<and> caller w (fst t) \<noteq> Some n)" using c by metis
    moreover have "\<dots> \<longleftrightarrow> t \<in> held w i \<and> caller w (fst t) \<noteq> Some n" by (simp add: held_def)
    ultimately show ?thesis by simp
  qed
  moreover have "share_at w' i s v \<longleftrightarrow> share_at w i s v \<and> caller w (s_owner v) \<noteq> Some n" for i s v
    using w'(4,5) w1(3) hl(4) unfolding share_at_def same_shares_def share_on_host_def by (metis option.inject)
  ultimately show thesis using that run w'(2) by blast
qed

section \<open>Reachable states\<close>

definition nlm_init :: "(nat \<Rightarrow> int) \<Rightarrow> lock_world" where
  "nlm_init a = \<lparr>lw_owners = Map.empty, lw_locks = Map.empty, lw_shares = Map.empty, i_locks = (\<lambda>_. []),
     i_shares = (\<lambda>_. []), i_active = a, nlm4_owners = [], nlm4_hosts = [], lw_next = 0\<rparr>"

inductive nlm_reach :: "lock_world \<Rightarrow> bool" where
  nr_init: "nlm_reach (nlm_init a)"
| nr_active: "nlm_reach w \<Longrightarrow> active_ok (\<lambda>_. 0) (w\<lparr>i_active := a\<rparr>) \<Longrightarrow> nlm_reach (w\<lparr>i_active := a\<rparr>)"
| nr_test: "nlm_reach w \<Longrightarrow> nlm4_op_test mem env now w fh excl alock = Some (res, w') \<Longrightarrow> nlm_reach w'"
| nr_lock: "nlm_reach w \<Longrightarrow> nlm4_op_lock mem env now w fh reclaim excl alock = Some (st, w') \<Longrightarrow> nlm_reach w'"
| nr_unlock: "nlm_reach w \<Longrightarrow> nlm4_op_unlock mem memsplit env w fh alock = Some (st, w') \<Longrightarrow> nlm_reach w'"
| nr_cancel: "nlm_reach w \<Longrightarrow> nlm4_op_cancel env now w fh = (st, w') \<Longrightarrow> nlm_reach w'"
| nr_share: "nlm_reach w \<Longrightarrow> nlm4_op_share mem env now w fh reclaim sh = Some (st, w') \<Longrightarrow> nlm_reach w'"
| nr_unshare: "nlm_reach w \<Longrightarrow> nlm4_op_unshare mem env w fh sh = Some (st, w') \<Longrightarrow> nlm_reach w'"
| nr_free_all: "nlm_reach w \<Longrightarrow> nlm4_op_free_all w name = Some w' \<Longrightarrow> nlm_reach w'"

text \<open>Two owners share a byte only if both locks are shared locks.\<close>

definition excl_ok :: "lock_world \<Rightarrow> bool" where
  "excl_ok w \<longleftrightarrow> (\<forall>ino o1 e1 o2 e2 b. (o1, e1, b) \<in> held w ino \<longrightarrow> (o2, e2, b) \<in> held w ino \<longrightarrow> o1 \<noteq> o2 \<longrightarrow> \<not> e1 \<and> \<not> e2)"

definition nlm_good :: "(nat \<Rightarrow> nat) \<Rightarrow> lock_world \<Rightarrow> bool" where
  "nlm_good y w \<longleftrightarrow> nlm_inv (\<lambda>_. 0) y w \<and> excl_ok w \<and> shares_ok w"

lemma excl_ok_same: "held w' = held w \<Longrightarrow> excl_ok w' = excl_ok w"
  by (simp only: excl_ok_def)

lemma excl_ok_subset: "excl_ok w \<Longrightarrow> (\<And>i. held w' i \<subseteq> held w i) \<Longrightarrow> excl_ok w'"
  unfolding excl_ok_def by (meson subsetD)

lemma excl_ok_lock:
  assumes ok: "excl_ok w" and s: "lock_spec w ino excl lk st w'"
  shows "excl_ok w'"
proof (cases "st = NLM4_GRANTED")
  case False
  then have "held w' i = held w i" for i using s by (cases "i = ino") (auto simp: lock_spec_def)
  then show ?thesis by (intro excl_ok_subset [OF ok]) simp
next
  case True
  then obtain lo where lo: "held w' ino \<subseteq> held w ino \<union> {lo} \<times> {excl} \<times> range_bytes (a_offset lk) (a_len lk)"
    "\<And>o1 e b. (o1, e, b) \<in> held w ino \<Longrightarrow> o1 \<noteq> lo \<Longrightarrow> b \<in> range_bytes (a_offset lk) (a_len lk) \<Longrightarrow> \<not> e \<and> \<not> excl"
    using s by (auto simp: lock_spec_def)
  have other: "held w' i = held w i" if "i \<noteq> ino" for i using s that by (simp add: lock_spec_def)
  show ?thesis
    unfolding excl_ok_def
  proof (intro allI impI)
    fix i o1 e1 o2 e2 b assume a: "(o1, e1, b) \<in> held w' i" "(o2, e2, b) \<in> held w' i" "o1 \<noteq> o2"
    show "\<not> e1 \<and> \<not> e2"
    proof (cases "i = ino")
      case False
      then show ?thesis using a ok other unfolding excl_ok_def by metis
    next
      case True
      have d: "(o3, e3, b) \<in> held w ino \<or> o3 = lo \<and> e3 = excl \<and> b \<in> range_bytes (a_offset lk) (a_len lk)"
        if "(o3, e3, b) \<in> held w' i" for o3 e3 using lo(1) that True by blast
      show ?thesis using d [OF a(1)] d [OF a(2)] a(3) lo(2) ok unfolding excl_ok_def by metis
    qed
  qed
qed

lemma held_active [simp]: "held (w\<lparr>i_active := a\<rparr>) = held w"
  by (rule ext) (simp add: held_def holds_at_def)

lemma nlm_good_active:
  "nlm_inv (\<lambda>_. 0) y' (w\<lparr>i_active := a\<rparr>) \<Longrightarrow> nlm_good y w \<Longrightarrow> nlm_good y' (w\<lparr>i_active := a\<rparr>)"
  using shares_ok_same [of w "w\<lparr>i_active := a\<rparr>"] excl_ok_same [OF held_active, of a w]
  by (simp add: nlm_good_def same_shares_def)

lemma fh_to_inode_good:
  assumes "nlm_good (\<lambda>_. 0) w"
  obtains (none) "nlm4_fh_to_inode env w fh = (None, w)"
    | (inode) ino w1 where "nlm4_fh_to_inode env w fh = (Some ino, w1)" "nlm_good ((\<lambda>_. 0)(ino := 1)) w1" "held w1 = held w"
        "lw_owners w1 = lw_owners w" "same_shares w w1"
proof -
  consider (n) "nlm4_fh_to_inode env w fh = (None, w)" | (i) ino where "nlm4_fh_to_inode env w fh = inode_active_get w (Some ino)"
  proof -
    have "nlm4_fh_to_inode env w fh = (None, w) \<or> (\<exists>ino. nlm4_fh_to_inode env w fh = inode_active_get w (Some ino))"
    proof (cases fh)
      case (Fh sb ino)
      then show ?thesis
        by (cases "sb_find env sb"; cases "inode_find env (the (sb_find env sb)) ino")
          (auto simp: nlm4_fh_to_inode_def inode_active_get_def)
    qed (simp add: nlm4_fh_to_inode_def)
    then show ?thesis using that by blast
  qed
  then show thesis
  proof cases
    case (i ino)
    have inv: "nlm_inv (\<lambda>_. 0) (\<lambda>_. 0) w" using assms by (simp add: nlm_good_def)
    show thesis
    proof (cases rule: inode_active_get_inv [OF inv, of ino, case_names gone got])
      case gone
      then show thesis using none i by simp
    next
      case got
      then show thesis
        using inode [of ino] i nlm_good_active [OF _ assms] by (simp add: same_shares_def)
    qed
  qed (use none in blast)
qed

lemma put_good:
  assumes "nlm_good ((\<lambda>_. 0)(ino := 1)) w" shows "nlm_good (\<lambda>_. 0) (inode_active_put w (Some ino))"
    and "held (inode_active_put w (Some ino)) = held w"
proof -
  have inv: "nlm_inv (\<lambda>_. 0) ((\<lambda>_. 0)(ino := 1)) w" using assms by (simp add: nlm_good_def)
  have e: "((\<lambda>_. 0)(ino := 1))(ino := ((\<lambda>_. 0)(ino := 1)) ino - 1) = (\<lambda>_. 0::nat)" by auto
  have "nlm_inv (\<lambda>_. 0) (\<lambda>_. 0) (inode_active_put w (Some ino))"
    using inode_active_put_inv [OF inv, of ino] unfolding e by simp
  then show "nlm_good (\<lambda>_. 0) (inode_active_put w (Some ino))"
    using nlm_good_active [OF _ assms] by (simp add: inode_active_put_def)
  show "held (inode_active_put w (Some ino)) = held w" by (simp add: inode_active_put_def)
qed

lemma same_locks_good:
  assumes "nlm_good y w" "nlm_inv (\<lambda>_. 0) y' w'" "same_locks w w'"
  shows "nlm_good y' w'"
  using assms excl_ok_same [OF same_locks_held [OF assms(3)]] shares_ok_same [OF same_locks_shares [OF assms(3)]]
  by (simp add: nlm_good_def)

lemma kept_locks_good:
  assumes "nlm_good y w" "nlm_inv (\<lambda>_. 0) y' w'" "kept_locks w w'" "shares_ok w'"
  shows "nlm_good y' w'"
  using assms excl_ok_same [OF kept_locks_held [OF assms(3)]] by (simp add: nlm_good_def)

text \<open>Each procedure, on a good state: it returns, and the state after it is good.\<close>

lemma op_test_good:
  assumes "nlm_good (\<lambda>_. 0) w"
  shows "\<exists>r w'. nlm4_op_test mem env now w fh excl alock = Some (r, w') \<and> nlm_good (\<lambda>_. 0) w'"
proof (cases rule: fh_to_inode_good [OF assms, of env fh, case_names none inode])
  case none
  then show ?thesis using assms by (simp add: nlm4_op_test_def)
next
  case (inode ino w1)
  have inv: "nlm_inv (\<lambda>_. 0) ((\<lambda>_. 0)(ino := 1)) w1" using inode(2) by (simp add: nlm_good_def)
  obtain r w2 where w2: "reffs_nlm4_test mem w1 ino excl alock = Some (r, w2)" "nlm_inv (\<lambda>_. 0) ((\<lambda>_. 0)(ino := 1)) w2" "same_locks w1 w2"
    by (rule nlm4_test_inv [OF inv])
  have "nlm_good (\<lambda>_. 0) (inode_active_put w2 (Some ino))" by (rule put_good(1) [OF same_locks_good [OF inode(2) w2(2,3)]])
  then show ?thesis using assms inode(1) w2(1) by (auto simp: nlm4_op_test_def)
qed

lemma op_lock_good:
  assumes "nlm_good (\<lambda>_. 0) w"
  shows "\<exists>st w'. nlm4_op_lock mem env now w fh reclaim excl alock = Some (st, w') \<and> nlm_good (\<lambda>_. 0) w'"
proof (cases rule: fh_to_inode_good [OF assms, of env fh, case_names none inode])
  case none
  then show ?thesis using assms by (simp add: nlm4_op_lock_def)
next
  case (inode ino w1)
  have inv: "nlm_inv (\<lambda>_. 0) ((\<lambda>_. 0)(ino := 1)) w1" using inode(2) by (simp add: nlm_good_def)
  obtain st w2 where w2: "reffs_nlm4_lock mem w1 ino excl alock = Some (st, w2)" "nlm_inv (\<lambda>_. 0) ((\<lambda>_. 0)(ino := 1)) w2"
    "lock_spec w1 ino excl alock st w2" by (rule nlm4_lock_inv [OF inv])
  have "excl_ok w2" using excl_ok_lock [OF _ w2(3)] inode(2) by (simp add: nlm_good_def)
  moreover have "shares_ok w2" using shares_ok_same [of w1 w2] w2(3) inode(2) by (simp add: nlm_good_def lock_spec_def)
  ultimately have "nlm_good ((\<lambda>_. 0)(ino := 1)) w2" using w2(2) by (simp add: nlm_good_def)
  from put_good(1) [OF this] show ?thesis using assms inode(1) w2(1) by (auto simp: nlm4_op_lock_def)
qed

lemma op_unlock_good:
  assumes "nlm_good (\<lambda>_. 0) w"
  shows "\<exists>st w'. nlm4_op_unlock mem memsplit env w fh alock = Some (st, w') \<and> nlm_good (\<lambda>_. 0) w'"
proof (cases rule: fh_to_inode_good [OF assms, of env fh, case_names none inode])
  case none
  then show ?thesis using assms by (simp add: nlm4_op_unlock_def)
next
  case (inode ino w1)
  have inv: "nlm_inv (\<lambda>_. 0) ((\<lambda>_. 0)(ino := 1)) w1" using inode(2) by (simp add: nlm_good_def)
  obtain st w2 where w2: "reffs_nlm4_unlock mem memsplit w1 ino alock = Some (st, w2)" "nlm_inv (\<lambda>_. 0) ((\<lambda>_. 0)(ino := 1)) w2"
    "same_shares w1 w2" "\<And>i. i \<noteq> ino \<Longrightarrow> held w2 i = held w1 i" "held w2 ino \<subseteq> held w1 ino"
    using nlm4_unlock_inv [OF inv, of mem memsplit ino alock] by metis
  have "held w2 i \<subseteq> held w1 i" for i using w2(4,5) by (cases "i = ino") auto
  then have "excl_ok w2" using excl_ok_subset [of w1 w2] inode(2) by (simp add: nlm_good_def)
  moreover have "shares_ok w2" using shares_ok_same [OF w2(3)] inode(2) by (simp add: nlm_good_def)
  ultimately have "nlm_good ((\<lambda>_. 0)(ino := 1)) w2" using w2(2) by (simp add: nlm_good_def)
  from put_good(1) [OF this] show ?thesis using inode(1) w2(1) by (auto simp: nlm4_op_unlock_def)
qed

lemma op_cancel_good:
  assumes "nlm_good (\<lambda>_. 0) w"
  shows "nlm_good (\<lambda>_. 0) (snd (nlm4_op_cancel env now w fh))"
proof (cases rule: fh_to_inode_good [OF assms, of env fh, case_names none inode])
  case none
  then show ?thesis using assms by (simp add: nlm4_op_cancel_def)
next
  case (inode ino w1)
  then show ?thesis using assms put_good(1) [OF inode(2)] by (simp add: nlm4_op_cancel_def reffs_nlm4_cancel_def)
qed

lemma op_share_good:
  assumes "nlm_good (\<lambda>_. 0) w"
  shows "\<exists>st w'. nlm4_op_share mem env now w fh reclaim sh = Some (st, w') \<and> nlm_good (\<lambda>_. 0) w'"
proof (cases rule: fh_to_inode_good [OF assms, of env fh, case_names none inode])
  case none
  then show ?thesis using assms by (simp add: nlm4_op_share_def)
next
  case (inode ino w1)
  have inv: "nlm_inv (\<lambda>_. 0) ((\<lambda>_. 0)(ino := 1)) w1" "shares_ok w1" using inode(2) by (simp_all add: nlm_good_def)
  obtain st w2 where w2: "reffs_nlm4_share mem w1 ino sh = Some (st, w2)" "nlm_inv (\<lambda>_. 0) ((\<lambda>_. 0)(ino := 1)) w2"
    "kept_locks w1 w2" "shares_ok w2" by (rule nlm4_share_inv [OF inv])
  from put_good(1) [OF kept_locks_good [OF inode(2) w2(2-4)]] show ?thesis
    using assms inode(1) w2(1) by (auto simp: nlm4_op_share_def)
qed

lemma op_unshare_good:
  assumes "nlm_good (\<lambda>_. 0) w"
  shows "\<exists>st w'. nlm4_op_unshare mem env w fh sh = Some (st, w') \<and> nlm_good (\<lambda>_. 0) w'"
proof (cases rule: fh_to_inode_good [OF assms, of env fh, case_names none inode])
  case none
  then show ?thesis using assms by (simp add: nlm4_op_unshare_def)
next
  case (inode ino w1)
  have inv: "nlm_inv (\<lambda>_. 0) ((\<lambda>_. 0)(ino := 1)) w1" "shares_ok w1" using inode(2) by (simp_all add: nlm_good_def)
  obtain st w2 where w2: "reffs_nlm4_unshare mem w1 ino sh = Some (st, w2)" "nlm_inv (\<lambda>_. 0) ((\<lambda>_. 0)(ino := 1)) w2"
    "kept_locks w1 w2" "shares_ok w2" using nlm4_unshare_inv [OF inv, of mem ino sh] by metis
  from put_good(1) [OF kept_locks_good [OF inode(2) w2(2-4)]] show ?thesis
    using inode(1) w2(1) by (auto simp: nlm4_op_unshare_def)
qed

lemma op_free_all_good:
  assumes good: "nlm_good (\<lambda>_. 0) w" and n: "n \<in> h_name ` set (nlm4_hosts w)"
  shows "\<exists>w'. nlm4_op_free_all w n = Some w' \<and> nlm_good (\<lambda>_. 0) w'"
proof -
  have inv: "nlm_inv (\<lambda>_. 0) (\<lambda>_. 0) w" using good by (simp add: nlm_good_def)
  obtain w' where w': "reffs_nlm4_free_all w n = Some w'" "nlm_inv (\<lambda>_. 0) (\<lambda>_. 0) w'"
    "\<And>i t. t \<in> held w' i \<longleftrightarrow> t \<in> held w i \<and> caller w (fst t) \<noteq> Some n"
    "\<And>i s v. share_at w' i s v \<longleftrightarrow> share_at w i s v \<and> caller w (s_owner v) \<noteq> Some n"
    using nlm4_free_all_inv [OF inv n] by metis
  have "excl_ok w'" by (rule excl_ok_subset [of w]) (use good w'(3) in \<open>auto simp: nlm_good_def\<close>)
  moreover have "shares_ok w'" using good unfolding nlm_good_def shares_ok_def w'(4) by blast
  ultimately show ?thesis using w'(1,2) by (simp add: nlm4_op_free_all_def nlm_good_def)
qed

lemma nlm_init_good: "nlm_good (\<lambda>_. 0) (nlm_init a)"
  by (simp add: nlm_good_def nlm_inv_def inv_defs count_defs map_count_def nlm_init_def on_host_def share_on_host_def
      excl_ok_def held_def shares_ok_def share_at_def)

lemma nlm_reach_good: "nlm_reach w \<Longrightarrow> nlm_good (\<lambda>_. 0) w"
proof (induction rule: nlm_reach.induct)
  case (nr_init a)
  show ?case by (rule nlm_init_good)
next
  case (nr_active w a)
  have "nlm_inv (\<lambda>_. 0) (\<lambda>_. 0) (w\<lparr>i_active := a\<rparr>)" using nr_active(2,3) by (simp add: nlm_good_def nlm_inv_def)
  then show ?case using nlm_good_active nr_active(3) by blast
next
  case (nr_free_all w name w')
  then have "name \<in> h_name ` set (nlm4_hosts w)"
    by (auto simp: nlm4_op_free_all_def reffs_nlm4_free_all_def bind_eq_Some_conv find_Some_iff)
  then show ?case using op_free_all_good [OF nr_free_all(3)] nr_free_all(2) by (metis option.inject)
next
  case (nr_cancel w env now fh st w')
  then show ?case using op_cancel_good [of w env now fh] by simp
qed (metis op_test_good op_lock_good op_unlock_good op_share_good op_unshare_good option.inject prod.inject)+

section \<open>Properties\<close>

lemma nlm4_lock_status:
  assumes inv: "nlm_inv x y w" and mem: "\<And>site. mem site" and act: "0 \<le> i_active w ino"
    and r: "reffs_nlm4_lock mem w ino excl alock = Some (st, w')"
  shows "st = (if \<exists>l \<in> set (i_locks w ino). \<exists>rl. lw_locks w l = Some rl \<and> (excl \<or> l_exclusive rl) \<and>
      \<not> is_owner w (l_owner rl) alock \<and> reffs_lock_range_overlap (l_offset rl) (l_len rl) (a_offset alock) (a_len alock)
    then NLM4_DENIED else NLM4_GRANTED)"
proof (cases rule: nlm4_get_owner_inv [OF inv, of mem alock, case_names none got])
  case none
  then show ?thesis using mem by simp
next
  case (got lo w1)
  let ?P = "\<lambda>l. \<exists>rl. lw_locks w1 l = Some rl \<and> (excl \<or> l_exclusive rl) \<and> l_owner rl \<noteq> lo
            \<and> reffs_lock_range_overlap (l_offset rl) (l_len rl) (a_offset alock) (a_len alock)"
  have F: "reffs_lock_find_conflict w1 ino (a_offset alock) (a_len alock) excl (Some lo) (ArgNlm4Lock alock)
      = Some (find ?P (i_locks w1 ino))"
    unfolding reffs_lock_find_conflict_def by (rule find_conflict_from_total [OF got(2,4) subset_refl])
  have same: "lw_locks w1 = lw_locks w" "i_locks w1 = i_locks w" using got(3) by (simp_all add: same_locks_def)
  have own: "l_owner rl \<noteq> lo \<longleftrightarrow> \<not> is_owner w (l_owner rl) alock" if "lw_locks w l = Some rl" for l rl
  proof -
    have "lw_owners w (l_owner rl) \<noteq> None" using that inv_piecesD(1) [OF inv] unfolding heap_ok_def by blast
    then have "is_owner w1 (l_owner rl) alock \<longleftrightarrow> is_owner w (l_owner rl) alock"
      using got(5) unfolding callers_extended_def is_owner_def by simp
    then show ?thesis using unique_owner [OF got(2,4)] got(4) by blast
  qed
  have conf: "find ?P (i_locks w1 ino) \<noteq> None \<longleftrightarrow> (\<exists>l \<in> set (i_locks w ino). \<exists>rl. lw_locks w l = Some rl \<and> (excl \<or> l_exclusive rl) \<and>
      \<not> is_owner w (l_owner rl) alock \<and> reffs_lock_range_overlap (l_offset rl) (l_len rl) (a_offset alock) (a_len alock))"
    using own unfolding find_None_iff same by blast
  have "0 \<le> i_active w1 ino" using act got(7) by simp
  then show ?thesis
    using r got(1) F mem unfolding conf [symmetric]
    by (auto simp: reffs_nlm4_lock_def bind_eq_Some_conv inode_active_get_def nlm4_get_host_def Let_def split: if_splits)
qed


definition wit_env :: nlm_env where
  "wit_env = \<lparr>sb_find = (\<lambda>_. Some 0), inode_find = (\<lambda>_ _. Some 5), grace_period_end = 0\<rparr>"

definition wit_lock :: "string \<Rightarrow> u64 \<Rightarrow> u64 \<Rightarrow> nlm4_lock" where
  "wit_lock host off len = \<lparr>caller_name = host, oh = [1], svid = 7, a_offset = off, a_len = len\<rparr>"

lemmas nlm_eval = nlm4_op_lock_def reffs_nlm4_lock_def nlm4_get_owner_def nlm4_find_owner_def reffs_lock_find_conflict_def
  nlm4_get_host_def reffs_lock_add_def inode_active_get_def inode_active_put_def nlm4_fh_to_inode_def reffs_nlm4_in_grace_def
  host_add_lock_def lock_owner_get_def nlm_init_def wit_env_def wit_lock_def reffs_lock_range_overlap_def range_end_def Let_def
  nlm4_op_share_def reffs_nlm4_share_def share_owner_arg_def reffs_share_add_def host_add_share_def reffs_share_conflict_def
  nlm4_op_unlock_def reffs_nlm4_unlock_def reffs_lock_remove_def lock_remove_step_def lock_owner_put_def lo_release_def
  host_del_lock_def reffs_lock_free_def

lemma wit_locked:
  obtains w where "nlm4_op_lock all_allocs wit_env 1 (nlm_init (\<lambda>_. 0)) (Fh 1 2) False True (wit_lock ''a'' 0 10) = Some (NLM4_GRANTED, w)"
    "lw_owners w 0 = Some \<lparr>lo_ref = 1, lo_data = Nlm4Owner [1] 7 ''a''\<rparr>" "''a'' \<in> h_name ` set (nlm4_hosts w)"
    "(0, True, 3) \<in> held w 5" "(0, True, 7) \<in> held w 5"
proof -
  define r where "r = the (nlm4_op_lock all_allocs wit_env 1 (nlm_init (\<lambda>_. 0)) (Fh 1 2) False True (wit_lock ''a'' 0 10))"
  have r: "nlm4_op_lock all_allocs wit_env 1 (nlm_init (\<lambda>_. 0)) (Fh 1 2) False True (wit_lock ''a'' 0 10) = Some (NLM4_GRANTED, snd r)"
    "lw_owners (snd r) 0 = Some \<lparr>lo_ref = 1, lo_data = Nlm4Owner [1] 7 ''a''\<rparr>" "''a'' \<in> h_name ` set (nlm4_hosts (snd r))"
    "i_locks (snd r) 5 = [1]"
    "lw_locks (snd r) 1 = Some \<lparr>l_inode = Some 5, l_owner = 0, l_offset = 0, l_len = 10, l_exclusive = True\<rparr>"
    unfolding r_def by (simp_all add: nlm_eval)
  have "(0, True, 3) \<in> held (snd r) 5" "(0, True, 7) \<in> held (snd r) 5"
    using r(4,5) by (simp_all add: held_def holds_at_def lock_holds_def range_bytes_def range_end_def)
  then show thesis using that r(1-3) by blast
qed








text \<open>
  C19. \<^verbatim>\<open>FREE_ALL\<close> for a known host removes all locks and shares of the owners of that
  host, on every file, and nothing else.
\<close>

theorem nlm_free_all_exact:
  assumes "nlm_reach w" "n \<in> h_name ` set (nlm4_hosts w)"
  shows "\<exists>w'. nlm4_op_free_all w n = Some w'
    \<and> (\<forall>i o1 e b. (o1, e, b) \<in> held w' i \<longleftrightarrow> (o1, e, b) \<in> held w i \<and> caller w o1 \<noteq> Some n)
    \<and> (\<forall>i s v. share_at w' i s v \<longleftrightarrow> share_at w i s v \<and> caller w (s_owner v) \<noteq> Some n)"
proof -
  have inv: "nlm_inv (\<lambda>_. 0) (\<lambda>_. 0) w" using nlm_reach_good [OF assms(1)] by (simp add: nlm_good_def)
  obtain w' where w': "reffs_nlm4_free_all w n = Some w'"
    "\<And>i t. t \<in> held w' i \<longleftrightarrow> t \<in> held w i \<and> caller w (fst t) \<noteq> Some n"
    "\<And>i s v. share_at w' i s v \<longleftrightarrow> share_at w i s v \<and> caller w (s_owner v) \<noteq> Some n"
    using nlm4_free_all_inv [OF inv assms(2)] by metis
  show ?thesis by (intro exI [of _ w']) (simp add: w' nlm4_op_free_all_def)
qed

theorem nlm_free_all_exact_witness:
  "\<exists>w w'. (0, True, 3) \<in> held w 5 \<and> nlm4_op_free_all w ''a'' = Some w' \<and> (0, True, 3) \<notin> held w' 5"
proof -
  obtain w where w: "nlm4_op_lock all_allocs wit_env 1 (nlm_init (\<lambda>_. 0)) (Fh 1 2) False True (wit_lock ''a'' 0 10) = Some (NLM4_GRANTED, w)"
    "lw_owners w 0 = Some \<lparr>lo_ref = 1, lo_data = Nlm4Owner [1] 7 ''a''\<rparr>" "''a'' \<in> h_name ` set (nlm4_hosts w)" "(0, True, 3) \<in> held w 5"
    by (rule wit_locked)
  have c: "caller w 0 = Some ''a''" using w(2) by (simp add: caller_def)
  from nlm_free_all_exact [OF nr_lock [OF nr_init w(1)] w(3)] show ?thesis
  proof (elim exE conjE)
    fix w' assume a: "nlm4_op_free_all w ''a'' = Some w'"
      "\<forall>i o1 e b. (o1, e, b) \<in> held w' i \<longleftrightarrow> (o1, e, b) \<in> held w i \<and> caller w o1 \<noteq> Some ''a''"
    have "(0, True, 3) \<notin> held w' 5" using a(2) c by simp
    then show ?thesis using a(1) w(4) by blast
  qed
qed

text \<open>
  C20. Share reservations: in every reachable state an owner has at most one share on a file, and
  no owner has been granted an access that another owner's share denies.
\<close>

theorem nlm_share_reservations:
  assumes "nlm_reach w" "share_at w ino s1 sh1" "share_at w ino s2 sh2" "s1 \<noteq> s2"
  shows "s_owner sh1 \<noteq> s_owner sh2 \<and> s_access sh1 AND s_mode sh2 = 0 \<and> s_access sh2 AND s_mode sh1 = 0"
proof -
  have ok: "shares_ok w" using nlm_reach_good [OF assms(1)] by (simp add: nlm_good_def)
  have ne: "s_owner sh1 \<noteq> s_owner sh2" using ok assms(2-4) unfolding shares_ok_def by blast
  then have "\<not> reffs_share_conflict (s_mode sh1) (s_access sh1) (s_mode sh2) (s_access sh2)"
    using ok assms(2,3) unfolding shares_ok_def by blast
  then show ?thesis using ne by (simp add: reffs_share_conflict_def split: if_splits)
qed

theorem nlm_share_reservations_witness:
  "\<exists>w sh1 sh2. nlm_reach w \<and> share_at w 5 1 sh1 \<and> share_at w 5 3 sh2 \<and> s_access sh1 AND s_mode sh2 = 0"
proof -
  let ?a = "\<lparr>sh_caller_name = ''a'', sh_oh = [1], sh_mode = 2, sh_access = 1\<rparr>"
  let ?b = "\<lparr>sh_caller_name = ''b'', sh_oh = [1], sh_mode = 2, sh_access = 1\<rparr>"
  have "\<exists>w1. nlm4_op_share all_allocs wit_env 1 (nlm_init (\<lambda>_. 0)) (Fh 1 2) False ?a = Some (NLM4_GRANTED, w1)
     \<and> (\<exists>w2. nlm4_op_share all_allocs wit_env 1 w1 (Fh 1 2) False ?b = Some (NLM4_GRANTED, w2)
     \<and> i_shares w2 5 = [3, 1] \<and> lw_shares w2 1 = Some \<lparr>s_inode = Some 5, s_owner = 0, s_mode = 2, s_access = 1\<rparr>
     \<and> lw_shares w2 3 = Some \<lparr>s_inode = Some 5, s_owner = 2, s_mode = 2, s_access = 1\<rparr>)"
    by (simp add: nlm_eval)
  then obtain w1 w2 where w: "nlm4_op_share all_allocs wit_env 1 (nlm_init (\<lambda>_. 0)) (Fh 1 2) False ?a = Some (NLM4_GRANTED, w1)"
    "nlm4_op_share all_allocs wit_env 1 w1 (Fh 1 2) False ?b = Some (NLM4_GRANTED, w2)" "i_shares w2 5 = [3, 1]"
    "lw_shares w2 1 = Some \<lparr>s_inode = Some 5, s_owner = 0, s_mode = 2, s_access = 1\<rparr>"
    "lw_shares w2 3 = Some \<lparr>s_inode = Some 5, s_owner = 2, s_mode = 2, s_access = 1\<rparr>" by blast
  have r: "nlm_reach w2" by (rule nr_share [OF nr_share [OF nr_init w(1)] w(2)])
  have at: "share_at w2 5 1 \<lparr>s_inode = Some 5, s_owner = 0, s_mode = 2, s_access = 1\<rparr>"
    "share_at w2 5 3 \<lparr>s_inode = Some 5, s_owner = 2, s_mode = 2, s_access = 1\<rparr>" using w(3-5) by (simp_all add: share_at_def)
  have "s_access \<lparr>s_inode = Some 5, s_owner = 0, s_mode = 2, s_access = 1\<rparr> AND
      s_mode \<lparr>s_inode = Some 5, s_owner = 2, s_mode = 2, s_access = 1\<rparr> = 0"
    using nlm_share_reservations [OF r at] by simp
  then show ?thesis using r at by blast
qed


end
