(* ===== verification/ChunkStore.thy ===== *)
theory ChunkStore
  imports Reffs_Prelude
begin

text \<open>
  The per-inode chunk store of the data server
  (\<^verbatim>\<open>src/lib/nfs4/server/chunk_store.c\<close>, \<^verbatim>\<open>chunk_store.h\<close>,
  \<^verbatim>\<open>chunk_epoch.h\<close>): block metadata and its state machine, growth of the block array, the
  escrow index, and persistence with write-temporary, sync and rename. The caller holds the inode
  mutex, so operations are functions on the store. The counters \<^verbatim>\<open>cs_nblocks\<close> and
  \<^verbatim>\<open>cs_high_water\<close> are naturals; the invariant bounds them far below \<open>2^64\<close>. Offsets
  that come from a request keep their 64 bits.
\<close>

section \<open>Block metadata\<close>

text \<open>
  A state read from disk is any 32-bit value cast to the enumeration; \<open>CHUNK_STATE_OTHER\<close> stands
  for the values the enumeration does not name.
\<close>

datatype chunk_state = CHUNK_STATE_EMPTY | CHUNK_STATE_PENDING | CHUNK_STATE_FINALIZED
  | CHUNK_STATE_COMMITTED | CHUNK_STATE_OTHER u32

definition state_to_u32 :: "chunk_state \<Rightarrow> u32" where
  "state_to_u32 s = (case s of CHUNK_STATE_EMPTY \<Rightarrow> 0 | CHUNK_STATE_PENDING \<Rightarrow> 1
     | CHUNK_STATE_FINALIZED \<Rightarrow> 2 | CHUNK_STATE_COMMITTED \<Rightarrow> 3 | CHUNK_STATE_OTHER n \<Rightarrow> n)"

definition state_of_u32 :: "u32 \<Rightarrow> chunk_state" where
  "state_of_u32 n = (if n = 0 then CHUNK_STATE_EMPTY else if n = 1 then CHUNK_STATE_PENDING
     else if n = 2 then CHUNK_STATE_FINALIZED else if n = 3 then CHUNK_STATE_COMMITTED
     else CHUNK_STATE_OTHER n)"

definition CHUNK_BLOCK_LOCKED :: u32 where "CHUNK_BLOCK_LOCKED = 0x1"
definition CHUNK_BLOCK_REPAIR_PROVENANCE :: u32 where "CHUNK_BLOCK_REPAIR_PROVENANCE = 0x2"
definition CHUNK_BLOCK_ERROR :: u32 where "CHUNK_BLOCK_ERROR = 0x4"
definition CHUNK_BLOCK_ESCROW :: u32 where "CHUNK_BLOCK_ESCROW = 0x8"

definition CHUNK_VALUE_MAX :: nat where "CHUNK_VALUE_MAX = 64"
definition CHUNK_LOCK_STATEID_SIZE :: nat where "CHUNK_LOCK_STATEID_SIZE = 16"
definition CHUNK_LOCK_ESCROW_ID_SIZE :: nat where "CHUNK_LOCK_ESCROW_ID_SIZE = 16"
definition CHUNK_STORE_INIT_BLOCKS :: nat where "CHUNK_STORE_INIT_BLOCKS = 64"
definition CHUNK_STORE_MAX_BLOCKS :: nat where "CHUNK_STORE_MAX_BLOCKS = 1024 * 1024"
definition CHUNK_STORE_MAX_ESCROWS :: nat where "CHUNK_STORE_MAX_ESCROWS = 4096"
definition CHUNK_STORE_MAGIC :: u32 where "CHUNK_STORE_MAGIC = 0x434B5354"
definition CHUNK_STORE_VERSION :: u32 where "CHUNK_STORE_VERSION = 3"
definition ESCROW_RECORD_SIZE :: u32 where "ESCROW_RECORD_SIZE = 32"

record chunk_block =
  cb_state :: chunk_state
  cb_flags :: u32
  cb_gen_id :: u32
  cb_client_id :: u32
  cb_cohort_id :: u64
  cb_owner_id :: u32
  cb_payload_id :: u32
  cb_checksum_algorithm :: u32
  cb_checksum_len :: u32
  cb_checksum_value :: "u8 list"
  cb_chunk_size :: u32
  cb_writer_clientid :: u64
  cb_lock_cohort_id :: u64
  cb_lock_client_id :: u32
  cb_lock_owner_id :: u32
  cb_lock_offset :: u64
  cb_lock_count :: u32
  cb_lock_flags :: u32
  cb_lock_stateid :: "u8 list"
  cb_lock_escrow_id :: "u8 list"

record chunk_escrow_range =
  cer_offset :: u64
  cer_count :: u32
  cer_id :: "u8 list"

record chunk_store =
  cs_blocks :: "chunk_block list"
  cs_nblocks :: nat
  cs_high_water :: nat
  cs_chunk_size :: u32
  cs_checksum_algorithm :: u32
  cs_escrows :: "chunk_escrow_range list"
  cs_escrow_cap :: nat
  cs_dirty :: bool

text \<open>A block as \<^verbatim>\<open>calloc\<close> leaves it.\<close>

definition zero_block :: chunk_block where
  "zero_block = \<lparr>cb_state = CHUNK_STATE_EMPTY, cb_flags = 0, cb_gen_id = 0, cb_client_id = 0,
     cb_cohort_id = 0, cb_owner_id = 0, cb_payload_id = 0, cb_checksum_algorithm = 0,
     cb_checksum_len = 0, cb_checksum_value = replicate CHUNK_VALUE_MAX 0, cb_chunk_size = 0,
     cb_writer_clientid = 0, cb_lock_cohort_id = 0, cb_lock_client_id = 0, cb_lock_owner_id = 0,
     cb_lock_offset = 0, cb_lock_count = 0, cb_lock_flags = 0,
     cb_lock_stateid = replicate CHUNK_LOCK_STATEID_SIZE 0,
     cb_lock_escrow_id = replicate CHUNK_LOCK_ESCROW_ID_SIZE 0\<rparr>"

definition escrow_id_is_zero :: "u8 list \<Rightarrow> bool" where
  "escrow_id_is_zero eid \<longleftrightarrow> take CHUNK_LOCK_ESCROW_ID_SIZE eid = replicate CHUNK_LOCK_ESCROW_ID_SIZE 0"

definition chunk_block_has_escrow_custody :: "chunk_block \<Rightarrow> bool" where
  "chunk_block_has_escrow_custody blk \<longleftrightarrow>
     cb_flags blk AND CHUNK_BLOCK_LOCKED \<noteq> 0 \<and>
     cb_lock_escrow_id blk \<noteq> replicate CHUNK_LOCK_ESCROW_ID_SIZE 0"

definition escrow_range_valid :: "u64 \<Rightarrow> u32 \<Rightarrow> u8 list \<Rightarrow> bool" where
  "escrow_range_valid offset cnt eid \<longleftrightarrow>
     cnt \<noteq> 0 \<and> offset \<le> - 1 - ucast cnt \<and> \<not> escrow_id_is_zero eid"

definition escrow_range_equal :: "chunk_escrow_range \<Rightarrow> u64 \<Rightarrow> u32 \<Rightarrow> u8 list \<Rightarrow> bool" where
  "escrow_range_equal a offset cnt eid \<longleftrightarrow> cer_offset a = offset \<and> cer_count a = cnt \<and> cer_id a = eid"

section \<open>Escrow index\<close>

fun refresh_scan ::
  "allocs \<Rightarrow> chunk_block list \<Rightarrow> chunk_escrow_range list \<Rightarrow> nat
   \<Rightarrow> errno + (chunk_escrow_range list \<times> nat)" where
  "refresh_scan mem [] ranges cap = Inr (ranges, cap)"
| "refresh_scan mem (blk # blks) ranges cap =
     (if cb_flags blk AND CHUNK_BLOCK_ESCROW = 0 then refresh_scan mem blks ranges cap
      else if \<not> escrow_range_valid (cb_lock_offset blk) (cb_lock_count blk) (cb_lock_escrow_id blk)
      then Inl EINVAL
      else if list_ex (\<lambda>r. escrow_range_equal r (cb_lock_offset blk) (cb_lock_count blk)
             (cb_lock_escrow_id blk)) ranges
      then refresh_scan mem blks ranges cap
      else if length ranges = CHUNK_STORE_MAX_ESCROWS then Inl E2BIG
      else
        let new_cap = (if length ranges = cap
                       then min (if cap \<noteq> 0 then cap * 2 else 16) CHUNK_STORE_MAX_ESCROWS else cap)
        in if length ranges = cap \<and> \<not> mem ''new_ranges'' then Inl ENOMEM
           else refresh_scan mem blks
             (ranges @ [\<lparr>cer_offset = cb_lock_offset blk, cer_count = cb_lock_count blk,
                         cer_id = cb_lock_escrow_id blk\<rparr>]) new_cap)"

definition chunk_store_refresh_escrows :: "allocs \<Rightarrow> chunk_store \<Rightarrow> errno + chunk_store" where
  "chunk_store_refresh_escrows mem cs =
     (case refresh_scan mem (take (cs_high_water cs) (cs_blocks cs)) [] 0 of
        Inl e \<Rightarrow> Inl e
      | Inr (ranges, cap) \<Rightarrow> Inr (cs\<lparr>cs_escrows := ranges, cs_escrow_cap := cap\<rparr>))"

definition chunk_store_has_escrow :: "chunk_store option \<Rightarrow> u64 \<Rightarrow> u32 \<Rightarrow> u8 list \<Rightarrow> bool" where
  "chunk_store_has_escrow cs offset cnt eid \<longleftrightarrow>
     (case cs of None \<Rightarrow> False
      | Some cs \<Rightarrow> escrow_range_valid offset cnt eid \<and>
          list_ex (\<lambda>r. escrow_range_equal r offset cnt eid) (cs_escrows cs))"

section \<open>In-memory operations\<close>

definition chunk_store_lookup_any :: "chunk_store option \<Rightarrow> u64 \<Rightarrow> chunk_block option" where
  "chunk_store_lookup_any cs offset =
     (case cs of None \<Rightarrow> None
      | Some cs \<Rightarrow> if cs_nblocks cs \<le> unat offset then None else Some (cs_blocks cs ! unat offset))"

definition chunk_store_lookup :: "chunk_store option \<Rightarrow> u64 \<Rightarrow> chunk_block option" where
  "chunk_store_lookup cs offset =
     (case chunk_store_lookup_any cs offset of
        None \<Rightarrow> None
      | Some blk \<Rightarrow> if cb_state blk = CHUNK_STATE_EMPTY then None else Some blk)"

text \<open>The doubling loop; the caller has made the capacity positive.\<close>

function grow_cap :: "nat \<Rightarrow> nat \<Rightarrow> nat" where
  "grow_cap cap new_cap = (if cap = 0 \<or> new_cap < cap then cap else grow_cap (cap * 2) new_cap)"
  by auto
termination by (relation "measure (\<lambda>(cap, new_cap). Suc new_cap - cap)") auto

declare grow_cap.simps [simp del]

definition chunk_store_grow :: "allocs \<Rightarrow> chunk_store \<Rightarrow> u64 \<Rightarrow> errno + chunk_store" where
  "chunk_store_grow mem cs new_cap =
     (if CHUNK_STORE_MAX_BLOCKS < unat new_cap then Inl ENOMEM
      else let cap = grow_cap (if cs_nblocks cs = 0 then CHUNK_STORE_INIT_BLOCKS else cs_nblocks cs)
                       (unat new_cap)
           in if \<not> mem ''nb'' then Inl ENOMEM
              else Inr (cs\<lparr>cs_blocks := take (cs_nblocks cs) (cs_blocks cs)
                                         @ replicate (cap - cs_nblocks cs) zero_block,
                          cs_nblocks := cap\<rparr>))"

definition chunk_store_reserve :: "allocs \<Rightarrow> chunk_store \<Rightarrow> u64 \<Rightarrow> errno + chunk_store" where
  "chunk_store_reserve mem cs offset =
     (if cs_nblocks cs \<le> unat offset then chunk_store_grow mem cs offset else Inr cs)"

definition chunk_store_write :: "allocs \<Rightarrow> chunk_store \<Rightarrow> u64 \<Rightarrow> chunk_block \<Rightarrow> errno + chunk_store" where
  "chunk_store_write mem cs offset blk =
     (case chunk_store_reserve mem cs offset of
        Inl e \<Rightarrow> Inl e
      | Inr cs \<Rightarrow> Inr (cs\<lparr>cs_blocks := (cs_blocks cs)[unat offset := blk],
                         cs_high_water := max (unat offset + 1) (cs_high_water cs),
                         cs_dirty := True\<rparr>))"

definition chunk_store_touch :: "allocs \<Rightarrow> chunk_store \<Rightarrow> u64 \<Rightarrow> errno + chunk_store" where
  "chunk_store_touch mem cs offset =
     (case chunk_store_reserve mem cs offset of
        Inl e \<Rightarrow> Inl e
      | Inr cs \<Rightarrow> Inr (cs\<lparr>cs_high_water := max (unat offset + 1) (cs_high_water cs), cs_dirty := True\<rparr>))"

text \<open>
  The scan that transition and rollback share: the first non-empty block of the owner triple in
  the range. A range that runs past the allocated entries ends the scan with an error.
\<close>

fun find_owned_block :: "chunk_store \<Rightarrow> u64 \<Rightarrow> u64 \<Rightarrow> u32 \<Rightarrow> u32 \<Rightarrow> u64 \<Rightarrow> nat \<Rightarrow> nat option" where
  "find_owned_block cs offset cohort client owner i 0 = None"
| "find_owned_block cs offset cohort client owner i (Suc n) =
     (let off = unat (offset + i) in
      if cs_nblocks cs \<le> off then None
      else let blk = cs_blocks cs ! off in
        if cb_state blk = CHUNK_STATE_EMPTY then find_owned_block cs offset cohort client owner (i + 1) n
        else if cb_cohort_id blk \<noteq> cohort \<or> cb_client_id blk \<noteq> client \<or> cb_owner_id blk \<noteq> owner
        then find_owned_block cs offset cohort client owner (i + 1) n
        else Some off)"

definition set_block_state :: "chunk_store \<Rightarrow> nat \<Rightarrow> chunk_state \<Rightarrow> chunk_store" where
  "set_block_state cs off st =
     cs\<lparr>cs_blocks := (cs_blocks cs)[off := (cs_blocks cs ! off)\<lparr>cb_state := st\<rparr>], cs_dirty := True\<rparr>"

definition chunk_store_transition ::
  "chunk_store \<Rightarrow> u64 \<Rightarrow> u32 \<Rightarrow> u64 \<Rightarrow> u32 \<Rightarrow> u32 \<Rightarrow> chunk_state \<Rightarrow> chunk_state \<Rightarrow> errno + chunk_store" where
  "chunk_store_transition cs offset cnt cohort client owner from_state to_state =
     (case find_owned_block cs offset cohort client owner 0 (unat cnt) of
        None \<Rightarrow> Inl EINVAL
      | Some off \<Rightarrow> if cb_state (cs_blocks cs ! off) \<noteq> from_state then Inl EINVAL
                    else Inr (set_block_state cs off to_state))"

definition chunk_store_rollback ::
  "chunk_store \<Rightarrow> u64 \<Rightarrow> u32 \<Rightarrow> u64 \<Rightarrow> u32 \<Rightarrow> u32 \<Rightarrow> errno + chunk_store" where
  "chunk_store_rollback cs offset cnt cohort client owner =
     (case find_owned_block cs offset cohort client owner 0 (unat cnt) of
        None \<Rightarrow> Inl EINVAL
      | Some off \<Rightarrow>
          (case cb_state (cs_blocks cs ! off) of
             CHUNK_STATE_PENDING \<Rightarrow> Inr (set_block_state cs off CHUNK_STATE_EMPTY)
           | CHUNK_STATE_FINALIZED \<Rightarrow> Inr (set_block_state cs off CHUNK_STATE_EMPTY)
           | CHUNK_STATE_COMMITTED \<Rightarrow> Inl ENOTSUP
           | _ \<Rightarrow> Inl EINVAL))"

text \<open>
  One turn of the lease-expiry sweep on a block; the second component says whether the block
  counts as transitioned.
\<close>

definition rollback_client_block :: "u64 \<Rightarrow> chunk_block \<Rightarrow> chunk_block \<times> bool" where
  "rollback_client_block writer blk =
     (if cb_writer_clientid blk \<noteq> writer then (blk, False)
      else if cb_flags blk AND CHUNK_BLOCK_ESCROW \<noteq> 0 then (blk, False)
      else if chunk_block_has_escrow_custody blk
      then (blk\<lparr>cb_flags := cb_flags blk OR CHUNK_BLOCK_ESCROW, cb_lock_cohort_id := 0,
                cb_lock_client_id := - 1, cb_lock_owner_id := 0, cb_lock_flags := 0,
                cb_lock_stateid := replicate CHUNK_LOCK_STATEID_SIZE 0, cb_writer_clientid := 0\<rparr>, True)
      else if cb_state blk = CHUNK_STATE_PENDING \<or> cb_state blk = CHUNK_STATE_FINALIZED
      then (blk\<lparr>cb_state := CHUNK_STATE_EMPTY\<rparr>, True)
      else (blk, False))"

definition chunk_store_rollback_for_client :: "chunk_store \<Rightarrow> u64 \<Rightarrow> u32 \<times> chunk_store" where
  "chunk_store_rollback_for_client cs writer =
     (let r = map (rollback_client_block writer) (cs_blocks cs);
          ntransitioned = length (filter snd r)
      in (of_nat ntransitioned,
          cs\<lparr>cs_blocks := map fst r, cs_dirty := (if 0 < ntransitioned then True else cs_dirty cs)\<rparr>))"

definition chunk_store_clear :: "chunk_store \<Rightarrow> chunk_store" where
  "chunk_store_clear cs = cs\<lparr>cs_blocks := replicate (cs_nblocks cs) zero_block, cs_escrows := [],
     cs_escrow_cap := 0, cs_high_water := 0, cs_chunk_size := 0, cs_checksum_algorithm := 0,
     cs_dirty := True\<rparr>"

definition count_runs_step :: "chunk_block \<Rightarrow> nat \<times> bool \<Rightarrow> nat \<times> bool" where
  "count_runs_step blk s =
     (case s of (runs, in_run) \<Rightarrow>
        if cb_state blk \<noteq> CHUNK_STATE_EMPTY \<and> \<not> in_run then (runs + 1, True)
        else if cb_state blk = CHUNK_STATE_EMPTY then (runs, False)
        else (runs, in_run))"

definition chunk_store_count_runs :: "chunk_store option \<Rightarrow> nat" where
  "chunk_store_count_runs cs =
     (case cs of None \<Rightarrow> 0
      | Some cs \<Rightarrow> if cs_nblocks cs = 0 then 0
                   else fst (fold count_runs_step (cs_blocks cs) (0, False)))"

section \<open>Disk format\<close>

record chunk_store_header =
  csh_magic :: u32
  csh_version :: u32
  csh_nblocks :: u64
  csh_inode_ino :: u64
  csh_chunk_size :: u32
  csh_checksum_algorithm :: u32
  csh_escrow_count :: u32
  csh_escrow_record_size :: u32

record chunk_escrow_range_disk =
  cerd_offset :: u64
  cerd_count :: u32
  cerd_pad :: u32
  cerd_id :: "u8 list"

record chunk_block_disk =
  cbd_state :: u32
  cbd_flags :: u32
  cbd_gen_id :: u32
  cbd_client_id :: u32
  cbd_owner_id :: u32
  cbd_payload_id :: u32
  cbd_checksum_algorithm :: u32
  cbd_checksum_len :: u32
  cbd_checksum_value :: "u8 list"
  cbd_chunk_size :: u32
  cbd_pad :: u32
  cbd_writer_clientid :: u64
  cbd_cohort_id :: u64
  cbd_lock_cohort_id :: u64
  cbd_lock_client_id :: u32
  cbd_lock_owner_id :: u32
  cbd_lock_offset :: u64
  cbd_lock_count :: u32
  cbd_lock_flags :: u32
  cbd_lock_stateid :: "u8 list"
  cbd_lock_escrow_id :: "u8 list"

definition escrow_range_to_disk :: "chunk_escrow_range \<Rightarrow> chunk_escrow_range_disk" where
  "escrow_range_to_disk r =
     \<lparr>cerd_offset = cer_offset r, cerd_count = cer_count r, cerd_pad = 0, cerd_id = cer_id r\<rparr>"

definition escrow_range_from_disk :: "chunk_escrow_range_disk \<Rightarrow> chunk_escrow_range" where
  "escrow_range_from_disk d =
     \<lparr>cer_offset = cerd_offset d, cer_count = cerd_count d, cer_id = cerd_id d\<rparr>"

definition block_to_disk :: "chunk_block \<Rightarrow> chunk_block_disk" where
  "block_to_disk blk =
     \<lparr>cbd_state = state_to_u32 (cb_state blk), cbd_flags = cb_flags blk, cbd_gen_id = cb_gen_id blk,
      cbd_client_id = cb_client_id blk, cbd_owner_id = cb_owner_id blk,
      cbd_payload_id = cb_payload_id blk, cbd_checksum_algorithm = cb_checksum_algorithm blk,
      cbd_checksum_len = cb_checksum_len blk, cbd_checksum_value = cb_checksum_value blk,
      cbd_chunk_size = cb_chunk_size blk, cbd_pad = 0, cbd_writer_clientid = cb_writer_clientid blk,
      cbd_cohort_id = cb_cohort_id blk, cbd_lock_cohort_id = cb_lock_cohort_id blk,
      cbd_lock_client_id = cb_lock_client_id blk, cbd_lock_owner_id = cb_lock_owner_id blk,
      cbd_lock_offset = cb_lock_offset blk, cbd_lock_count = cb_lock_count blk,
      cbd_lock_flags = cb_lock_flags blk, cbd_lock_stateid = cb_lock_stateid blk,
      cbd_lock_escrow_id = cb_lock_escrow_id blk\<rparr>"

definition disk_to_block :: "chunk_block_disk \<Rightarrow> chunk_block" where
  "disk_to_block d =
     \<lparr>cb_state = state_of_u32 (cbd_state d), cb_flags = cbd_flags d, cb_gen_id = cbd_gen_id d,
      cb_client_id = cbd_client_id d, cb_cohort_id = cbd_cohort_id d, cb_owner_id = cbd_owner_id d,
      cb_payload_id = cbd_payload_id d, cb_checksum_algorithm = cbd_checksum_algorithm d,
      cb_checksum_len = (if of_nat CHUNK_VALUE_MAX < cbd_checksum_len d then of_nat CHUNK_VALUE_MAX
                         else cbd_checksum_len d),
      cb_checksum_value = cbd_checksum_value d, cb_chunk_size = cbd_chunk_size d,
      cb_writer_clientid = cbd_writer_clientid d, cb_lock_cohort_id = cbd_lock_cohort_id d,
      cb_lock_client_id = cbd_lock_client_id d, cb_lock_owner_id = cbd_lock_owner_id d,
      cb_lock_offset = cbd_lock_offset d, cb_lock_count = cbd_lock_count d,
      cb_lock_flags = cbd_lock_flags d, cb_lock_stateid = cbd_lock_stateid d,
      cb_lock_escrow_id = cbd_lock_escrow_id d\<rparr>"

section \<open>Invariant\<close>

definition wf_block :: "chunk_block \<Rightarrow> bool" where
  "wf_block blk \<longleftrightarrow> (\<forall>n. cb_state blk = CHUNK_STATE_OTHER n \<longrightarrow> 3 < n)
   \<and> cb_checksum_len blk \<le> of_nat CHUNK_VALUE_MAX"

text \<open>
  The array has \<^verbatim>\<open>cs_nblocks\<close> entries, at most twice the documented maximum; everything
  occupied lies below the high-water mark, which is what persistence writes.
\<close>

definition cs_inv :: "chunk_store \<Rightarrow> bool" where
  "cs_inv cs \<longleftrightarrow> length (cs_blocks cs) = cs_nblocks cs \<and> cs_high_water cs \<le> cs_nblocks cs
   \<and> cs_nblocks cs \<le> 2 * CHUNK_STORE_MAX_BLOCKS
   \<and> (\<forall>i < cs_nblocks cs. wf_block (cs_blocks cs ! i) \<and>
        (cs_high_water cs \<le> i \<longrightarrow> cb_state (cs_blocks cs ! i) = CHUNK_STATE_EMPTY))"

definition fresh_store :: chunk_store where
  "fresh_store = \<lparr>cs_blocks = replicate CHUNK_STORE_INIT_BLOCKS zero_block,
     cs_nblocks = CHUNK_STORE_INIT_BLOCKS, cs_high_water = 0, cs_chunk_size = 0,
     cs_checksum_algorithm = 0, cs_escrows = [], cs_escrow_cap = 0, cs_dirty = False\<rparr>"

lemmas cs_consts = CHUNK_STORE_INIT_BLOCKS_def CHUNK_STORE_MAX_BLOCKS_def CHUNK_VALUE_MAX_def
  CHUNK_STORE_MAX_ESCROWS_def

lemma grow_cap_bounds:
  assumes "0 < cap"
  shows "new_cap < grow_cap cap new_cap" "cap \<le> grow_cap cap new_cap"
    "grow_cap cap new_cap \<le> max cap (2 * new_cap)"
  using assms
proof (induction cap new_cap rule: grow_cap.induct)
  case (1 cap new_cap)
  {
    case 1
    then show ?case using "1.IH"(1) by (subst grow_cap.simps) auto
  next
    case 2
    then show ?case using "1.IH"(2) by (subst grow_cap.simps) auto
  next
    case 3
    then show ?case using "1.IH"(3) by (subst grow_cap.simps) auto
  }
qed

lemma wf_zero_block [simp]: "wf_block zero_block"
  by (simp add: wf_block_def zero_block_def)

lemma zero_block_empty [simp]: "cb_state zero_block = CHUNK_STATE_EMPTY"
  by (simp add: zero_block_def)

lemma fresh_store_inv [simp]: "cs_inv fresh_store"
  by (simp add: cs_inv_def fresh_store_def cs_consts)

lemma chunk_store_reserve_inv:
  assumes inv: "cs_inv cs" and r: "chunk_store_reserve mem cs offset = Inr cs'"
  shows "cs_inv cs'" "unat offset < cs_nblocks cs'" "cs_nblocks cs \<le> cs_nblocks cs'"
    "cs_high_water cs' = cs_high_water cs"
    "\<And>i. i < cs_nblocks cs \<Longrightarrow> cs_blocks cs' ! i = cs_blocks cs ! i"
    "\<And>i. cs_nblocks cs \<le> i \<Longrightarrow> i < cs_nblocks cs' \<Longrightarrow> cs_blocks cs' ! i = zero_block"
proof -
  let ?c0 = "if cs_nblocks cs = 0 then CHUNK_STORE_INIT_BLOCKS else cs_nblocks cs"
  have c0: "0 < ?c0" "cs_nblocks cs \<le> ?c0" "?c0 \<le> 2 * CHUNK_STORE_MAX_BLOCKS"
    using inv by (auto simp: cs_inv_def cs_consts)
  note G = grow_cap_bounds [OF c0(1), of "unat offset"]
  have *: "cs_inv cs' \<and> unat offset < cs_nblocks cs' \<and> cs_nblocks cs \<le> cs_nblocks cs' \<and>
    cs_high_water cs' = cs_high_water cs \<and>
    (\<forall>i < cs_nblocks cs. cs_blocks cs' ! i = cs_blocks cs ! i) \<and>
    (\<forall>i. cs_nblocks cs \<le> i \<longrightarrow> i < cs_nblocks cs' \<longrightarrow> cs_blocks cs' ! i = zero_block)"
  proof (cases "cs_nblocks cs \<le> unat offset")
    case False
    then show ?thesis using r inv by (auto simp: chunk_store_reserve_def)
  next
    case True
    then have le: "unat offset \<le> CHUNK_STORE_MAX_BLOCKS"
      and cs': "cs' = cs\<lparr>cs_blocks := take (cs_nblocks cs) (cs_blocks cs)
           @ replicate (grow_cap ?c0 (unat offset) - cs_nblocks cs) zero_block,
           cs_nblocks := grow_cap ?c0 (unat offset)\<rparr>"
      using r by (auto simp: chunk_store_reserve_def chunk_store_grow_def Let_def split: if_splits)
    have "grow_cap ?c0 (unat offset) \<le> 2 * CHUNK_STORE_MAX_BLOCKS" using G(3) c0(3) le by linarith
    then show ?thesis using G(1,2) c0(2) inv unfolding cs'
      by (auto simp: cs_inv_def nth_append)
  qed
  then show "cs_inv cs'" "unat offset < cs_nblocks cs'" "cs_nblocks cs \<le> cs_nblocks cs'"
    "cs_high_water cs' = cs_high_water cs"
    "\<And>i. i < cs_nblocks cs \<Longrightarrow> cs_blocks cs' ! i = cs_blocks cs ! i"
    "\<And>i. cs_nblocks cs \<le> i \<Longrightarrow> i < cs_nblocks cs' \<Longrightarrow> cs_blocks cs' ! i = zero_block" by auto
qed

lemma chunk_store_write_inv:
  assumes inv: "cs_inv cs" and b: "wf_block blk" and r: "chunk_store_write mem cs offset blk = Inr cs'"
  shows "cs_inv cs'"
proof -
  obtain c where c: "chunk_store_reserve mem cs offset = Inr c"
    and cs': "cs' = c\<lparr>cs_blocks := (cs_blocks c)[unat offset := blk],
       cs_high_water := max (unat offset + 1) (cs_high_water c), cs_dirty := True\<rparr>"
    using r by (auto simp: chunk_store_write_def split: sum.splits)
  show ?thesis using chunk_store_reserve_inv(1,2) [OF inv c] b unfolding cs'
    by (auto simp: cs_inv_def nth_list_update)
qed

lemma chunk_store_touch_inv:
  assumes inv: "cs_inv cs" and r: "chunk_store_touch mem cs offset = Inr cs'"
  shows "cs_inv cs'"
proof -
  obtain c where c: "chunk_store_reserve mem cs offset = Inr c"
    and cs': "cs' = c\<lparr>cs_high_water := max (unat offset + 1) (cs_high_water c), cs_dirty := True\<rparr>"
    using r by (auto simp: chunk_store_touch_def split: sum.splits)
  show ?thesis using chunk_store_reserve_inv(1,2) [OF inv c] unfolding cs' by (auto simp: cs_inv_def)
qed

section \<open>Transition and rollback\<close>

definition owned_by :: "u64 \<Rightarrow> u32 \<Rightarrow> u32 \<Rightarrow> chunk_block \<Rightarrow> bool" where
  "owned_by cohort client owner blk \<longleftrightarrow> cb_state blk \<noteq> CHUNK_STATE_EMPTY \<and>
     cb_cohort_id blk = cohort \<and> cb_client_id blk = client \<and> cb_owner_id blk = owner"

lemma find_owned_block_Some:
  assumes "find_owned_block cs offset cohort client owner i n = Some off"
  shows "\<exists>j<n. off = unat (offset + i + of_nat j) \<and> off < cs_nblocks cs
     \<and> owned_by cohort client owner (cs_blocks cs ! off)
     \<and> (\<forall>j'<j. unat (offset + i + of_nat j') < cs_nblocks cs
          \<and> \<not> owned_by cohort client owner (cs_blocks cs ! unat (offset + i + of_nat j')))"
  using assms
proof (induction n arbitrary: i)
  case (Suc n)
  let ?o = "unat (offset + i)"
  have lt: "?o < cs_nblocks cs" using Suc.prems by (auto simp: Let_def split: if_splits)
  show ?case
  proof (cases "owned_by cohort client owner (cs_blocks cs ! ?o)")
    case True
    then have "off = ?o" using Suc.prems lt by (auto simp: owned_by_def Let_def split: if_splits)
    then show ?thesis using True lt by (intro exI [of _ 0]) simp
  next
    case False
    then have "find_owned_block cs offset cohort client owner (i + 1) n = Some off"
      using Suc.prems lt by (auto simp: owned_by_def Let_def split: if_splits)
    then obtain j where j: "j < n" "off = unat (offset + (i + 1) + of_nat j)" "off < cs_nblocks cs"
      "owned_by cohort client owner (cs_blocks cs ! off)"
      "\<forall>j'<j. unat (offset + (i + 1) + of_nat j') < cs_nblocks cs
          \<and> \<not> owned_by cohort client owner (cs_blocks cs ! unat (offset + (i + 1) + of_nat j'))"
      using Suc.IH by blast
    have "unat (offset + i + of_nat j') < cs_nblocks cs
        \<and> \<not> owned_by cohort client owner (cs_blocks cs ! unat (offset + i + of_nat j'))"
      if "j' < Suc j" for j'
      using that j(5) lt False by (cases j') (auto simp: add.assoc add.left_commute)
    then show ?thesis using j by (intro exI [of _ "Suc j"]) (auto simp: add.assoc add.left_commute)
  qed
qed simp

lemma find_owned_block_None:
  assumes "find_owned_block cs offset cohort client owner i n = None" "j < n"
    and "\<And>j'. j' \<le> j \<Longrightarrow> unat (offset + i + of_nat j') < cs_nblocks cs"
  shows "\<not> owned_by cohort client owner (cs_blocks cs ! unat (offset + i + of_nat j))"
  using assms
proof (induction n arbitrary: i j)
  case (Suc n)
  have lt: "unat (offset + i) < cs_nblocks cs" using Suc.prems(3) [of 0] by simp
  then have no: "\<not> owned_by cohort client owner (cs_blocks cs ! unat (offset + i))"
    and nx: "find_owned_block cs offset cohort client owner (i + 1) n = None"
    using Suc.prems(1) by (auto simp: owned_by_def Let_def split: if_splits)
  show ?case
  proof (cases j)
    case 0
    then show ?thesis using no by simp
  next
    case (Suc j')
    have "unat (offset + (i + 1) + of_nat j'') < cs_nblocks cs" if "j'' \<le> j'" for j''
      using Suc.prems(3) [of "Suc j''"] that Suc by (simp add: add.assoc add.left_commute)
    then show ?thesis using Suc.IH [OF nx, of j'] Suc.prems(2) Suc by (simp add: add.assoc add.left_commute)
  qed
qed simp

lemma find_owned_block_find:
  assumes "\<forall>j < i + n. unat (offset + of_nat j) < cs_nblocks cs"
  shows "find_owned_block cs offset cohort client owner (of_nat i) n =
    map_option (\<lambda>j. unat (offset + of_nat j))
      (find (\<lambda>j. owned_by cohort client owner (cs_blocks cs ! unat (offset + of_nat j))) [i..<i + n])"
  using assms
proof (induction n arbitrary: i)
  case (Suc n)
  have IH: "find_owned_block cs offset cohort client owner (of_nat i + 1) n =
    map_option (\<lambda>j. unat (offset + of_nat j))
      (find (\<lambda>j. owned_by cohort client owner (cs_blocks cs ! unat (offset + of_nat j))) [Suc i..<i + Suc n])"
    using Suc.IH [of "Suc i"] Suc.prems by (simp add: add.commute)
  have "unat (offset + of_nat i) < cs_nblocks cs" using Suc.prems by simp
  moreover have "[i..<i + Suc n] = i # [Suc i..<i + Suc n]" by (simp add: upt_conv_Cons)
  ultimately show ?case by (simp add: Let_def IH owned_by_def del: upt_Suc)
qed simp

lemma set_block_state_inv:
  assumes inv: "cs_inv cs" and off: "off < cs_nblocks cs" "cb_state (cs_blocks cs ! off) \<noteq> CHUNK_STATE_EMPTY"
    and st: "\<And>n. st = CHUNK_STATE_OTHER n \<Longrightarrow> 3 < n"
  shows "cs_inv (set_block_state cs off st)"
proof -
  have "off < cs_high_water cs" using inv off by (auto simp: cs_inv_def not_less [symmetric])
  then show ?thesis using inv off st
    by (auto simp: cs_inv_def set_block_state_def nth_list_update wf_block_def)
qed

lemma chunk_store_transition_Inr:
  assumes "chunk_store_transition cs offset cnt cohort client owner s t = Inr cs'"
  obtains off where "off < cs_nblocks cs" "owned_by cohort client owner (cs_blocks cs ! off)"
    "cb_state (cs_blocks cs ! off) = s" "cs' = set_block_state cs off t"
    "\<exists>j < unat cnt. off = unat (offset + of_nat j)"
  using assms find_owned_block_Some [of cs offset cohort client owner 0 "unat cnt"]
  by (fastforce simp: chunk_store_transition_def split: option.splits if_splits)

lemma chunk_store_rollback_Inr:
  assumes "chunk_store_rollback cs offset cnt cohort client owner = Inr cs'"
  obtains off where "off < cs_nblocks cs" "owned_by cohort client owner (cs_blocks cs ! off)"
    "cb_state (cs_blocks cs ! off) \<in> {CHUNK_STATE_PENDING, CHUNK_STATE_FINALIZED}"
    "cs' = set_block_state cs off CHUNK_STATE_EMPTY"
    "\<exists>j < unat cnt. off = unat (offset + of_nat j)"
  using assms find_owned_block_Some [of cs offset cohort client owner 0 "unat cnt"]
  by (fastforce simp: chunk_store_rollback_def split: option.splits chunk_state.splits)

section \<open>The lease-expiry sweep\<close>

lemma rollback_client_block_wf:
  assumes "wf_block blk"
  shows "wf_block (fst (rollback_client_block w blk))"
    "cb_state blk = CHUNK_STATE_EMPTY \<Longrightarrow> cb_state (fst (rollback_client_block w blk)) = CHUNK_STATE_EMPTY"
  using assms by (auto simp: rollback_client_block_def wf_block_def)

lemma or_escrow: "(f OR CHUNK_BLOCK_ESCROW) AND CHUNK_BLOCK_ESCROW \<noteq> 0"
  by (simp add: CHUNK_BLOCK_ESCROW_def bit.conj_disj_distrib2)

lemma rollback_client_block_changed:
  "snd (rollback_client_block w blk) \<longleftrightarrow> fst (rollback_client_block w blk) \<noteq> blk"
proof (cases "cb_flags blk AND CHUNK_BLOCK_ESCROW = 0")
  case True
  then have "cb_flags blk OR CHUNK_BLOCK_ESCROW \<noteq> cb_flags blk" using or_escrow [of "cb_flags blk"] by metis
  then have "blk\<lparr>cb_flags := cb_flags blk OR CHUNK_BLOCK_ESCROW, cb_lock_cohort_id := 0,
                cb_lock_client_id := - 1, cb_lock_owner_id := 0, cb_lock_flags := 0,
                cb_lock_stateid := replicate CHUNK_LOCK_STATEID_SIZE 0, cb_writer_clientid := 0\<rparr> \<noteq> blk"
    by (intro notI) (drule arg_cong [where f = cb_flags], simp)
  moreover have "blk\<lparr>cb_state := CHUNK_STATE_EMPTY\<rparr> \<noteq> blk" if "cb_state blk \<noteq> CHUNK_STATE_EMPTY"
    using that by (cases blk) auto
  ultimately show ?thesis by (auto simp: rollback_client_block_def)
qed (auto simp: rollback_client_block_def)

lemma chunk_store_rollback_for_client_inv:
  assumes "cs_inv cs"
  shows "cs_inv (snd (chunk_store_rollback_for_client cs w))"
  using assms rollback_client_block_wf
  by (auto simp: cs_inv_def chunk_store_rollback_for_client_def Let_def)

lemma chunk_store_clear_inv: "cs_inv cs \<Longrightarrow> cs_inv (chunk_store_clear cs)"
  by (simp add: cs_inv_def chunk_store_clear_def)

section \<open>Runs\<close>

definition occupied :: "chunk_block list \<Rightarrow> nat \<Rightarrow> bool" where
  "occupied blks i \<longleftrightarrow> i < length blks \<and> cb_state (blks ! i) \<noteq> CHUNK_STATE_EMPTY"

definition run_starts :: "chunk_block list \<Rightarrow> nat set" where
  "run_starts blks = {i. occupied blks i \<and> (i = 0 \<or> \<not> occupied blks (i - 1))}"

lemma count_runs_fold:
  "fold count_runs_step blks (0, False) =
     (card (run_starts blks), blks \<noteq> [] \<and> cb_state (last blks) \<noteq> CHUNK_STATE_EMPTY)"
proof (induction blks rule: rev_induct)
  case Nil
  then show ?case by (simp add: run_starts_def occupied_def)
next
  case (snoc b blks)
  let ?n = "length blks"
  have occ: "occupied (blks @ [b]) i \<longleftrightarrow> occupied blks i \<or> i = ?n \<and> cb_state b \<noteq> CHUNK_STATE_EMPTY" for i
    by (auto simp: occupied_def nth_append less_Suc_eq)
  have nn: "\<not> occupied blks ?n" by (simp add: occupied_def)
  have prev: "occupied blks (?n - 1) \<longleftrightarrow> blks \<noteq> [] \<and> cb_state (last blks) \<noteq> CHUNK_STATE_EMPTY"
    by (cases "blks = []") (auto simp: occupied_def last_conv_nth)
  have low: "i < ?n" if "occupied blks i" for i using that by (simp add: occupied_def)
  have low': "i - Suc 0 \<noteq> ?n" if "occupied blks i" for i using low [OF that] by linarith
  have ne: "?n - Suc 0 \<noteq> ?n" if "blks \<noteq> []" using that by (cases blks) auto
  have "run_starts (blks @ [b]) = (if cb_state b \<noteq> CHUNK_STATE_EMPTY \<and> \<not> (blks \<noteq> [] \<and> cb_state (last blks) \<noteq> CHUNK_STATE_EMPTY)
      then insert ?n (run_starts blks) else run_starts blks)"
    using prev low low' ne by (auto simp: run_starts_def occ nn)
  moreover have "?n \<notin> run_starts blks" "finite (run_starts blks)"
    using low by (auto simp: run_starts_def intro: finite_subset [of _ "{..<?n}"])
  ultimately show ?case using snoc by (auto simp: count_runs_step_def)
qed

section \<open>The escrow index\<close>

definition range_of :: "chunk_block \<Rightarrow> chunk_escrow_range" where
  "range_of blk = \<lparr>cer_offset = cb_lock_offset blk, cer_count = cb_lock_count blk, cer_id = cb_lock_escrow_id blk\<rparr>"

definition escrowed :: "chunk_block \<Rightarrow> bool" where
  "escrowed blk \<longleftrightarrow> cb_flags blk AND CHUNK_BLOCK_ESCROW \<noteq> 0"

lemma escrow_range_equal_iff:
  "escrow_range_equal r (cb_lock_offset blk) (cb_lock_count blk) (cb_lock_escrow_id blk) \<longleftrightarrow> r = range_of blk"
  by (cases r) (auto simp: escrow_range_equal_def range_of_def)

lemma refresh_scan_Inr:
  assumes "refresh_scan mem blks ranges cap = Inr (ranges', cap')"
    and "distinct ranges" "length ranges \<le> CHUNK_STORE_MAX_ESCROWS"
  shows "distinct ranges' \<and> length ranges' \<le> CHUNK_STORE_MAX_ESCROWS
    \<and> set ranges' = set ranges \<union> range_of ` {b \<in> set blks. escrowed b}
    \<and> (\<forall>b \<in> set blks. escrowed b \<longrightarrow>
         escrow_range_valid (cb_lock_offset b) (cb_lock_count b) (cb_lock_escrow_id b))"
  using assms
proof (induction mem blks ranges cap rule: refresh_scan.induct)
  case (2 mem blk blks ranges cap)
  show ?case
  proof (cases "escrowed blk")
    case False
    then show ?thesis using 2 by (auto simp: escrowed_def)
  next
    case True
    then have f: "\<not> cb_flags blk AND CHUNK_BLOCK_ESCROW = 0" by (simp add: escrowed_def)
    have v: "escrow_range_valid (cb_lock_offset blk) (cb_lock_count blk) (cb_lock_escrow_id blk)"
      using "2.prems"(1) f by (auto split: if_splits)
    show ?thesis
    proof (cases "range_of blk \<in> set ranges")
      case in_set: True
      then have ex: "list_ex (\<lambda>r. r = range_of blk) ranges" by (auto simp: list_ex_iff)
      then have "refresh_scan mem blks ranges cap = Inr (ranges', cap')"
        using "2.prems"(1) f v by (simp add: escrow_range_equal_iff)
      from "2.IH"(2) [OF f _ _ this "2.prems"(2,3)] show ?thesis
        using v ex in_set True by (auto simp: escrow_range_equal_iff)
    next
      case False
      then have ex: "\<not> list_ex (\<lambda>r. r = range_of blk) ranges" by (auto simp: list_ex_iff)
      define nc where "nc = (if length ranges = cap
         then min (if cap \<noteq> 0 then cap * 2 else 16) CHUNK_STORE_MAX_ESCROWS else cap)"
      have len: "length ranges < CHUNK_STORE_MAX_ESCROWS"
        and r: "refresh_scan mem blks (ranges @ [range_of blk]) nc = Inr (ranges', cap')"
        and m: "\<not> (length ranges = cap \<and> \<not> mem ''new_ranges'')"
        using "2.prems"(1,3) f v ex
        by (auto simp: escrow_range_equal_iff range_of_def [symmetric] nc_def Let_def split: if_splits)
      have "distinct (ranges @ [range_of blk])" "length (ranges @ [range_of blk]) \<le> CHUNK_STORE_MAX_ESCROWS"
        using "2.prems"(2) False len by auto
      from "2.IH"(3) [OF f _ _ _ nc_def m, folded range_of_def, OF _ _ _ r this] show ?thesis
        using v ex len True by (auto simp: escrow_range_equal_iff)
    qed
  qed
qed auto

lemma chunk_store_refresh_escrows_inv:
  assumes "chunk_store_refresh_escrows mem cs = Inr cs'" "cs_inv cs"
  shows "cs_inv cs'"
  using assms by (auto simp: chunk_store_refresh_escrows_def cs_inv_def split: sum.splits)

section \<open>The store as a map of blocks\<close>

text \<open>
  What the data path relies on: a successful write makes the block the one that lookups at that
  offset return and leaves every other offset alone. Handlers that issue several writes get the
  last write at each offset, also when growing the array moved the blocks in between.
\<close>

primrec write_all :: "('s \<Rightarrow> u64 \<Rightarrow> 'b \<Rightarrow> errno + 's) \<Rightarrow> (u64 \<times> 'b) list \<Rightarrow> 's \<Rightarrow> errno + 's" where
  "write_all wr [] s = Inr s"
| "write_all wr (w # ws) s = (case wr s (fst w) (snd w) of Inl e \<Rightarrow> Inl e | Inr s' \<Rightarrow> write_all wr ws s')"

locale block_map =
  fixes invar :: "'s \<Rightarrow> bool"
    and ok :: "'b \<Rightarrow> bool"
    and lookup :: "'s \<Rightarrow> u64 \<Rightarrow> 'b option"
    and store :: "'s \<Rightarrow> u64 \<Rightarrow> 'b \<Rightarrow> errno + 's"
  assumes invar_store: "invar s \<Longrightarrow> ok b \<Longrightarrow> store s off b = Inr s' \<Longrightarrow> invar s'"
    and lookup_store: "invar s \<Longrightarrow> ok b \<Longrightarrow> store s off b = Inr s' \<Longrightarrow>
      lookup s' off' = (if off' = off then Some b else lookup s off')"
begin

lemma write_all_lookup:
  assumes "invar s" "\<forall>w \<in> set ws. ok (snd w)" "write_all store ws s = Inr s'"
  shows "invar s' \<and> lookup s' off = (case map_of (rev ws) off of None \<Rightarrow> lookup s off | Some b \<Rightarrow> Some b)"
  using assms
proof (induction ws arbitrary: s)
  case (Cons w ws)
  obtain s1 where s1: "store s (fst w) (snd w) = Inr s1" "write_all store ws s1 = Inr s'"
    using Cons.prems(3) by (auto split: sum.splits)
  have "invar s1" using invar_store Cons.prems s1(1) by auto
  then have IH: "invar s' \<and> lookup s' off = (case map_of (rev ws) off of None \<Rightarrow> lookup s1 off | Some b \<Rightarrow> Some b)"
    using Cons.IH Cons.prems(2) s1(2) by simp
  have l1: "lookup s1 off = (if off = fst w then Some (snd w) else lookup s off)"
    using lookup_store [OF Cons.prems(1) _ s1(1)] Cons.prems(2) by simp
  have "map_of (rev (w # ws)) off =
      (case map_of (rev ws) off of None \<Rightarrow> (if off = fst w then Some (snd w) else None) | Some b \<Rightarrow> Some b)"
    by (cases w) (auto simp: map_add_def split: option.splits)
  then show ?case using IH l1 by (auto split: option.splits)
qed simp

end

lemma chunk_store_write_blocks:
  assumes inv: "cs_inv cs" and r: "chunk_store_write mem cs offset blk = Inr cs'"
  shows "unat offset < cs_nblocks cs'" "cs_nblocks cs \<le> cs_nblocks cs'"
    "\<And>i. i < cs_nblocks cs' \<Longrightarrow> cs_blocks cs' ! i =
       (if i = unat offset then blk else if i < cs_nblocks cs then cs_blocks cs ! i else zero_block)"
proof -
  obtain c where c: "chunk_store_reserve mem cs offset = Inr c"
    and cs': "cs' = c\<lparr>cs_blocks := (cs_blocks c)[unat offset := blk],
       cs_high_water := max (unat offset + 1) (cs_high_water c), cs_dirty := True\<rparr>"
    using r by (auto simp: chunk_store_write_def split: sum.splits)
  note R = chunk_store_reserve_inv [OF inv c]
  have "length (cs_blocks c) = cs_nblocks c" using R(1) by (simp add: cs_inv_def)
  then show "unat offset < cs_nblocks cs'" "cs_nblocks cs \<le> cs_nblocks cs'"
    "\<And>i. i < cs_nblocks cs' \<Longrightarrow> cs_blocks cs' ! i =
       (if i = unat offset then blk else if i < cs_nblocks cs then cs_blocks cs ! i else zero_block)"
    using R(2,3,5,6) unfolding cs' by (auto simp: nth_list_update)
qed

lemma lookup_Some_store:
  "chunk_store_lookup (Some cs) offset =
     (if unat offset < cs_nblocks cs \<and> cb_state (cs_blocks cs ! unat offset) \<noteq> CHUNK_STATE_EMPTY
      then Some (cs_blocks cs ! unat offset) else None)"
  by (auto simp: chunk_store_lookup_def chunk_store_lookup_any_def)

interpretation cm: block_map cs_inv "\<lambda>b. wf_block b \<and> cb_state b \<noteq> CHUNK_STATE_EMPTY"
  "\<lambda>cs. chunk_store_lookup (Some cs)" "chunk_store_write mem" for mem
proof
  fix s b off s' off'
  assume inv: "cs_inv s" and b: "wf_block b \<and> cb_state b \<noteq> CHUNK_STATE_EMPTY"
    and w: "chunk_store_write mem s off b = Inr s'"
  show "cs_inv s'" using chunk_store_write_inv [OF inv _ w] b by blast
  note W = chunk_store_write_blocks [OF inv w]
  show "chunk_store_lookup (Some s') off' = (if off' = off then Some b else chunk_store_lookup (Some s) off')"
  proof (cases "off' = off")
    case True
    then show ?thesis using W(1,3) b by (simp add: lookup_Some_store)
  next
    case False
    then have "unat off' \<noteq> unat off" by (metis word_unat_eq_iff)
    then show ?thesis using W(2,3) False by (cases "unat off' < cs_nblocks s") (auto simp: lookup_Some_store)
  qed
qed

section \<open>Properties\<close>

text \<open>
  C24. Read your writes: after any sequence of successful \<^verbatim>\<open>chunk_store_write\<close> calls with
  non-empty blocks, on a store that satisfies the invariant, \<^verbatim>\<open>chunk_store_lookup\<close> at
  every offset returns the last block written there, or what it returned before when the sequence
  did not write there; growth of the array loses nothing.
\<close>

theorem chunk_store_read_your_writes:
  assumes "cs_inv cs" "list_all (\<lambda>w. wf_block (snd w) \<and> cb_state (snd w) \<noteq> CHUNK_STATE_EMPTY) ws"
    and "write_all (chunk_store_write mem) ws cs = Inr cs'"
  shows "chunk_store_lookup (Some cs') off =
    (case map_of (rev ws) off of None \<Rightarrow> chunk_store_lookup (Some cs) off | Some b \<Rightarrow> Some b)"
  using cm.write_all_lookup [OF assms(1) _ assms(3)] assms(2) by (simp add: list_all_iff)

theorem chunk_store_read_your_writes_witness:
  "\<exists>cs'. write_all (chunk_store_write all_allocs) [(2, zero_block\<lparr>cb_state := CHUNK_STATE_PENDING\<rparr>)] fresh_store = Inr cs' \<and>
     chunk_store_lookup (Some cs') 2 =
       (case map_of (rev [(2, zero_block\<lparr>cb_state := CHUNK_STATE_PENDING\<rparr>)]) 2 of
          None \<Rightarrow> chunk_store_lookup (Some fresh_store) 2 | Some b \<Rightarrow> Some b)"
proof -
  let ?b = "zero_block\<lparr>cb_state := CHUNK_STATE_PENDING\<rparr>"
  obtain cs' where "write_all (chunk_store_write all_allocs) [(2, ?b)] fresh_store = Inr cs'"
    by (simp add: chunk_store_write_def chunk_store_reserve_def fresh_store_def cs_consts)
  then show ?thesis
    using chunk_store_read_your_writes [of fresh_store "[(2, ?b)]" all_allocs cs' 2]
    by (simp add: wf_block_def zero_block_def)
qed

text \<open>
  \<^verbatim>\<open>chunk_store_transition\<close> succeeds only by moving one block: there is a block of the
  owner triple inside the requested range in the expected state, exactly that block gets the new
  state, and no other field and no other block changes.
\<close>

theorem chunk_store_transition_one_block:
  assumes "chunk_store_transition cs offset cnt cohort client owner s t = Inr cs'"
  shows "\<exists>off j. j < unat cnt \<and> off = unat (offset + of_nat j) \<and> off < cs_nblocks cs
     \<and> owned_by cohort client owner (cs_blocks cs ! off) \<and> cb_state (cs_blocks cs ! off) = s
     \<and> cs' = cs\<lparr>cs_blocks := (cs_blocks cs)[off := (cs_blocks cs ! off)\<lparr>cb_state := t\<rparr>], cs_dirty := True\<rparr>"
  using assms by (rule chunk_store_transition_Inr) (auto simp: set_block_state_def)

theorem chunk_store_transition_one_block_witness:
  "\<exists>off j. j < unat (1 :: u32) \<and> off = unat (0 + of_nat j :: u64) \<and> off < 1
     \<and> owned_by 0 0 0 ([zero_block\<lparr>cb_state := CHUNK_STATE_PENDING\<rparr>] ! off)
     \<and> cb_state ([zero_block\<lparr>cb_state := CHUNK_STATE_PENDING\<rparr>] ! off) = CHUNK_STATE_PENDING"
  using chunk_store_transition_one_block
    [of "fresh_store\<lparr>cs_blocks := [zero_block\<lparr>cb_state := CHUNK_STATE_PENDING\<rparr>], cs_nblocks := 1\<rparr>" 0 1 0 0 0
        CHUNK_STATE_PENDING CHUNK_STATE_FINALIZED
        "set_block_state (fresh_store\<lparr>cs_blocks := [zero_block\<lparr>cb_state := CHUNK_STATE_PENDING\<rparr>], cs_nblocks := 1\<rparr>)
           0 CHUNK_STATE_FINALIZED"]
  by (simp add: chunk_store_transition_def zero_block_def)





text \<open>
  \<^verbatim>\<open>chunk_store_count_runs\<close> returns the number of maximal runs of occupied blocks:
  the number of occupied offsets whose predecessor is not occupied.
\<close>

theorem chunk_store_count_runs_correct:
  assumes "cs_inv cs"
  shows "chunk_store_count_runs (Some cs) = card (run_starts (cs_blocks cs))"
proof (cases "cs_nblocks cs = 0")
  case True
  then have "cs_blocks cs = []" using assms by (simp add: cs_inv_def)
  then show ?thesis using True by (simp add: chunk_store_count_runs_def run_starts_def occupied_def)
qed (simp add: chunk_store_count_runs_def count_runs_fold)

theorem chunk_store_count_runs_correct_witness:
  "chunk_store_count_runs (Some fresh_store) = card (run_starts (cs_blocks fresh_store))"
  by (rule chunk_store_count_runs_correct) simp

text \<open>
  C35. After a successful \<^verbatim>\<open>chunk_store_refresh_escrows\<close>, \<^verbatim>\<open>chunk_store_has_escrow\<close>
  answers true exactly for the ranges that some escrowed block below the high-water mark carries;
  the index has no duplicates and at most 4096 entries.
\<close>

theorem chunk_store_escrow_index:
  assumes "chunk_store_refresh_escrows mem cs = Inr cs'" "cs_inv cs"
  shows "distinct (cs_escrows cs') \<and> length (cs_escrows cs') \<le> CHUNK_STORE_MAX_ESCROWS \<and>
    (chunk_store_has_escrow (Some cs') offset cnt eid \<longleftrightarrow>
      (\<exists>i < cs_high_water cs. escrowed (cs_blocks cs ! i) \<and> cb_lock_offset (cs_blocks cs ! i) = offset
        \<and> cb_lock_count (cs_blocks cs ! i) = cnt \<and> cb_lock_escrow_id (cs_blocks cs ! i) = eid))"
proof -
  let ?bs = "take (cs_high_water cs) (cs_blocks cs)"
  obtain cap where scan: "refresh_scan mem ?bs [] 0 = Inr (cs_escrows cs', cap)"
    using assms(1) by (auto simp: chunk_store_refresh_escrows_def split: sum.splits)
  have R: "distinct (cs_escrows cs')" "length (cs_escrows cs') \<le> CHUNK_STORE_MAX_ESCROWS"
    "set (cs_escrows cs') = range_of ` {b \<in> set ?bs. escrowed b}"
    "\<And>b. b \<in> set ?bs \<Longrightarrow> escrowed b \<Longrightarrow> escrow_range_valid (cb_lock_offset b) (cb_lock_count b) (cb_lock_escrow_id b)"
    using refresh_scan_Inr [OF scan] by auto
  have hw: "cs_high_water cs \<le> length (cs_blocks cs)" using assms(2) by (simp add: cs_inv_def)
  have mem: "b \<in> set ?bs \<longleftrightarrow> (\<exists>i < cs_high_water cs. b = cs_blocks cs ! i)" for b
    using hw by (auto simp: in_set_conv_nth)
  have "chunk_store_has_escrow (Some cs') offset cnt eid \<longleftrightarrow>
      (\<exists>b \<in> set ?bs. escrowed b \<and> cb_lock_offset b = offset \<and> cb_lock_count b = cnt \<and> cb_lock_escrow_id b = eid)"
    using R(4) by (auto simp: chunk_store_has_escrow_def list_ex_iff R(3) escrow_range_equal_def range_of_def)
  then show ?thesis using R(1,2) mem by metis
qed

theorem chunk_store_escrow_index_witness:
  "\<exists>cs'. chunk_store_refresh_escrows all_allocs
      (fresh_store\<lparr>cs_blocks := (cs_blocks fresh_store)[0 := zero_block\<lparr>cb_flags := 8, cb_lock_count := 1, cb_lock_escrow_id := replicate 16 5\<rparr>],
                   cs_high_water := 1\<rparr>) = Inr cs' \<and> chunk_store_has_escrow (Some cs') 0 1 (replicate 16 5)"
proof -
  let ?b = "zero_block\<lparr>cb_flags := 8, cb_lock_count := 1, cb_lock_escrow_id := replicate 16 5\<rparr>"
  let ?cs = "fresh_store\<lparr>cs_blocks := (cs_blocks fresh_store)[0 := ?b], cs_high_water := 1\<rparr>"
  have inv: "cs_inv ?cs"
    by (auto simp: cs_inv_def fresh_store_def cs_consts nth_list_update wf_block_def zero_block_def)
  have b0: "cs_blocks ?cs ! 0 = ?b" by (simp add: fresh_store_def cs_consts)
  have "take (cs_high_water ?cs) (cs_blocks ?cs) = [?b]" by (simp add: fresh_store_def cs_consts take_Suc_conv_app_nth)
  moreover have "escrow_range_valid 0 1 (replicate 16 5)"
    by (simp add: escrow_range_valid_def escrow_id_is_zero_def CHUNK_LOCK_ESCROW_ID_SIZE_def)
  ultimately obtain cs' where r: "chunk_store_refresh_escrows all_allocs ?cs = Inr cs'"
    by (simp add: chunk_store_refresh_escrows_def CHUNK_BLOCK_ESCROW_def CHUNK_STORE_MAX_ESCROWS_def zero_block_def)
  have "chunk_store_has_escrow (Some cs') 0 1 (replicate 16 5)"
    using chunk_store_escrow_index [OF r inv, of 0 1 "replicate 16 5"] b0
    by (simp add: escrowed_def CHUNK_BLOCK_ESCROW_def zero_block_def)
  with r show ?thesis by blast
qed

end
