(* ===== verification/ChunkPersist.thy ===== *)
theory ChunkPersist
  imports ChunkStore
begin

text \<open>
  Persistence of the chunk store and of the metadata-server epoch
  (\<^verbatim>\<open>src/lib/nfs4/server/chunk_store.c\<close>). A file is the sequence of the fixed-size records
  that the code writes one by one; a save is a sequence of file-system operations, so that a crash
  is a prefix of it. An oracle gives the errno of every system call that fails. The theory proves
  that a save replaces the file atomically on every failure and at every crash point, and that
  loading restores what was saved.
\<close>

section \<open>Files and system calls\<close>

datatype disk_rec = RHdr chunk_store_header | RBlk chunk_block_disk | REsc chunk_escrow_range_disk
  | REpoch u32 u32 u64 u64 u64

type_synonym path = string
type_synonym fs = "path \<Rightarrow> disk_rec list option"

text \<open>\<open>io call i\<close> is the errno with which the \<open>i\<close>-th such call fails, if it does.\<close>

type_synonym io_fail = "string \<Rightarrow> nat \<Rightarrow> errno option"

abbreviation io_ok :: io_fail where
  "io_ok \<equiv> (\<lambda>_ _. None)"

datatype fs_op = FsCreate path | FsAppend path disk_rec | FsUnlink path | FsRename path path

fun apply_op :: "fs_op \<Rightarrow> fs \<Rightarrow> fs" where
  "apply_op (FsCreate p) fs = fs(p := Some [])"
| "apply_op (FsAppend p r) fs = fs(p := map_option (\<lambda>c. c @ [r]) (fs p))"
| "apply_op (FsUnlink p) fs = fs(p := None)"
| "apply_op (FsRename p q) fs = fs(q := fs p, p := None)"

definition run_ops :: "fs_op list \<Rightarrow> fs \<Rightarrow> fs" where
  "run_ops ops fs = fold apply_op ops fs"

section \<open>Paths\<close>

function dec_str :: "nat \<Rightarrow> string" where
  "dec_str n = (if n < 10 then [char_of (48 + n)] else dec_str (n div 10) @ [char_of (48 + n mod 10)])"
  by auto
termination by (relation "measure id") auto

declare dec_str.simps [simp del]

definition chunk_meta_path :: "string \<Rightarrow> u64 \<Rightarrow> errno + path" where
  "chunk_meta_path state_dir ino =
     (let p = state_dir @ ''/chunks/'' @ dec_str (unat ino) @ ''.meta''
      in if 512 \<le> length p then Inl ENAMETOOLONG else Inr p)"

definition ensure_chunks_dir :: "io_fail \<Rightarrow> string \<Rightarrow> errno option" where
  "ensure_chunks_dir io state_dir =
     (if 512 \<le> length (state_dir @ ''/chunks'') then Some ENAMETOOLONG else io ''mkdir'' 0)"

definition chunk_mds_epoch_path :: "string option \<Rightarrow> errno + path" where
  "chunk_mds_epoch_path state_dir =
     (case state_dir of
        None \<Rightarrow> Inl EINVAL
      | Some d \<Rightarrow> let p = d @ ''/chunk_mds_epoch'' in if 512 \<le> length p then Inl ENAMETOOLONG else Inr p)"

section \<open>Saving\<close>

text \<open>The writes to the open temporary file: the first failing write ends the sequence.\<close>

fun write_records :: "io_fail \<Rightarrow> path \<Rightarrow> nat \<Rightarrow> disk_rec list \<Rightarrow> errno option \<times> fs_op list" where
  "write_records io tmp i [] = (None, [])"
| "write_records io tmp i (r # rs) =
     (case io ''write'' i of
        Some e \<Rightarrow> (Some e, [])
      | None \<Rightarrow> (case write_records io tmp (Suc i) rs of (e, ops) \<Rightarrow> (e, FsAppend tmp r # ops)))"

text \<open>
  Create the temporary file, write, sync, close, rename; every failure after the creation unlinks
  the temporary file. \<open>check_close\<close> says whether a failing \<^verbatim>\<open>close\<close> is an error, which
  only the epoch file treats so.
\<close>

definition save_file :: "io_fail \<Rightarrow> bool \<Rightarrow> path \<Rightarrow> disk_rec list \<Rightarrow> errno option \<times> fs_op list" where
  "save_file io check_close path recs =
     (let tmp = path @ ''.tmp'' in
      if 520 \<le> length tmp then (Some ENAMETOOLONG, [])
      else case io ''open'' 0 of
        Some e \<Rightarrow> (Some e, [])
      | None \<Rightarrow>
     (case write_records io tmp 0 recs of (e, ops) \<Rightarrow>
        (case e of
           Some e \<Rightarrow> (Some e, FsCreate tmp # ops @ [FsUnlink tmp])
         | None \<Rightarrow>
        (case io ''fdatasync'' 0 of
           Some e \<Rightarrow> (Some e, FsCreate tmp # ops @ [FsUnlink tmp])
         | None \<Rightarrow>
        (case (if check_close then io ''close'' 0 else None) of
           Some e \<Rightarrow> (Some e, FsCreate tmp # ops @ [FsUnlink tmp])
         | None \<Rightarrow>
        (case io ''rename'' 0 of
           Some e \<Rightarrow> (Some e, FsCreate tmp # ops @ [FsUnlink tmp])
         | None \<Rightarrow> (None, FsCreate tmp # ops @ [FsRename tmp path])))))))"

definition store_records :: "chunk_store \<Rightarrow> u64 \<Rightarrow> disk_rec list" where
  "store_records cs ino =
     RHdr \<lparr>csh_magic = CHUNK_STORE_MAGIC, csh_version = CHUNK_STORE_VERSION,
           csh_nblocks = of_nat (cs_high_water cs), csh_inode_ino = ino,
           csh_chunk_size = cs_chunk_size cs, csh_checksum_algorithm = cs_checksum_algorithm cs,
           csh_escrow_count = of_nat (length (cs_escrows cs)),
           csh_escrow_record_size = ESCROW_RECORD_SIZE\<rparr>
     # map (RBlk \<circ> block_to_disk) (take (cs_high_water cs) (cs_blocks cs))
     @ map (REsc \<circ> escrow_range_to_disk) (cs_escrows cs)"

definition chunk_store_persist ::
  "allocs \<Rightarrow> io_fail \<Rightarrow> chunk_store option \<Rightarrow> string \<Rightarrow> u64
   \<Rightarrow> errno option \<times> chunk_store option \<times> fs_op list" where
  "chunk_store_persist mem io cs0 state_dir ino =
     (case cs0 of
        None \<Rightarrow> (None, cs0, [])
      | Some cs \<Rightarrow>
      if \<not> cs_dirty cs then (None, cs0, [])
      else case chunk_store_refresh_escrows mem cs of
        Inl e \<Rightarrow> (Some e, cs0, [])
      | Inr cs \<Rightarrow>
     (case ensure_chunks_dir io state_dir of
        Some e \<Rightarrow> (Some e, Some cs, [])
      | None \<Rightarrow>
     (case chunk_meta_path state_dir ino of
        Inl e \<Rightarrow> (Some e, Some cs, [])
      | Inr path \<Rightarrow>
     (case save_file io False path (store_records cs ino) of
        (Some e, ops) \<Rightarrow> (Some e, Some cs, ops)
      | (None, ops) \<Rightarrow> (None, Some (cs\<lparr>cs_dirty := False\<rparr>), ops)))))"

section \<open>Loading\<close>

fun read_blocks :: "nat \<Rightarrow> disk_rec list \<Rightarrow> (chunk_block list \<times> disk_rec list) option" where
  "read_blocks 0 rs = Some ([], rs)"
| "read_blocks (Suc n) (RBlk d # rs) =
     (case read_blocks n rs of None \<Rightarrow> None | Some (bs, rest) \<Rightarrow> Some (disk_to_block d # bs, rest))"
| "read_blocks (Suc n) _ = None"

definition loaded_range_ok :: "u64 \<Rightarrow> chunk_escrow_range \<Rightarrow> bool" where
  "loaded_range_ok nblocks r \<longleftrightarrow> escrow_range_valid (cer_offset r) (cer_count r) (cer_id r)
     \<and> \<not> nblocks < cer_offset r \<and> \<not> nblocks - cer_offset r < ucast (cer_count r)"

fun read_escrows :: "nat \<Rightarrow> u64 \<Rightarrow> disk_rec list \<Rightarrow> chunk_escrow_range list option" where
  "read_escrows 0 nblocks rs = Some []"
| "read_escrows (Suc n) nblocks (REsc d # rs) =
     (if \<not> loaded_range_ok nblocks (escrow_range_from_disk d) then None
      else case read_escrows n nblocks rs of None \<Rightarrow> None | Some es \<Rightarrow> Some (escrow_range_from_disk d # es))"
| "read_escrows (Suc n) nblocks _ = None"

definition header_ok :: "chunk_store_header \<Rightarrow> u64 \<Rightarrow> bool" where
  "header_ok h ino \<longleftrightarrow> csh_magic h = CHUNK_STORE_MAGIC \<and> csh_version h = CHUNK_STORE_VERSION
     \<and> csh_inode_ino h = ino \<and> unat (csh_nblocks h) \<le> CHUNK_STORE_MAX_BLOCKS
     \<and> unat (csh_escrow_count h) \<le> CHUNK_STORE_MAX_ESCROWS
     \<and> csh_escrow_record_size h = ESCROW_RECORD_SIZE"

definition chunk_store_load :: "allocs \<Rightarrow> fs \<Rightarrow> string \<Rightarrow> u64 \<Rightarrow> chunk_store option" where
  "chunk_store_load mem fs state_dir ino =
     (case chunk_meta_path state_dir ino of
        Inl _ \<Rightarrow> None
      | Inr path \<Rightarrow>
     (case fs path of
        Some (RHdr hdr # rs) \<Rightarrow>
          if \<not> header_ok hdr ino then None
          else let nblocks = unat (csh_nblocks hdr); alloc = max nblocks CHUNK_STORE_INIT_BLOCKS;
                   nescrows = unat (csh_escrow_count hdr)
          in if \<not> mem ''cs'' then None
          else if \<not> mem ''cs_blocks'' then None
          else if nescrows \<noteq> 0 \<and> \<not> mem ''cs_escrows'' then None
          else (case read_blocks nblocks rs of
              None \<Rightarrow> None
            | Some (bs, rs) \<Rightarrow>
           (case read_escrows nescrows (csh_nblocks hdr) rs of
              None \<Rightarrow> None
            | Some es \<Rightarrow> Some \<lparr>cs_blocks = bs @ replicate (alloc - nblocks) zero_block,
                 cs_nblocks = alloc, cs_high_water = nblocks, cs_chunk_size = csh_chunk_size hdr,
                 cs_checksum_algorithm = csh_checksum_algorithm hdr, cs_escrows = es,
                 cs_escrow_cap = nescrows, cs_dirty = False\<rparr>))
      | _ \<Rightarrow> None))"

text \<open>
  \<^verbatim>\<open>chunk_store_get\<close>: the argument is the inode's store pointer; the result is the store to
  use, which is also the inode's pointer from then on.
\<close>

definition chunk_store_get ::
  "allocs \<Rightarrow> fs \<Rightarrow> chunk_store option \<Rightarrow> string option \<Rightarrow> u64 \<Rightarrow> chunk_store option" where
  "chunk_store_get mem fs i_chunk_store state_dir ino =
     (case i_chunk_store of
        Some cs \<Rightarrow> Some cs
      | None \<Rightarrow>
     (case (case state_dir of None \<Rightarrow> None | Some d \<Rightarrow> chunk_store_load mem fs d ino) of
        Some cs \<Rightarrow> Some cs
      | None \<Rightarrow>
        if \<not> mem ''get.cs'' then None
        else if \<not> mem ''get.cs_blocks'' then None
        else Some fresh_store))"

section \<open>The metadata-server epoch\<close>

record chunk_mds_epoch =
  epoch :: u64
  expires_at_ns :: u64
  issuer_clientid :: u64

definition CHUNK_MDS_EPOCH_MAGIC :: u32 where "CHUNK_MDS_EPOCH_MAGIC = 0x43455048"
definition CHUNK_MDS_EPOCH_VERSION :: u32 where "CHUNK_MDS_EPOCH_VERSION = 1"

definition chunk_mds_epoch_persist ::
  "io_fail \<Rightarrow> string option \<Rightarrow> chunk_mds_epoch option \<Rightarrow> errno option \<times> fs_op list" where
  "chunk_mds_epoch_persist io state_dir ep =
     (case ep of
        None \<Rightarrow> (Some EINVAL, [])
      | Some ep \<Rightarrow>
     (case chunk_mds_epoch_path state_dir of
        Inl _ \<Rightarrow> (Some EINVAL, [])
      | Inr path \<Rightarrow> save_file io True path
          [REpoch CHUNK_MDS_EPOCH_MAGIC CHUNK_MDS_EPOCH_VERSION (epoch ep) (expires_at_ns ep) (issuer_clientid ep)]))"

text \<open>A missing file is reported with the errno of \<^verbatim>\<open>open\<close>, here -ENOENT.\<close>

definition chunk_mds_epoch_load :: "fs \<Rightarrow> string option \<Rightarrow> errno + chunk_mds_epoch" where
  "chunk_mds_epoch_load fs state_dir =
     (case chunk_mds_epoch_path state_dir of
        Inl _ \<Rightarrow> Inl EINVAL
      | Inr path \<Rightarrow>
     (case fs path of
        None \<Rightarrow> Inl ENOENT
      | Some (REpoch mg ver e x c # _) \<Rightarrow>
          if mg \<noteq> CHUNK_MDS_EPOCH_MAGIC \<or> ver \<noteq> CHUNK_MDS_EPOCH_VERSION then Inl EINVAL
          else Inr \<lparr>epoch = e, expires_at_ns = x, issuer_clientid = c\<rparr>
      | Some _ \<Rightarrow> Inl EINVAL))"

section \<open>A save replaces the file atomically\<close>

lemma write_records_ops:
  "write_records io tmp i recs = (e, ops) \<Longrightarrow>
     \<exists>n. n \<le> length recs \<and> ops = map (FsAppend tmp) (take n recs) \<and> (e = None \<longrightarrow> n = length recs)"
proof (induction recs arbitrary: i e ops)
  case (Cons r rs)
  show ?case
  proof (cases "io ''write'' i")
    case None
    obtain e' ops' where w: "write_records io tmp (Suc i) rs = (e', ops')" by fastforce
    from Cons.IH [OF w] obtain n where n: "n \<le> length rs" "ops' = map (FsAppend tmp) (take n rs)"
      "e' = None \<longrightarrow> n = length rs" by blast
    then show ?thesis using Cons.prems None w by (intro exI [of _ "Suc n"]) auto
  next
    case (Some a)
    then show ?thesis using Cons.prems [symmetric] by (intro exI [of _ 0]) simp
  qed
qed simp

lemma run_ops_append: "run_ops (a @ b) fs = run_ops b (run_ops a fs)"
  by (simp add: run_ops_def)

lemma run_appends:
  "fs tmp = Some c \<Longrightarrow> run_ops (map (FsAppend tmp) rs) fs = fs(tmp := Some (c @ rs))"
proof (induction rs arbitrary: fs c)
  case (Cons r rs)
  then show ?case by (auto simp: run_ops_def fun_eq_iff)
qed (simp add: run_ops_def fun_upd_idem)

lemma run_create_appends:
  "run_ops (FsCreate tmp # map (FsAppend tmp) rs) fs = fs(tmp := Some rs)"
  using run_appends [of "fs(tmp := Some [])" tmp "[]" rs] by (simp add: run_ops_def)

text \<open>All operation lists of a save, with the outcome.\<close>

lemma save_file_ops:
  assumes "save_file io cc path recs = (e, ops)"
  obtains (none) "ops = []" "e \<noteq> None"
    | (failed) n where "n \<le> length recs" "e \<noteq> None"
        "ops = FsCreate (path @ ''.tmp'') # map (FsAppend (path @ ''.tmp'')) (take n recs) @ [FsUnlink (path @ ''.tmp'')]"
    | (renamed) "e = None"
        "ops = FsCreate (path @ ''.tmp'') # map (FsAppend (path @ ''.tmp'')) recs @ [FsRename (path @ ''.tmp'') path]"
proof -
  obtain e1 ops1 where w: "write_records io (path @ ''.tmp'') 0 recs = (e1, ops1)" by fastforce
  from write_records_ops [OF w] obtain n where n: "n \<le> length recs"
    "ops1 = map (FsAppend (path @ ''.tmp'')) (take n recs)" "e1 = None \<longrightarrow> n = length recs" by blast
  show ?thesis
  proof (cases "520 \<le> length (path @ ''.tmp'') \<or> io ''open'' 0 \<noteq> None")
    case True
    then show ?thesis using assms [symmetric] none by (auto simp: save_file_def Let_def split: if_splits)
  next
    case False
    then have s: "(e, ops) = (case e1 of
           Some e \<Rightarrow> (Some e, FsCreate (path @ ''.tmp'') # ops1 @ [FsUnlink (path @ ''.tmp'')])
         | None \<Rightarrow> (case io ''fdatasync'' 0 of
           Some e \<Rightarrow> (Some e, FsCreate (path @ ''.tmp'') # ops1 @ [FsUnlink (path @ ''.tmp'')])
         | None \<Rightarrow> (case (if cc then io ''close'' 0 else None) of
           Some e \<Rightarrow> (Some e, FsCreate (path @ ''.tmp'') # ops1 @ [FsUnlink (path @ ''.tmp'')])
         | None \<Rightarrow> (case io ''rename'' 0 of
           Some e \<Rightarrow> (Some e, FsCreate (path @ ''.tmp'') # ops1 @ [FsUnlink (path @ ''.tmp'')])
         | None \<Rightarrow> (None, FsCreate (path @ ''.tmp'') # ops1 @ [FsRename (path @ ''.tmp'') path])))))"
      using assms [symmetric] w by (simp add: save_file_def Let_def)
    show ?thesis
    proof (cases e)
      case None
      then show ?thesis using s n renamed by (auto split: option.splits)
    next
      case (Some x)
      then have "ops = FsCreate (path @ ''.tmp'') # ops1 @ [FsUnlink (path @ ''.tmp'')]"
        using s by (auto split: option.splits)
      then show ?thesis using failed [OF n(1)] Some n(2) by simp
    qed
  qed
qed

fun touches :: "fs_op \<Rightarrow> path set" where
  "touches (FsCreate p) = {p}"
| "touches (FsAppend p r) = {p}"
| "touches (FsUnlink p) = {p}"
| "touches (FsRename p q) = {p, q}"

lemma run_ops_untouched:
  "(\<And>x. x \<in> set ops \<Longrightarrow> q \<notin> touches x) \<Longrightarrow> run_ops ops fs q = fs q"
proof (induction ops arbitrary: fs)
  case (Cons x ops)
  have "apply_op x fs q = fs q" using Cons.prems [of x] by (cases x) auto
  then show ?case using Cons by (simp add: run_ops_def)
qed (simp add: run_ops_def)

lemma tmp_ne: "path @ ''.tmp'' \<noteq> path"
  by simp

lemma save_file_atomic:
  assumes s: "save_file io cc path recs = (e, ops)"
  shows "run_ops (take k ops) fs path = fs path \<or> e = None \<and> run_ops (take k ops) fs path = Some recs"
    and "q \<noteq> path \<Longrightarrow> q \<noteq> path @ ''.tmp'' \<Longrightarrow> run_ops (take k ops) fs q = fs q"
    and "run_ops ops fs path = (if e = None then Some recs else fs path)"
proof -
  let ?tmp = "path @ ''.tmp''"
  have pre: "set (take k (FsCreate ?tmp # map (FsAppend ?tmp) rs)) \<subseteq> insert (FsCreate ?tmp) (FsAppend ?tmp ` UNIV)" for k rs
    using set_take_subset [of k "FsCreate ?tmp # map (FsAppend ?tmp) rs"] by auto
  show "q \<noteq> path \<Longrightarrow> q \<noteq> ?tmp \<Longrightarrow> run_ops (take k ops) fs q = fs q"
    by (rule run_ops_untouched, drule in_set_takeD) (use s in \<open>cases rule: save_file_ops, auto\<close>)
  show fin: "run_ops ops fs path = (if e = None then Some recs else fs path)"
    using s
  proof (cases rule: save_file_ops)
    case (failed n)
    have "run_ops ops fs path = fs path"
      by (rule run_ops_untouched) (use failed(3) tmp_ne in auto)
    then show ?thesis using failed(2) by (simp only: if_False)
  next
    case renamed
    then show ?thesis
      using run_create_appends [of ?tmp recs fs] run_ops_append [of "FsCreate ?tmp # map (FsAppend ?tmp) recs"]
      by (simp add: run_ops_def)
  qed (auto simp: run_ops_def)
  show "run_ops (take k ops) fs path = fs path \<or> e = None \<and> run_ops (take k ops) fs path = Some recs"
  proof (cases "k < length ops")
    case False
    then show ?thesis using fin by (cases e) auto
  next
    case True
    have "path \<notin> touches x" if "x \<in> set (take k ops)" for x
      using s
    proof (cases rule: save_file_ops)
      case none
      then show ?thesis using that by simp
    next
      case (failed n)
      then show ?thesis using in_set_takeD [OF that] tmp_ne by auto
    next
      case renamed
      then have "x \<in> set (take k (FsCreate ?tmp # map (FsAppend ?tmp) recs))"
        using that True by (cases k) auto
      then show ?thesis using pre [of k recs] tmp_ne by auto
    qed
    then show ?thesis using run_ops_untouched by blast
  qed
qed

section \<open>Loading restores what was saved\<close>

lemma state_roundtrip:
  "(\<And>n. s = CHUNK_STATE_OTHER n \<Longrightarrow> 3 < n) \<Longrightarrow> state_of_u32 (state_to_u32 s) = s"
  by (cases s) (auto simp: state_of_u32_def state_to_u32_def)

lemma block_roundtrip: "wf_block b \<Longrightarrow> disk_to_block (block_to_disk b) = b"
  by (cases b) (auto simp: disk_to_block_def block_to_disk_def wf_block_def state_roundtrip)

lemma escrow_roundtrip: "escrow_range_from_disk (escrow_range_to_disk r) = r"
  by (cases r) (simp add: escrow_range_from_disk_def escrow_range_to_disk_def)

lemma wf_disk_to_block: "wf_block (disk_to_block d)"
proof -
  have "(3 :: u32) < n" if "n \<noteq> 0" "n \<noteq> 1" "n \<noteq> 2" "n \<noteq> 3" for n
  proof -
    have "unat n \<noteq> 0" "unat n \<noteq> 1" "unat n \<noteq> 2" "unat n \<noteq> 3"
      using that by (auto simp: word_unat_eq_iff)
    then show ?thesis by (simp add: word_less_nat_alt)
  qed
  then show ?thesis
    by (auto simp: wf_block_def disk_to_block_def state_of_u32_def not_less split: if_splits)
qed

lemma read_blocks_saved:
  "list_all wf_block bs \<Longrightarrow> read_blocks (length bs) (map (RBlk \<circ> block_to_disk) bs @ rs) = Some (bs, rs)"
  by (induction bs) (auto simp: block_roundtrip)

lemma read_escrows_saved:
  "list_all (loaded_range_ok n) es \<Longrightarrow> read_escrows (length es) n (map (REsc \<circ> escrow_range_to_disk) es) = Some es"
  by (induction es) (auto simp: escrow_roundtrip)

lemma read_blocks_length:
  "read_blocks n rs = Some (bs, rest) \<Longrightarrow> length bs = n \<and> list_all wf_block bs"
proof (induction n rs arbitrary: bs rest rule: read_blocks.induct)
  case (2 n d rs)
  then show ?case by (auto simp: wf_disk_to_block split: option.splits)
qed auto

lemma chunk_store_persist_None:
  assumes "chunk_store_persist mem io (Some cs) dir ino = (None, cs1, ops)" "cs_dirty cs"
  obtains cs' path where "chunk_store_refresh_escrows mem cs = Inr cs'" "chunk_meta_path dir ino = Inr path"
    "save_file io False path (store_records cs' ino) = (None, ops)" "cs1 = Some (cs'\<lparr>cs_dirty := False\<rparr>)"
  using assms by (auto simp: chunk_store_persist_def split: sum.splits option.splits prod.splits)

lemma refresh_keeps:
  assumes "chunk_store_refresh_escrows mem cs = Inr cs'"
  shows "cs_blocks cs' = cs_blocks cs" "cs_high_water cs' = cs_high_water cs" "cs_nblocks cs' = cs_nblocks cs"
    "cs_chunk_size cs' = cs_chunk_size cs" "cs_checksum_algorithm cs' = cs_checksum_algorithm cs"
    "\<exists>cap. refresh_scan mem (take (cs_high_water cs) (cs_blocks cs)) [] 0 = Inr (cs_escrows cs', cap)"
  using assms by (auto simp: chunk_store_refresh_escrows_def split: sum.splits)

text \<open>Every escrowed range lies inside the part of the file that is saved.\<close>

definition escrows_in_range :: "chunk_store \<Rightarrow> bool" where
  "escrows_in_range cs \<longleftrightarrow> (\<forall>i < cs_high_water cs. escrowed (cs_blocks cs ! i) \<longrightarrow>
     unat (cb_lock_offset (cs_blocks cs ! i)) + unat (cb_lock_count (cs_blocks cs ! i)) \<le> cs_high_water cs)"

lemma refreshed_ranges_ok:
  assumes r: "chunk_store_refresh_escrows mem cs = Inr cs'" and inv: "cs_inv cs" and e: "escrows_in_range cs"
  shows "list_all (loaded_range_ok (of_nat (cs_high_water cs))) (cs_escrows cs')"
proof -
  let ?bs = "take (cs_high_water cs) (cs_blocks cs)" and ?hw = "cs_high_water cs"
  have hw: "?hw \<le> length (cs_blocks cs)" "?hw < 2 ^ 64" using inv by (auto simp: cs_inv_def cs_consts)
  obtain cap where scan: "refresh_scan mem ?bs [] 0 = Inr (cs_escrows cs', cap)"
    using refresh_keeps(6) [OF r] by blast
  have R: "set (cs_escrows cs') = range_of ` {b \<in> set ?bs. escrowed b}"
    "\<And>b. b \<in> set ?bs \<Longrightarrow> escrowed b \<Longrightarrow> escrow_range_valid (cb_lock_offset b) (cb_lock_count b) (cb_lock_escrow_id b)"
    using refresh_scan_Inr [OF scan] by auto
  have "loaded_range_ok (of_nat ?hw) (range_of b)" if b: "b \<in> set ?bs" "escrowed b" for b
  proof -
    obtain i where "i < ?hw" "b = cs_blocks cs ! i" using b(1) hw by (auto simp: in_set_conv_nth)
    then have le: "unat (cb_lock_offset b) + unat (cb_lock_count b) \<le> ?hw"
      using e b(2) by (auto simp: escrows_in_range_def)
    have o: "cb_lock_offset b \<le> of_nat ?hw" using le hw(2) by (simp add: word_le_nat_alt unat_u64_of_nat)
    then have "unat (of_nat ?hw - cb_lock_offset b) = ?hw - unat (cb_lock_offset b)"
      using hw(2) by (simp add: unat_sub unat_u64_of_nat)
    then have "(ucast (cb_lock_count b) :: u64) \<le> of_nat ?hw - cb_lock_offset b"
      using le by (simp add: word_le_nat_alt unat_ucast_u32_u64)
    then show ?thesis using R(2) [OF b] o by (simp add: loaded_range_ok_def range_of_def not_less)
  qed
  then show ?thesis by (auto simp: list_all_iff R(1))
qed

lemma load_saved:
  assumes path: "chunk_meta_path dir ino = Inr path" and fs: "fs path = Some (store_records cs ino)"
    and inv: "cs_inv cs" and hw: "cs_high_water cs \<le> CHUNK_STORE_MAX_BLOCKS"
    and es: "length (cs_escrows cs) \<le> CHUNK_STORE_MAX_ESCROWS"
      "list_all (loaded_range_ok (of_nat (cs_high_water cs))) (cs_escrows cs)"
  shows "chunk_store_load all_allocs fs dir ino = Some
    \<lparr>cs_blocks = take (cs_high_water cs) (cs_blocks cs)
       @ replicate (max (cs_high_water cs) CHUNK_STORE_INIT_BLOCKS - cs_high_water cs) zero_block,
     cs_nblocks = max (cs_high_water cs) CHUNK_STORE_INIT_BLOCKS, cs_high_water = cs_high_water cs,
     cs_chunk_size = cs_chunk_size cs, cs_checksum_algorithm = cs_checksum_algorithm cs,
     cs_escrows = cs_escrows cs, cs_escrow_cap = length (cs_escrows cs), cs_dirty = False\<rparr>"
proof -
  let ?bs = "take (cs_high_water cs) (cs_blocks cs)"
  have lb: "length ?bs = cs_high_water cs" using inv by (simp add: cs_inv_def)
  have wf: "list_all wf_block ?bs" using inv by (auto simp: list_all_length cs_inv_def)
  have u: "unat (of_nat (cs_high_water cs) :: u64) = cs_high_water cs"
    "unat (of_nat (length (cs_escrows cs)) :: u32) = length (cs_escrows cs)"
    using hw es(1) by (auto simp: unat_of_nat cs_consts)
  have rb: "read_blocks (cs_high_water cs) (map (RBlk \<circ> block_to_disk) ?bs @ rs) = Some (?bs, rs)" for rs
    using read_blocks_saved [OF wf] lb by metis
  show ?thesis
    using read_escrows_saved [OF es(2)] hw es(1)
    by (simp add: chunk_store_load_def path fs store_records_def header_ok_def u rb Let_def)
qed

section \<open>Reachable stores\<close>

text \<open>
  The stores an inode can have: created or loaded from any file, then changed by the operations.
  Handlers pass well-formed blocks to a write and one of the named states to a transition.
\<close>

inductive cs_reach :: "chunk_store \<Rightarrow> bool" where
  cs_get: "chunk_store_get mem fs None dir ino = Some cs \<Longrightarrow> cs_reach cs"
| cs_write: "cs_reach cs \<Longrightarrow> wf_block blk \<Longrightarrow> chunk_store_write mem cs off blk = Inr cs' \<Longrightarrow> cs_reach cs'"
| cs_touch: "cs_reach cs \<Longrightarrow> chunk_store_touch mem cs off = Inr cs' \<Longrightarrow> cs_reach cs'"
| cs_transition: "cs_reach cs \<Longrightarrow> t \<in> {CHUNK_STATE_EMPTY, CHUNK_STATE_PENDING, CHUNK_STATE_FINALIZED, CHUNK_STATE_COMMITTED} \<Longrightarrow>
    chunk_store_transition cs off cnt coh cl ow s t = Inr cs' \<Longrightarrow> cs_reach cs'"
| cs_rollback: "cs_reach cs \<Longrightarrow> chunk_store_rollback cs off cnt coh cl ow = Inr cs' \<Longrightarrow> cs_reach cs'"
| cs_expire: "cs_reach cs \<Longrightarrow> cs_reach (snd (chunk_store_rollback_for_client cs w))"
| cs_clear: "cs_reach cs \<Longrightarrow> cs_reach (chunk_store_clear cs)"
| cs_refresh: "cs_reach cs \<Longrightarrow> chunk_store_refresh_escrows mem cs = Inr cs' \<Longrightarrow> cs_reach cs'"
| cs_persist: "cs_reach cs \<Longrightarrow> chunk_store_persist mem io (Some cs) d ino = (e, Some cs', ops) \<Longrightarrow> cs_reach cs'"

lemma chunk_store_load_inv:
  assumes "chunk_store_load mem fs dir ino = Some cs"
  shows "cs_inv cs"
proof -
  obtain hdr bs rs rs' es where h: "header_ok hdr ino"
    and rb: "read_blocks (unat (csh_nblocks hdr)) rs = Some (bs, rs')"
    and cs: "cs = \<lparr>cs_blocks = bs @ replicate (max (unat (csh_nblocks hdr)) CHUNK_STORE_INIT_BLOCKS - unat (csh_nblocks hdr)) zero_block,
                 cs_nblocks = max (unat (csh_nblocks hdr)) CHUNK_STORE_INIT_BLOCKS,
                 cs_high_water = unat (csh_nblocks hdr), cs_chunk_size = csh_chunk_size hdr,
                 cs_checksum_algorithm = csh_checksum_algorithm hdr, cs_escrows = es,
                 cs_escrow_cap = unat (csh_escrow_count hdr), cs_dirty = False\<rparr>"
    using assms by (auto simp: chunk_store_load_def Let_def split: sum.splits option.splits list.splits
        disk_rec.splits if_splits prod.splits)
  have bs: "length bs = unat (csh_nblocks hdr)" "list_all wf_block bs" using read_blocks_length [OF rb] by auto
  show ?thesis using h bs unfolding cs
    by (auto simp: cs_inv_def header_ok_def cs_consts nth_append list_all_length)
qed

lemma chunk_store_get_inv: "chunk_store_get mem fs None dir ino = Some cs \<Longrightarrow> cs_inv cs"
  by (auto simp: chunk_store_get_def split: option.splits if_splits dest: chunk_store_load_inv)

lemma chunk_store_persist_inv:
  assumes "cs_inv cs" "chunk_store_persist mem io (Some cs) d ino = (e, Some cs', ops)"
  shows "cs_inv cs'"
proof -
  have D: "cs_inv (c\<lparr>cs_dirty := b\<rparr>) = cs_inv c" for c b by (simp add: cs_inv_def)
  show ?thesis using assms
    by (auto simp: chunk_store_persist_def D split: sum.splits option.splits prod.splits if_splits
        dest: chunk_store_refresh_escrows_inv)
qed

lemma cs_reach_inv: "cs_reach cs \<Longrightarrow> cs_inv cs"
proof (induction rule: cs_reach.induct)
  case (cs_transition cs t off cnt coh cl ow s cs')
  from cs_transition.hyps(3) show ?case
    by (rule chunk_store_transition_Inr)
      (use cs_transition in \<open>auto simp: owned_by_def intro!: set_block_state_inv\<close>)
next
  case (cs_rollback cs off cnt coh cl ow cs')
  from cs_rollback.hyps(2) show ?case
    by (rule chunk_store_rollback_Inr)
      (use cs_rollback in \<open>auto simp: owned_by_def intro!: set_block_state_inv\<close>)
qed (auto intro: chunk_store_get_inv chunk_store_write_inv chunk_store_touch_inv chunk_store_clear_inv
    chunk_store_rollback_for_client_inv chunk_store_refresh_escrows_inv chunk_store_persist_inv)

lemma refresh_scan_no_escrow:
  "\<forall>b \<in> set blks. \<not> escrowed b \<Longrightarrow> refresh_scan mem blks ranges cap = Inr (ranges, cap)"
  by (induction blks) (auto simp: escrowed_def)

lemma write_records_io_ok: "write_records io_ok tmp i recs = (None, map (FsAppend tmp) recs)"
  by (induction recs arbitrary: i) auto

lemma persist_io_ok:
  assumes "cs_dirty cs" "\<forall>b \<in> set (cs_blocks cs). \<not> escrowed b"
  shows "\<exists>cs1 ops. chunk_store_persist all_allocs io_ok (Some cs) ''/state'' 7 = (None, Some cs1, ops)"
proof -
  have "chunk_store_refresh_escrows all_allocs cs = Inr (cs\<lparr>cs_escrows := [], cs_escrow_cap := 0\<rparr>)"
    unfolding chunk_store_refresh_escrows_def using assms(2)
    by (subst refresh_scan_no_escrow) (auto dest: in_set_takeD)
  moreover obtain p where "chunk_meta_path ''/state'' 7 = Inr p" "length p < 512"
    by (simp add: chunk_meta_path_def dec_str.simps Let_def)
  ultimately show ?thesis using assms(1)
    by (simp add: chunk_store_persist_def ensure_chunks_dir_def save_file_def write_records_io_ok Let_def)
qed

text \<open>What loading finds after a save; above the high-water mark it finds nothing but empty blocks.\<close>

lemma persist_reload:
  assumes "cs_inv cs" "cs_dirty cs" "cs_high_water cs \<le> CHUNK_STORE_MAX_BLOCKS" "escrows_in_range cs"
    and "chunk_store_persist mem io (Some cs) dir ino = (None, Some cs1, ops)"
  shows "\<exists>cs2. chunk_store_load all_allocs (run_ops ops fs) dir ino = Some cs2 \<and>
    (\<forall>off. chunk_store_lookup (Some cs2) off = chunk_store_lookup (Some cs) off) \<and>
    (\<forall>off. unat off < cs_high_water cs \<longrightarrow>
       chunk_store_lookup_any (Some cs2) off = chunk_store_lookup_any (Some cs) off) \<and>
    cs_high_water cs2 = cs_high_water cs \<and> cs_chunk_size cs2 = cs_chunk_size cs \<and>
    cs_checksum_algorithm cs2 = cs_checksum_algorithm cs \<and> cs_escrows cs2 = cs_escrows cs1 \<and>
    (\<forall>off. cs_high_water cs \<le> unat off \<longrightarrow> chunk_store_lookup_any (Some cs2) off \<in> {None, Some zero_block})"
proof -
  obtain cs' path where r: "chunk_store_refresh_escrows mem cs = Inr cs'" and path: "chunk_meta_path dir ino = Inr path"
    and s: "save_file io False path (store_records cs' ino) = (None, ops)" and cs1: "cs1 = cs'\<lparr>cs_dirty := False\<rparr>"
    using chunk_store_persist_None [OF assms(5,2)] by blast
  note K = refresh_keeps [OF r]
  have inv': "cs_inv cs'" using chunk_store_refresh_escrows_inv [OF r assms(1)] .
  have es: "length (cs_escrows cs') \<le> CHUNK_STORE_MAX_ESCROWS" using K(6) refresh_scan_Inr by fastforce
  have ok: "list_all (loaded_range_ok (of_nat (cs_high_water cs'))) (cs_escrows cs')"
    using refreshed_ranges_ok [OF r assms(1,4)] K(2) by simp
  have "run_ops ops fs path = Some (store_records cs' ino)" using save_file_atomic(3) [OF s] by simp
  note L = load_saved [where fs = "run_ops ops fs", OF path this inv' _ es ok]
  have hw: "cs_high_water cs \<le> cs_nblocks cs" "length (cs_blocks cs) = cs_nblocks cs"
    "\<And>i. i < cs_nblocks cs \<Longrightarrow> cs_high_water cs \<le> i \<Longrightarrow> cb_state (cs_blocks cs ! i) = CHUNK_STATE_EMPTY"
    using assms(1) by (auto simp: cs_inv_def)
  have hwm: "cs_high_water cs' \<le> CHUNK_STORE_MAX_BLOCKS" using assms(3) K(2) by simp
  let ?n = "max (cs_high_water cs) CHUNK_STORE_INIT_BLOCKS" and ?h = "cs_high_water cs"
  let ?blks = "take ?h (cs_blocks cs) @ replicate (?n - ?h) zero_block"
  obtain cs2 where l: "chunk_store_load all_allocs (run_ops ops fs) dir ino = Some cs2"
    and f: "cs_blocks cs2 = ?blks" "cs_nblocks cs2 = ?n" "cs_high_water cs2 = ?h" "cs_chunk_size cs2 = cs_chunk_size cs"
      "cs_checksum_algorithm cs2 = cs_checksum_algorithm cs" "cs_escrows cs2 = cs_escrows cs1"
    using L [OF hwm] K(1-5) cs1 by simp
  have low: "cs_blocks cs2 ! i = cs_blocks cs ! i \<and> i < cs_nblocks cs2 \<and> i < cs_nblocks cs" if "i < ?h" for i
    using that hw(1,2) f(1,2) by (simp add: nth_append)
  have high: "cb_state (cs_blocks cs2 ! i) = CHUNK_STATE_EMPTY" if "?h \<le> i" "i < cs_nblocks cs2" for i
    using that hw(1,2) f(1,2) by (simp add: nth_append zero_block_def)
  have "chunk_store_lookup (Some cs2) off = chunk_store_lookup (Some cs) off" for off
  proof (cases "unat off < ?h")
    case True
    then show ?thesis using low by (simp add: lookup_Some_store)
  next
    case False
    then show ?thesis using high [of "unat off"] hw(3) [of "unat off"] unfolding lookup_Some_store
      by (metis not_less)
  qed
  moreover have "chunk_store_lookup_any (Some cs2) off = chunk_store_lookup_any (Some cs) off" if "unat off < ?h" for off
    using low [OF that] by (simp add: chunk_store_lookup_any_def)
  moreover have "chunk_store_lookup_any (Some cs2) off \<in> {None, Some zero_block}" if "?h \<le> unat off" for off
    using that hw(1,2) f(1,2) by (auto simp: chunk_store_lookup_any_def nth_append)
  ultimately show ?thesis using l f(3-6) by blast
qed

section \<open>Properties\<close>

text \<open>
  C4. Saving and loading loses nothing: if \<^verbatim>\<open>chunk_store_persist\<close> of a dirty store with
  at most \<open>2^20\<close> blocks in use and escrow ranges inside them returns 0, then
  \<^verbatim>\<open>chunk_store_load\<close> from the resulting file system returns a store in which every lookup
  gives the same block, with the same high-water mark, chunk size, checksum algorithm and escrow
  index.
\<close>

theorem chunk_store_persist_load:
  assumes "cs_inv cs" "cs_dirty cs" "cs_high_water cs \<le> CHUNK_STORE_MAX_BLOCKS" "escrows_in_range cs"
    and "chunk_store_persist mem io (Some cs) dir ino = (None, Some cs1, ops)"
  shows "\<exists>cs2. chunk_store_load all_allocs (run_ops ops fs) dir ino = Some cs2 \<and>
    (\<forall>off. chunk_store_lookup (Some cs2) off = chunk_store_lookup (Some cs) off) \<and>
    (\<forall>off. unat off < cs_high_water cs \<longrightarrow>
       chunk_store_lookup_any (Some cs2) off = chunk_store_lookup_any (Some cs) off) \<and>
    cs_high_water cs2 = cs_high_water cs \<and> cs_chunk_size cs2 = cs_chunk_size cs \<and>
    cs_checksum_algorithm cs2 = cs_checksum_algorithm cs \<and> cs_escrows cs2 = cs_escrows cs1"
  using persist_reload [OF assms, of fs] by blast

theorem chunk_store_persist_load_witness:
  "\<exists>ops cs1 cs2. chunk_store_persist all_allocs io_ok
      (Some (fresh_store\<lparr>cs_blocks := (cs_blocks fresh_store)[3 := zero_block\<lparr>cb_state := CHUNK_STATE_COMMITTED\<rparr>],
                         cs_high_water := 4, cs_dirty := True\<rparr>)) ''/state'' 7 = (None, Some cs1, ops) \<and>
     chunk_store_load all_allocs (run_ops ops (\<lambda>_. None)) ''/state'' 7 = Some cs2 \<and>
     chunk_store_lookup (Some cs2) 3 = Some (zero_block\<lparr>cb_state := CHUNK_STATE_COMMITTED\<rparr>)"
proof -
  let ?b = "zero_block\<lparr>cb_state := CHUNK_STATE_COMMITTED\<rparr>"
  let ?cs = "fresh_store\<lparr>cs_blocks := (cs_blocks fresh_store)[3 := ?b], cs_high_water := 4, cs_dirty := True\<rparr>"
  have inv: "cs_inv ?cs"
    by (auto simp: cs_inv_def fresh_store_def cs_consts nth_list_update wf_block_def zero_block_def)
  have ne: "\<not> escrowed ?b" "\<not> escrowed zero_block" by (simp_all add: escrowed_def zero_block_def)
  have blk: "cs_blocks ?cs ! i = (if i = 3 then ?b else zero_block)" if "i < 64" for i
    using that by (simp add: fresh_store_def cs_consts nth_list_update)
  have er: "escrows_in_range ?cs" using blk ne by (simp add: escrows_in_range_def)
  have "\<forall>b \<in> set (cs_blocks ?cs). \<not> escrowed b"
    using ne by (auto simp: fresh_store_def dest: set_update_subset_insert [THEN subsetD])
  then obtain cs1 ops where per: "chunk_store_persist all_allocs io_ok (Some ?cs) ''/state'' 7 = (None, Some cs1, ops)"
    using persist_io_ok [of ?cs] by auto
  have hw: "cs_dirty ?cs" "cs_high_water ?cs \<le> CHUNK_STORE_MAX_BLOCKS" by (simp_all add: cs_consts)
  obtain cs2 where "chunk_store_load all_allocs (run_ops ops (\<lambda>_. None)) ''/state'' 7 = Some cs2"
    "chunk_store_lookup (Some cs2) 3 = chunk_store_lookup (Some ?cs) 3"
    using chunk_store_persist_load [OF inv hw er per, of "\<lambda>_. None"] by blast
  moreover have "chunk_store_lookup (Some ?cs) 3 = Some ?b"
    using blk [of 3] by (simp add: lookup_Some_store fresh_store_def cs_consts)
  ultimately show ?thesis using per by auto
qed



text \<open>
  C21. Every store that can arise by creation, loading of an arbitrary file and any sequence of the
  operations satisfies the invariant: the array has its recorded size, at most \<open>2^21\<close> entries, and
  every occupied block lies below the high-water mark and so will be saved.
\<close>

theorem chunk_store_reachable_inv:
  assumes "cs_reach cs"
  shows "length (cs_blocks cs) = cs_nblocks cs \<and> cs_nblocks cs \<le> 2 ^ 21 \<and> cs_high_water cs \<le> cs_nblocks cs
     \<and> (\<forall>off. chunk_store_lookup (Some cs) off \<noteq> None \<longrightarrow> unat off < cs_high_water cs)"
  using cs_reach_inv [OF assms] by (auto simp: cs_inv_def cs_consts lookup_Some_store not_le [symmetric])

theorem chunk_store_reachable_inv_witness:
  "cs_reach fresh_store \<and> cs_nblocks fresh_store \<le> 2 ^ 21"
proof -
  have "cs_reach fresh_store"
    by (rule cs_get [of all_allocs "\<lambda>_. None" None 0]) (simp add: chunk_store_get_def)
  then show ?thesis using chunk_store_reachable_inv by blast
qed

text \<open>
  C31. The block limit of the writer and of the loader differ: a write at offset \<open>2^20\<close> to a new
  store is accepted, and no save of the resulting store, successful as it may be, can be loaded
  again, because the loader rejects more than \<open>2^20\<close> blocks.
\<close>

theorem chunk_store_limit_mismatch:
  "\<exists>cs. chunk_store_write all_allocs fresh_store (of_nat CHUNK_STORE_MAX_BLOCKS) blk = Inr cs \<and>
     (\<forall>mem io dir ino cs1 ops mem' fs. chunk_store_persist mem io (Some cs) dir ino = (None, cs1, ops) \<longrightarrow>
        chunk_store_load mem' (run_ops ops fs) dir ino = None)"
proof -
  have u: "unat (of_nat CHUNK_STORE_MAX_BLOCKS :: u64) = CHUNK_STORE_MAX_BLOCKS"
    by (simp add: unat_of_nat cs_consts)
  obtain cs where cs: "chunk_store_write all_allocs fresh_store (of_nat CHUNK_STORE_MAX_BLOCKS) blk = Inr cs"
    by (simp add: chunk_store_write_def chunk_store_reserve_def chunk_store_grow_def u Let_def fresh_store_def cs_consts)
  then have hw: "cs_high_water cs = CHUNK_STORE_MAX_BLOCKS + 1" and dirty: "cs_dirty cs"
    by (auto simp: chunk_store_write_def chunk_store_reserve_def chunk_store_grow_def u Let_def fresh_store_def
        cs_consts split: if_splits)
  have "chunk_store_load mem' (run_ops ops fs) dir ino = None"
    if p: "chunk_store_persist mem io (Some cs) dir ino = (None, cs1, ops)" for mem io dir ino cs1 ops mem' fs
  proof -
    obtain cs' path where r: "chunk_store_refresh_escrows mem cs = Inr cs'" and path: "chunk_meta_path dir ino = Inr path"
      and s: "save_file io False path (store_records cs' ino) = (None, ops)"
      using chunk_store_persist_None [OF p dirty] by blast
    have "cs_high_water cs' = CHUNK_STORE_MAX_BLOCKS + 1" using refresh_keeps(2) [OF r] hw by simp
    moreover have "run_ops ops fs path = Some (store_records cs' ino)" using save_file_atomic(3) [OF s] by simp
    ultimately show ?thesis
      by (simp add: chunk_store_load_def path store_records_def header_ok_def cs_consts)
  qed
  with cs show ?thesis by blast
qed

theorem chunk_store_limit_mismatch_witness:
  "\<exists>cs cs1 ops. chunk_store_write all_allocs fresh_store (of_nat CHUNK_STORE_MAX_BLOCKS)
        (zero_block\<lparr>cb_state := CHUNK_STATE_COMMITTED\<rparr>) = Inr cs \<and>
     chunk_store_persist all_allocs io_ok (Some cs) ''/state'' 7 = (None, Some cs1, ops) \<and>
     chunk_store_load all_allocs (run_ops ops (\<lambda>_. None)) ''/state'' 7 = None"
proof -
  let ?b = "zero_block\<lparr>cb_state := CHUNK_STATE_COMMITTED\<rparr>"
  obtain cs where w: "chunk_store_write all_allocs fresh_store (of_nat CHUNK_STORE_MAX_BLOCKS) ?b = Inr cs"
    and l: "\<And>mem io dir ino cs1 ops mem' fs. chunk_store_persist mem io (Some cs) dir ino = (None, cs1, ops) \<Longrightarrow>
        chunk_store_load mem' (run_ops ops fs) dir ino = None"
    using chunk_store_limit_mismatch [of ?b] by blast
  have ne: "\<not> escrowed ?b" "\<not> escrowed zero_block" by (simp_all add: escrowed_def zero_block_def)
  have d: "cs_dirty cs" and s: "set (cs_blocks cs) \<subseteq> {?b, zero_block}"
    using w by (auto simp: chunk_store_write_def chunk_store_reserve_def chunk_store_grow_def Let_def fresh_store_def
        split: if_splits dest!: set_update_subset_insert [THEN subsetD])
  from s ne have "\<forall>b \<in> set (cs_blocks cs). \<not> escrowed b" by auto
  from persist_io_ok [OF d this] w l show ?thesis by blast
qed



end
