(* ===== verification/TrustTable.thy ===== *)
theory TrustTable
  imports Reffs_Prelude "HOL-Library.Monad_Syntax"
begin

text \<open>
  The trust table of a data server, \<^verbatim>\<open>src/lib/nfs4/server/trust_stateid.c\<close>: the metadata
  server registers layout stateids with a lease, the CHUNK operations look them up. Entries live
  on a heap with reference counts; the hash table holds the addresses of the entries it links, in
  insertion order, which is the order in which the table keeps entries of equal hash. An operation
  is an atomic step; a reader that holds a reference across steps is counted in the argument
  \<open>x\<close> of the invariant. \<open>None\<close> as the result of an operation is undefined behaviour:
  a use of a freed entry or a reference count that drops below zero.
\<close>

section \<open>State\<close>

definition NFS4_OTHER_SIZE :: nat where "NFS4_OTHER_SIZE = 12"
definition TRUST_PRINCIPAL_MAX :: nat where "TRUST_PRINCIPAL_MAX = 256"
definition TRUST_ACTIVE :: u32 where "TRUST_ACTIVE = 1"
definition TRUST_PENDING :: u32 where "TRUST_PENDING = 2"

record stateid4 =
  seqid :: u32
  other :: "u8 list"

record trust_entry =
  te_ref :: nat
  te_other :: "u8 list"
  te_sb :: u64
  te_ino :: u64
  te_issuer_clientid :: u64
  te_target_clientid :: u64
  te_iomode :: u32
  te_expire_ns :: u64
  te_flags :: u32
  te_principal :: string
  te_client_id :: u32

datatype trust_validation_outcome = TRUST_VALIDATE_SPECIAL | TRUST_VALIDATE_OK
  | TRUST_VALIDATE_NO_ENTRY | TRUST_VALIDATE_EXPIRED | TRUST_VALIDATE_PENDING
  | TRUST_VALIDATE_IOMODE | TRUST_VALIDATE_IDENTITY

text \<open>The monotonic counters; \<^verbatim>\<open>uint64_t\<close> each.\<close>

record trust_counters =
  ts_registers :: u64
  ts_renewals :: u64
  ts_revokes :: u64
  ts_bulk_revokes :: u64
  ts_expired :: u64
  ts_lookups :: u64
  ts_lookup_misses :: u64
  ts_validate :: "trust_validation_outcome \<Rightarrow> u64"

record trust_stateid_stats =
  st_counters :: trust_counters
  ts_entries :: u64

text \<open>\<open>trust_ht\<close> is the pointer to the table, \<open>None\<close> before init and after fini.\<close>

record trust_state =
  trust_ht :: "nat list option"
  te_heap :: "nat \<rightharpoonup> trust_entry"
  te_next :: nat
  ts_counters :: trust_counters

definition trust_tbl :: "trust_state \<Rightarrow> nat list" where
  "trust_tbl s = (case trust_ht s of None \<Rightarrow> [] | Some ids \<Rightarrow> ids)"

definition ts_bump :: "((u64 \<Rightarrow> u64) \<Rightarrow> trust_counters \<Rightarrow> trust_counters) \<Rightarrow> trust_state \<Rightarrow> trust_state" where
  "ts_bump fld s = s\<lparr>ts_counters := fld (\<lambda>c. c + 1) (ts_counters s)\<rparr>"

definition trust_stateid_count_validation :: "trust_validation_outcome \<Rightarrow> trust_state \<Rightarrow> trust_state" where
  "trust_stateid_count_validation outcome s =
     ts_bump (\<lambda>inc. ts_validate_update (\<lambda>v. v(outcome := inc (v outcome)))) s"

definition trust_stateid_get_stats :: "trust_state \<Rightarrow> trust_stateid_stats" where
  "trust_stateid_get_stats s = \<lparr>st_counters = ts_counters s,
     ts_entries = fold (\<lambda>_ n. n + 1) (trust_tbl s) 0\<rparr>"

section \<open>Matching\<close>

record trust_fh_key =
  k_other :: "u8 list"
  k_sb :: u64
  k_ino :: u64

definition trust_match :: "u8 list \<Rightarrow> trust_entry \<Rightarrow> bool" where
  "trust_match key te \<longleftrightarrow> te_other te = key"

definition trust_match_fh :: "trust_fh_key \<Rightarrow> trust_entry \<Rightarrow> bool" where
  "trust_match_fh fk te \<longleftrightarrow> te_other te = k_other fk \<and> te_sb te = k_sb fk \<and> te_ino te = k_ino fk"

definition trust_match_fh_legacy :: "trust_fh_key \<Rightarrow> trust_entry \<Rightarrow> bool" where
  "trust_match_fh_legacy fk te \<longleftrightarrow> te_other te = k_other fk \<and> te_sb te = 0 \<and> te_ino te = k_ino fk"

text \<open>
  \<^verbatim>\<open>cds_lfht_lookup\<close>: the first linked entry that matches. All match functions compare
  \<^verbatim>\<open>te_other\<close>, of which the hash is a function, so entries of another hash never match.
\<close>

fun ht_lookup :: "trust_state \<Rightarrow> (trust_entry \<Rightarrow> bool) \<Rightarrow> nat list \<Rightarrow> nat option option" where
  "ht_lookup s P [] = Some None"
| "ht_lookup s P (i # ids) = do {
     te \<leftarrow> te_heap s i;
     if P te then Some (Some i) else ht_lookup s P ids
   }"

text \<open>\<^verbatim>\<open>cds_lfht_del\<close> (no effect on an entry that is not linked) and \<^verbatim>\<open>cds_lfht_add\<close>.\<close>

definition ht_del :: "nat \<Rightarrow> trust_state \<Rightarrow> trust_state" where
  "ht_del i s = s\<lparr>trust_ht := map_option (filter (\<lambda>j. j \<noteq> i)) (trust_ht s)\<rparr>"

definition ht_add :: "nat \<Rightarrow> trust_state \<Rightarrow> trust_state" where
  "ht_add i s = s\<lparr>trust_ht := map_option (\<lambda>ids. ids @ [i]) (trust_ht s)\<rparr>"

section \<open>References\<close>

definition urcu_ref_get_unless_zero :: "nat \<Rightarrow> trust_state \<Rightarrow> (bool \<times> trust_state) option" where
  "urcu_ref_get_unless_zero i s = do {
     te \<leftarrow> te_heap s i;
     if te_ref te = 0 then Some (False, s)
     else Some (True, s\<lparr>te_heap := (te_heap s)(i \<mapsto> te\<lparr>te_ref := te_ref te + 1\<rparr>)\<rparr>)
   }"

definition trust_entry_release :: "nat \<Rightarrow> trust_state \<Rightarrow> trust_state" where
  "trust_entry_release i s = (ht_del i s)\<lparr>te_heap := (te_heap s)(i := None)\<rparr>"

definition trust_entry_put :: "nat option \<Rightarrow> trust_state \<Rightarrow> trust_state option" where
  "trust_entry_put p s = (case p of
       None \<Rightarrow> Some s
     | Some i \<Rightarrow> do {
         te \<leftarrow> te_heap s i;
         if te_ref te = 0 then None
         else if te_ref te = 1 then Some (trust_entry_release i s)
         else Some (s\<lparr>te_heap := (te_heap s)(i \<mapsto> te\<lparr>te_ref := te_ref te - 1\<rparr>)\<rparr>)
       })"

section \<open>Lease renewal and expiry\<close>

fun renewal_from :: "u32 \<Rightarrow> u64 \<Rightarrow> nat list \<Rightarrow> trust_state \<Rightarrow> trust_state option" where
  "renewal_from lease_sec now [] s = Some s"
| "renewal_from lease_sec now (i # ids) s = do {
     (ok, s) \<leftarrow> urcu_ref_get_unless_zero i s;
     if \<not> ok then renewal_from lease_sec now ids s
     else do {
       te \<leftarrow> te_heap s i;
       let exp = te_expire_ns te;
       let threshold_ns = (ucast lease_sec * 1000000000) div 2;
       let new_lifetime_ns = ucast lease_sec * 1000000000;
       if exp = 0 \<or> exp \<le> now \<or> exp - now \<ge> threshold_ns then do {
         s \<leftarrow> trust_entry_put (Some i) s;
         renewal_from lease_sec now ids s
       } else do {
         s \<leftarrow> trust_entry_put (Some i)
                (s\<lparr>te_heap := (te_heap s)(i \<mapsto> te\<lparr>te_expire_ns := now + new_lifetime_ns\<rparr>)\<rparr>);
         renewal_from lease_sec now ids s
       }
     }
   }"

definition trust_stateid_renewal_scan :: "u32 \<Rightarrow> u64 \<Rightarrow> trust_state \<Rightarrow> trust_state option" where
  "trust_stateid_renewal_scan lease_sec now s = (case trust_ht s of
       None \<Rightarrow> Some s
     | Some ids \<Rightarrow> renewal_from lease_sec now ids s)"

fun expiry_from :: "u64 \<Rightarrow> nat list \<Rightarrow> trust_state \<Rightarrow> trust_state option" where
  "expiry_from now [] s = Some s"
| "expiry_from now (i # ids) s = do {
     (ok, s) \<leftarrow> urcu_ref_get_unless_zero i s;
     if \<not> ok then expiry_from now ids s
     else do {
       te \<leftarrow> te_heap s i;
       let exp = te_expire_ns te;
       if exp = 0 \<or> now < exp then do {
         s \<leftarrow> trust_entry_put (Some i) s;
         expiry_from now ids s
       } else do {
         s \<leftarrow> trust_entry_put (Some i) s;
         s \<leftarrow> trust_entry_put (Some i) s;
         expiry_from now ids (ts_bump ts_expired_update s)
       }
     }
   }"

text \<open>
  One iteration of the reaper thread: the expiry pass at time \<open>now\<close>, then the renewal pass at
  the later time \<open>now2\<close> with the lease of the server state, when there is one.
\<close>

definition trust_reaper_cycle :: "u64 \<Rightarrow> u64 \<Rightarrow> u32 option \<Rightarrow> trust_state \<Rightarrow> trust_state option" where
  "trust_reaper_cycle now now2 ss s = (case trust_ht s of
       None \<Rightarrow> Some s
     | Some ids \<Rightarrow> do {
         s \<leftarrow> expiry_from now ids s;
         (case ss of
            None \<Rightarrow> Some s
          | Some lease_sec \<Rightarrow> trust_stateid_renewal_scan lease_sec now2 s)
       })"

section \<open>Initialisation and shutdown\<close>

text \<open>Returns the error code of the code: \<open>-1\<close>, or the negated result of \<^verbatim>\<open>pthread_create\<close>.\<close>

definition trust_stateid_init :: "allocs \<Rightarrow> int \<Rightarrow> trust_state \<Rightarrow> int \<times> trust_state" where
  "trust_stateid_init mem pthread_ret s =
     (if \<not> mem ''cds_lfht_new'' then (-1, s\<lparr>trust_ht := None\<rparr>)
      else if pthread_ret \<noteq> 0 then (- pthread_ret, s\<lparr>trust_ht := None\<rparr>)
      else (0, s\<lparr>trust_ht := Some []\<rparr>))"

fun drain_from :: "nat list \<Rightarrow> trust_state \<Rightarrow> trust_state option" where
  "drain_from [] s = Some s"
| "drain_from (i # ids) s = do { s \<leftarrow> trust_entry_put (Some i) s; drain_from ids s }"

definition trust_stateid_fini :: "trust_state \<Rightarrow> trust_state option" where
  "trust_stateid_fini s = (case trust_ht s of
       None \<Rightarrow> Some s
     | Some ids \<Rightarrow> do { s \<leftarrow> drain_from ids s; Some (s\<lparr>trust_ht := None\<rparr>) })"

section \<open>Registration\<close>

text \<open>\<open>Inr ()\<close> is the return value 0. \<open>princ = None\<close> is the NULL pointer.\<close>

definition new_trust_entry :: "stateid4 \<Rightarrow> u64 \<Rightarrow> u64 \<Rightarrow> u64 \<Rightarrow> u64 \<Rightarrow> u32 \<Rightarrow> u32 \<Rightarrow> u64 \<Rightarrow> string option \<Rightarrow> trust_entry" where
  "new_trust_entry stid sb ino issuer target client_id iomode expire_mono_ns princ =
     \<lparr>te_ref = 1, te_other = other stid, te_sb = sb, te_ino = ino, te_issuer_clientid = issuer,
      te_target_clientid = target, te_iomode = iomode, te_expire_ns = expire_mono_ns,
      te_flags = TRUST_ACTIVE,
      te_principal = (case princ of None \<Rightarrow> [] | Some p \<Rightarrow> take (TRUST_PRINCIPAL_MAX - 1) p),
      te_client_id = client_id\<rparr>"

definition add_trust_entry :: "trust_entry \<Rightarrow> trust_state \<Rightarrow> trust_state" where
  "add_trust_entry te s =
     ht_add (te_next s) (s\<lparr>te_heap := (te_heap s)(te_next s \<mapsto> te), te_next := te_next s + 1\<rparr>)"

definition trust_stateid_register_fh :: "allocs \<Rightarrow> stateid4 \<Rightarrow> u64 \<Rightarrow> u64 \<Rightarrow> u64 \<Rightarrow> u64 \<Rightarrow> u32 \<Rightarrow> u32
    \<Rightarrow> u64 \<Rightarrow> string option \<Rightarrow> trust_state \<Rightarrow> ((errno + unit) \<times> trust_state) option" where
  "trust_stateid_register_fh mem stid sb ino issuer target client_id iomode expire_mono_ns princ s =
     (case trust_ht s of
        None \<Rightarrow> Some (Inl EINVAL, s)
      | Some ids \<Rightarrow> do {
          found \<leftarrow> ht_lookup s (trust_match_fh \<lparr>k_other = other stid, k_sb = sb, k_ino = ino\<rparr>) ids;
          (live, s) \<leftarrow> (case found of
              None \<Rightarrow> Some (False, s)
            | Some i \<Rightarrow> urcu_ref_get_unless_zero i s);
          if live then do {
            let i = the found;
            te \<leftarrow> te_heap s i;
            if te_ino te \<noteq> ino \<or> (te_sb te \<noteq> 0 \<and> te_sb te \<noteq> sb)
               \<or> te_issuer_clientid te \<noteq> issuer \<or> te_target_clientid te \<noteq> target
               \<or> te_client_id te \<noteq> client_id
            then do { s \<leftarrow> trust_entry_put (Some i) s; Some (Inl EINVAL, s) }
            else do {
              let te = (if te_sb te = 0 \<and> sb \<noteq> 0 then te\<lparr>te_sb := sb\<rparr> else te);
              let te = te\<lparr>te_expire_ns := expire_mono_ns, te_flags := TRUST_ACTIVE, te_iomode := iomode\<rparr>;
              s \<leftarrow> trust_entry_put (Some i) (s\<lparr>te_heap := (te_heap s)(i \<mapsto> te)\<rparr>);
              Some (Inr (), ts_bump ts_renewals_update s)
            }
          }
          else if \<not> mem ''trust_entry'' then Some (Inl ENOMEM, s)
          else Some (Inr (), ts_bump ts_registers_update (add_trust_entry
                 (new_trust_entry stid sb ino issuer target client_id iomode expire_mono_ns princ) s))
        })"

definition trust_stateid_register :: "allocs \<Rightarrow> stateid4 \<Rightarrow> u64 \<Rightarrow> u64 \<Rightarrow> u32 \<Rightarrow> u32 \<Rightarrow> u64
    \<Rightarrow> string option \<Rightarrow> trust_state \<Rightarrow> ((errno + unit) \<times> trust_state) option" where
  "trust_stateid_register mem stid ino clientid client_id iomode expire_mono_ns princ s =
     trust_stateid_register_fh mem stid 0 ino clientid 0 client_id iomode expire_mono_ns princ s"

section \<open>Revocation\<close>

text \<open>The match function of a revocation: by the whole key, or by the stateid alone.\<close>

definition revoke_pred :: "stateid4 \<Rightarrow> u64 \<Rightarrow> u64 \<Rightarrow> trust_entry \<Rightarrow> bool" where
  "revoke_pred stid sb ino = (if sb \<noteq> 0 \<or> ino \<noteq> 0
     then trust_match_fh \<lparr>k_other = other stid, k_sb = sb, k_ino = ino\<rparr> else trust_match (other stid))"

definition trust_stateid_revoke_match :: "stateid4 \<Rightarrow> u64 \<Rightarrow> u64 \<Rightarrow> u64 \<Rightarrow> bool \<Rightarrow> trust_state \<Rightarrow> trust_state option" where
  "trust_stateid_revoke_match stid sb ino issuer check_issuer s = (case trust_ht s of
       None \<Rightarrow> Some s
     | Some ids \<Rightarrow> do {
         let key = \<lparr>k_other = other stid, k_sb = sb, k_ino = ino\<rparr>;
         node \<leftarrow> ht_lookup s (revoke_pred stid sb ino) ids;
         node \<leftarrow> (if node = None \<and> sb \<noteq> 0
                 then ht_lookup s (trust_match_fh_legacy (key\<lparr>k_sb := 0\<rparr>)) ids else Some node);
         (case node of
            None \<Rightarrow> Some s
          | Some i \<Rightarrow> do {
              (ok, s) \<leftarrow> urcu_ref_get_unless_zero i s;
              if \<not> ok then Some s
              else do {
                te \<leftarrow> te_heap s i;
                if (sb \<noteq> 0 \<and> te_sb te \<noteq> sb) \<or> (ino \<noteq> 0 \<and> te_ino te \<noteq> ino)
                   \<or> (check_issuer \<and> te_issuer_clientid te \<noteq> issuer)
                then trust_entry_put (Some i) s
                else do {
                  s \<leftarrow> trust_entry_put (Some i) (ht_del i s);
                  s \<leftarrow> trust_entry_put (Some i) s;
                  Some (ts_bump ts_revokes_update s)
                }
              }
            })
       })"

definition trust_stateid_revoke_fh :: "stateid4 \<Rightarrow> u64 \<Rightarrow> u64 \<Rightarrow> u64 \<Rightarrow> trust_state \<Rightarrow> trust_state option" where
  "trust_stateid_revoke_fh stid sb ino issuer s = trust_stateid_revoke_match stid sb ino issuer True s"

definition trust_stateid_revoke :: "stateid4 \<Rightarrow> trust_state \<Rightarrow> trust_state option" where
  "trust_stateid_revoke stid s = trust_stateid_revoke_match stid 0 0 0 False s"

text \<open>
  One pass of the bulk revocation: the addresses collected into the batch, whether the batch is
  full, and the state in which each of them carries one more reference.
\<close>

definition BULK_BATCH :: nat where "BULK_BATCH = 64"

definition bulk_skip :: "u64 \<Rightarrow> u64 \<Rightarrow> trust_entry \<Rightarrow> bool" where
  "bulk_skip issuer target te \<longleftrightarrow> (let clear_all = (target = 0) in
     te_issuer_clientid te \<noteq> issuer \<or> (\<not> clear_all \<and> te_target_clientid te \<noteq> target))"

fun bulk_collect :: "u64 \<Rightarrow> u64 \<Rightarrow> nat list \<Rightarrow> nat list \<Rightarrow> trust_state \<Rightarrow> (nat list \<times> bool \<times> trust_state) option" where
  "bulk_collect issuer target batch [] s = Some (batch, False, s)"
| "bulk_collect issuer target batch (i # ids) s = do {
     te \<leftarrow> te_heap s i;
     if bulk_skip issuer target te then bulk_collect issuer target batch ids s
     else do {
       (ok, s) \<leftarrow> urcu_ref_get_unless_zero i s;
       if \<not> ok then bulk_collect issuer target batch ids s
       else if length (batch @ [i]) = BULK_BATCH then Some (batch @ [i], True, s)
       else bulk_collect issuer target (batch @ [i]) ids s
     }
   }"

fun bulk_put :: "nat list \<Rightarrow> trust_state \<Rightarrow> trust_state option" where
  "bulk_put [] s = Some s"
| "bulk_put (i # batch) s = do {
     s \<leftarrow> trust_entry_put (Some i) s;
     s \<leftarrow> trust_entry_put (Some i) s;
     bulk_put batch s
   }"

definition bulk_process :: "nat list \<Rightarrow> trust_state \<Rightarrow> trust_state option" where
  "bulk_process batch s = bulk_put batch (fold ht_del batch s)"

text \<open>\<^verbatim>\<open>restart:\<close> the loop runs again whenever the batch was full.\<close>

lemma trust_entry_put_tbl:
  "trust_entry_put p s = Some s' \<Longrightarrow> length (trust_tbl s') \<le> length (trust_tbl s)"
  by (auto simp: trust_tbl_def trust_entry_put_def trust_entry_release_def ht_del_def bind_eq_Some_conv
      split: option.splits if_splits)

lemma bulk_put_tbl: "bulk_put batch s = Some s' \<Longrightarrow> length (trust_tbl s') \<le> length (trust_tbl s)"
proof (induction batch arbitrary: s)
  case (Cons i batch)
  then obtain s1 s2 where "trust_entry_put (Some i) s = Some s1" "trust_entry_put (Some i) s1 = Some s2"
    "bulk_put batch s2 = Some s'"
    by (auto simp: bind_eq_Some_conv)
  then show ?case using Cons.IH [of s2] trust_entry_put_tbl [of "Some i"] by (meson order_trans)
qed simp

lemma trust_ht_fold_del:
  "trust_ht (fold ht_del batch s) = map_option (filter (\<lambda>j. j \<notin> set batch)) (trust_ht s)"
proof (induction batch arbitrary: s)
  case Nil
  then show ?case by (cases "trust_ht s") simp_all
next
  case (Cons i batch)
  then show ?case by (cases "trust_ht s") (simp_all add: ht_del_def conj_commute)
qed

lemma get_unless_zero_tbl: "urcu_ref_get_unless_zero i s = Some (ok, s') \<Longrightarrow> trust_ht s' = trust_ht s"
  by (auto simp: urcu_ref_get_unless_zero_def bind_eq_Some_conv split: if_splits)

lemma bulk_collect_full:
  assumes "bulk_collect issuer target batch ids s = Some (batch', full, s')"
  shows "trust_ht s' = trust_ht s \<and> (full \<longrightarrow> (\<exists>i. i \<in> set ids \<and> i \<in> set batch'))"
  using assms
proof (induction ids arbitrary: batch s)
  case Nil
  then show ?case by simp
next
  case (Cons i ids)
  from Cons.prems obtain te where te: "te_heap s i = Some te" by (auto simp: bind_eq_Some_conv)
  show ?case
  proof (cases "bulk_skip issuer target te")
    case True
    then have "bulk_collect issuer target batch ids s = Some (batch', full, s')" using Cons.prems te by simp
    from Cons.IH [OF this] show ?thesis by auto
  next
    case False
    then obtain ok s1 where s1: "urcu_ref_get_unless_zero i s = Some (ok, s1)"
      using Cons.prems te by (auto simp: bind_eq_Some_conv)
    note same = get_unless_zero_tbl [OF s1]
    consider "\<not> ok" | "ok" "length (batch @ [i]) = BULK_BATCH" | "ok" "length (batch @ [i]) \<noteq> BULK_BATCH" by blast
    then show ?thesis
    proof cases
      case 1
      then have "bulk_collect issuer target batch ids s1 = Some (batch', full, s')"
        using Cons.prems te False s1 by simp
      from Cons.IH [OF this] same show ?thesis by auto
    next
      case 2
      then show ?thesis using Cons.prems te False s1 same by auto
    next
      case 3
      then have "bulk_collect issuer target (batch @ [i]) ids s1 = Some (batch', full, s')"
        using Cons.prems te False s1 by simp
      from Cons.IH [OF this] same show ?thesis by auto
    qed
  qed
qed

lemma bulk_pass_shrinks:
  assumes "bulk_collect issuer target [] (trust_tbl s) s = Some (batch, True, s')"
    and "bulk_process batch s' = Some s''"
  shows "length (trust_tbl s'') < length (trust_tbl s)"
proof -
  obtain i where i: "i \<in> set (trust_tbl s)" "i \<in> set batch" using bulk_collect_full [OF assms(1)] by auto
  have "length (trust_tbl s'') \<le> length (trust_tbl (fold ht_del batch s'))"
    using assms(2) by (auto simp: bulk_process_def dest: bulk_put_tbl)
  also have "\<dots> < length (trust_tbl s)"
    using i bulk_collect_full [OF assms(1)]
    by (cases "trust_ht s") (auto simp: trust_tbl_def trust_ht_fold_del intro!: length_filter_less)
  finally show ?thesis .
qed

function bulk_restart :: "u64 \<Rightarrow> u64 \<Rightarrow> trust_state \<Rightarrow> trust_state option" where
  "bulk_restart issuer target s = do {
     (batch, full, s1) \<leftarrow> bulk_collect issuer target [] (trust_tbl s) s;
     s2 \<leftarrow> bulk_process batch s1;
     if full then bulk_restart issuer target s2 else Some s2
   }"
  by auto
termination by (relation "measure (\<lambda>(issuer, target, s). length (trust_tbl s))") (auto dest: bulk_pass_shrinks)

declare bulk_restart.simps [simp del]

definition trust_stateid_bulk_revoke_scoped :: "u64 \<Rightarrow> u64 \<Rightarrow> trust_state \<Rightarrow> trust_state option" where
  "trust_stateid_bulk_revoke_scoped issuer target s = (case trust_ht s of
       None \<Rightarrow> Some s
     | Some ids \<Rightarrow> bulk_restart issuer target (ts_bump ts_bulk_revokes_update s))"

section \<open>Lookup\<close>

text \<open>The reference that a lookup takes, and the counter of misses.\<close>

definition find_node :: "nat option \<Rightarrow> trust_state \<Rightarrow> (nat option \<times> trust_state) option" where
  "find_node node s = do {
     (ok, s) \<leftarrow> (case node of None \<Rightarrow> Some (False, s) | Some i \<Rightarrow> urcu_ref_get_unless_zero i s);
     Some (if ok then (node, s) else (None, ts_bump ts_lookup_misses_update s))
   }"

definition trust_stateid_find :: "stateid4 \<Rightarrow> trust_state \<Rightarrow> (nat option \<times> trust_state) option" where
  "trust_stateid_find stid s = (case trust_ht s of
       None \<Rightarrow> Some (None, s)
     | Some ids \<Rightarrow> do {
         let s = ts_bump ts_lookups_update s;
         node \<leftarrow> ht_lookup s (trust_match (other stid)) ids;
         find_node node s
       })"

definition trust_stateid_find_fh :: "stateid4 \<Rightarrow> u64 \<Rightarrow> u64 \<Rightarrow> trust_state \<Rightarrow> (nat option \<times> trust_state) option" where
  "trust_stateid_find_fh stid sb ino s = (case trust_ht s of
       None \<Rightarrow> Some (None, s)
     | Some ids \<Rightarrow> do {
         let s = ts_bump ts_lookups_update s;
         let key = \<lparr>k_other = other stid, k_sb = sb, k_ino = ino\<rparr>;
         node \<leftarrow> ht_lookup s (trust_match_fh key) ids;
         node \<leftarrow> (if node = None \<and> sb \<noteq> 0
                 then ht_lookup s (trust_match_fh_legacy (key\<lparr>k_sb := 0\<rparr>)) ids else Some node);
         find_node node s
       })"

section \<open>Deadlines\<close>

text \<open>\<^verbatim>\<open>nfstime4\<close>: signed seconds, unsigned nanoseconds.\<close>

record nfstime4 =
  seconds :: "64 word"
  nseconds :: u32

definition trust_stateid_convert_expire :: "nfstime4 \<Rightarrow> u64 \<Rightarrow> u64 \<Rightarrow> u64" where
  "trust_stateid_convert_expire expire now_wall_ns now_mono_ns =
     (if nseconds expire \<ge> 1000000000 then 0
      else if sint (seconds expire) \<le> 0 then 0
      else let expire_wall_ns = seconds expire * 1000000000 + ucast (nseconds expire) in
        if expire_wall_ns \<le> now_wall_ns then 0
        else let remaining_ns = expire_wall_ns - now_wall_ns in
          if remaining_ns > - 1 - now_mono_ns then - 1
          else now_mono_ns + remaining_ns)"

end
