(* ===== verification/TrustSpec.thy ===== *)
theory TrustSpec
  imports TrustTable
begin

text \<open>
  What the trust table promises: a map from (stateid, superblock, inode) to leases. The theory has
  the invariant of the table, the effect of every operation of theory \<open>TrustTable\<close> in closed
  form, and the specification of the operations on the map that the operations refine.
\<close>

section \<open>Invariant and abstraction\<close>

type_synonym trust_key = "u8 list \<times> u64 \<times> u64"
type_synonym trust_map = "trust_key \<rightharpoonup> trust_entry"

definition te_key :: "trust_entry \<Rightarrow> trust_key" where
  "te_key te = (te_other te, te_sb te, te_ino te)"

text \<open>
  \<open>x i\<close> is the number of references to entry \<open>i\<close> that readers hold. A linked entry has one more,
  the creation reference; an entry that is no longer linked lives as long as it has readers. No
  two linked entries have the same key.
\<close>

definition trust_inv :: "(nat \<Rightarrow> nat) \<Rightarrow> trust_state \<Rightarrow> bool" where
  "trust_inv x s \<longleftrightarrow> distinct (trust_tbl s)
     \<and> (\<forall>i \<in> set (trust_tbl s). \<exists>te. te_heap s i = Some te \<and> te_ref te = Suc (x i))
     \<and> (\<forall>i te. te_heap s i = Some te \<longrightarrow> i \<notin> set (trust_tbl s) \<longrightarrow> te_ref te = x i \<and> 0 < x i)
     \<and> (\<forall>i. te_heap s i = None \<longrightarrow> x i = 0)
     \<and> (\<forall>i. te_next s \<le> i \<longrightarrow> te_heap s i = None)
     \<and> (\<forall>i j ti tj. i \<in> set (trust_tbl s) \<longrightarrow> j \<in> set (trust_tbl s) \<longrightarrow> te_heap s i = Some ti \<longrightarrow>
          te_heap s j = Some tj \<longrightarrow> te_key ti = te_key tj \<longrightarrow> i = j)"

abbreviation lease :: "trust_entry \<Rightarrow> trust_entry" where
  "lease te \<equiv> te\<lparr>te_ref := 0\<rparr>"

definition linked :: "trust_state \<Rightarrow> nat \<Rightarrow> trust_entry \<Rightarrow> bool" where
  "linked s i te \<longleftrightarrow> i \<in> set (trust_tbl s) \<and> te_heap s i = Some te"

definition trust_abs :: "trust_state \<Rightarrow> trust_map option" where
  "trust_abs s = map_option (\<lambda>ids. map_of (map (\<lambda>i. let te = the (te_heap s i) in (te_key te, lease te)) ids))
     (trust_ht s)"

definition abs_map :: "trust_state \<Rightarrow> trust_map" where
  "abs_map s = (case trust_abs s of None \<Rightarrow> Map.empty | Some m \<Rightarrow> m)"

lemma te_key_lease [simp]: "te_key (lease te) = te_key te" "te_key (te\<lparr>te_ref := n\<rparr>) = te_key te"
  by (simp_all add: te_key_def)

lemma linked_heap: "trust_inv x s \<Longrightarrow> i \<in> set (trust_tbl s) \<Longrightarrow> \<exists>te. linked s i te \<and> te_ref te = Suc (x i)"
  by (auto simp: trust_inv_def linked_def)

lemma linked_ref: "trust_inv x s \<Longrightarrow> linked s i te \<Longrightarrow> te_ref te = Suc (x i)"
  by (fastforce simp: trust_inv_def linked_def)

lemma linked_unique: "trust_inv x s \<Longrightarrow> linked s i ti \<Longrightarrow> linked s j tj \<Longrightarrow> te_key ti = te_key tj \<Longrightarrow> i = j"
  unfolding trust_inv_def linked_def by blast

lemma trust_invI:
  assumes "distinct (trust_tbl s)"
    and "\<And>i. i \<in> set (trust_tbl s) \<Longrightarrow> \<exists>te. te_heap s i = Some te \<and> te_ref te = Suc (x i)"
    and "\<And>i te. te_heap s i = Some te \<Longrightarrow> i \<notin> set (trust_tbl s) \<Longrightarrow> te_ref te = x i \<and> 0 < x i"
    and "\<And>i. te_heap s i = None \<Longrightarrow> x i = 0"
    and "\<And>i. te_next s \<le> i \<Longrightarrow> te_heap s i = None"
    and "\<And>i j ti tj. linked s i ti \<Longrightarrow> linked s j tj \<Longrightarrow> te_key ti = te_key tj \<Longrightarrow> i = j"
  shows "trust_inv x s"
  unfolding trust_inv_def
proof (intro conjI)
  show "\<forall>i j ti tj. i \<in> set (trust_tbl s) \<longrightarrow> j \<in> set (trust_tbl s) \<longrightarrow> te_heap s i = Some ti \<longrightarrow>
      te_heap s j = Some tj \<longrightarrow> te_key ti = te_key tj \<longrightarrow> i = j"
    using assms(6) unfolding linked_def by blast
qed (simp_all add: assms(1-5))

lemma inv_distinct: "trust_inv x s \<Longrightarrow> distinct (trust_tbl s)"
  and inv_unlinked: "trust_inv x s \<Longrightarrow> te_heap s i = Some te \<Longrightarrow> i \<notin> set (trust_tbl s) \<Longrightarrow> te_ref te = x i \<and> 0 < x i"
  and inv_free: "trust_inv x s \<Longrightarrow> te_heap s i = None \<Longrightarrow> x i = 0"
  and inv_fresh: "trust_inv x s \<Longrightarrow> te_next s \<le> i \<Longrightarrow> te_heap s i = None"
  by (simp_all add: trust_inv_def)

text \<open>The map holds exactly the linked entries.\<close>

lemma abs_map_Some:
  assumes "trust_inv x s"
  shows "abs_map s k = Some v \<longleftrightarrow> (\<exists>i te. linked s i te \<and> te_key te = k \<and> v = lease te)"
proof -
  let ?f = "\<lambda>i. let te = the (te_heap s i) in (te_key te, lease te)"
  have eq: "abs_map s = map_of (map ?f (trust_tbl s))"
    by (simp add: abs_map_def trust_abs_def trust_tbl_def split: option.split)
  have "distinct (map fst (map ?f (trust_tbl s)))"
  proof -
    have "inj_on (\<lambda>i. te_key (the (te_heap s i))) (set (trust_tbl s))"
    proof (rule inj_onI)
      fix i j
      assume i: "i \<in> set (trust_tbl s)" and j: "j \<in> set (trust_tbl s)"
        and k: "te_key (the (te_heap s i)) = te_key (the (te_heap s j))"
      obtain ti tj where "linked s i ti" "linked s j tj"
        using linked_heap [OF assms i] linked_heap [OF assms j] by blast
      with k show "i = j" using linked_unique [OF assms] by (simp add: linked_def)
    qed
    moreover have "distinct (trust_tbl s)" using assms by (simp add: trust_inv_def)
    ultimately show ?thesis by (simp add: distinct_map o_def Let_def)
  qed
  then have "abs_map s k = Some v \<longleftrightarrow> (k, v) \<in> set (map ?f (trust_tbl s))"
    by (simp add: eq map_of_eq_Some_iff)
  also have "\<dots> \<longleftrightarrow> (\<exists>i te. linked s i te \<and> te_key te = k \<and> v = lease te)"
  proof
    assume "(k, v) \<in> set (map ?f (trust_tbl s))"
    then obtain i where i: "i \<in> set (trust_tbl s)" "?f i = (k, v)" by auto
    with linked_heap [OF assms i(1)] show "\<exists>i te. linked s i te \<and> te_key te = k \<and> v = lease te"
      by (auto simp: linked_def Let_def)
  next
    assume "\<exists>i te. linked s i te \<and> te_key te = k \<and> v = lease te"
    then obtain i te where "linked s i te" "te_key te = k" "v = lease te" by blast
    then have "(k, v) = ?f i" "i \<in> set (trust_tbl s)" by (simp_all add: linked_def)
    then show "(k, v) \<in> set (map ?f (trust_tbl s))" unfolding set_map by (rule image_eqI)
  qed
  finally show ?thesis .
qed

lemma abs_map_linked: "trust_inv x s \<Longrightarrow> linked s i te \<Longrightarrow> abs_map s (te_key te) = Some (lease te)"
  using abs_map_Some by blast

lemma abs_map_None:
  "trust_inv x s \<Longrightarrow> abs_map s k = None \<longleftrightarrow> (\<forall>i te. linked s i te \<longrightarrow> te_key te \<noteq> k)"
  using abs_map_Some [of x s k] by (metis not_Some_eq)

lemma trust_abs_eq: "trust_abs s = map_option (\<lambda>_. abs_map s) (trust_ht s)"
  by (cases "trust_ht s") (simp_all add: abs_map_def trust_abs_def)

lemma abs_map_ext:
  assumes "trust_inv x s" and "\<And>k v. (\<exists>i te. linked s i te \<and> te_key te = k \<and> v = lease te) \<longleftrightarrow> m k = Some v"
  shows "abs_map s = m"
proof
  fix k
  have "abs_map s k = Some v \<longleftrightarrow> m k = Some v" for v using abs_map_Some [OF assms(1)] assms(2) by blast
  then show "abs_map s k = m k" by (metis not_Some_eq)
qed

section \<open>Building blocks\<close>

text \<open>The counters play no role in the invariant or the map.\<close>

lemma trust_tbl_cong: "trust_ht s' = trust_ht s \<Longrightarrow> trust_tbl s' = trust_tbl s"
  by (simp add: trust_tbl_def)

lemma bump_simps [simp]:
  "trust_ht (ts_bump f s) = trust_ht s" "trust_tbl (ts_bump f s) = trust_tbl s" "te_heap (ts_bump f s) = te_heap s"
  "te_next (ts_bump f s) = te_next s"
  by (simp_all add: ts_bump_def trust_tbl_def)

lemma same_table:
  assumes "trust_ht s' = trust_ht s" "te_heap s' = te_heap s" "te_next s' = te_next s"
  shows "trust_inv x s' = trust_inv x s" and "abs_map s' = abs_map s" and "linked s' = linked s"
  using assms by (simp_all add: trust_inv_def abs_map_def trust_abs_def linked_def trust_tbl_def fun_eq_iff)

lemma bump_inv [simp]: "trust_inv x (ts_bump f s) = trust_inv x s" "abs_map (ts_bump f s) = abs_map s"
  "linked (ts_bump f s) = linked s"
  by (rule same_table; simp)+

text \<open>An entry updated in place: the key and the references stay.\<close>

definition set_entry :: "nat \<Rightarrow> trust_entry \<Rightarrow> trust_state \<Rightarrow> trust_state" where
  "set_entry i te s = s\<lparr>te_heap := (te_heap s)(i \<mapsto> te)\<rparr>"

lemma set_entry_simps [simp]:
  "trust_ht (set_entry i te s) = trust_ht s" "trust_tbl (set_entry i te s) = trust_tbl s" "te_heap (set_entry i te s) = (te_heap s)(i \<mapsto> te)"
  "te_next (set_entry i te s) = te_next s" "ts_counters (set_entry i te s) = ts_counters s"
  "set_entry i te' (set_entry i te s) = set_entry i te' s"
  by (simp_all add: set_entry_def trust_tbl_def)

lemma set_entry_same: "te_heap s i = Some te \<Longrightarrow> set_entry i te s = s"
  by (simp add: set_entry_def fun_upd_idem)

lemma linked_set_entry:
  "linked (set_entry i te' s) j te \<longleftrightarrow> (if j = i then i \<in> set (trust_tbl s) \<and> te = te' else linked s j te)"
  by (auto simp: linked_def)

lemma set_entry_inv:
  assumes "trust_inv x s" "linked s i te" "te_ref te' = te_ref te" "te_key te' = te_key te"
  shows "trust_inv x (set_entry i te' s)"
proof -
  have k: "j = l" if "linked (set_entry i te' s) j tj" "linked (set_entry i te' s) l tl" "te_key tj = te_key tl" for j l tj tl
    using that assms linked_unique [OF assms(1)] by (metis linked_set_entry)
  have i: "i \<in> set (trust_tbl s)" "te_heap s i = Some te" using assms(2) by (simp_all add: linked_def)
  show ?thesis
  proof (rule trust_invI)
    show "\<exists>tj. te_heap (set_entry i te' s) j = Some tj \<and> te_ref tj = Suc (x j)"
      if "j \<in> set (trust_tbl (set_entry i te' s))" for j
      using that linked_heap [OF assms(1), of j] linked_ref [OF assms(1,2)] assms(3)
      by (auto simp: linked_def)
    show "te_ref tj = x j \<and> 0 < x j"
      if "te_heap (set_entry i te' s) j = Some tj" "j \<notin> set (trust_tbl (set_entry i te' s))" for j tj
      using that i inv_unlinked [OF assms(1)] by (auto split: if_splits)
    show "x j = 0" if "te_heap (set_entry i te' s) j = None" for j
      using that inv_free [OF assms(1)] by (simp split: if_splits)
    show "te_heap (set_entry i te' s) j = None" if "te_next (set_entry i te' s) \<le> j" for j
      using that inv_fresh [OF assms(1), of j] i by auto
  qed (use inv_distinct [OF assms(1)] k in simp_all)
qed

lemma set_entry_abs:
  assumes "trust_inv x s" "linked s i te" "te_ref te' = te_ref te" "te_key te' = te_key te"
  shows "abs_map (set_entry i te' s) = (abs_map s)(te_key te \<mapsto> lease te')"
proof (rule abs_map_ext [OF set_entry_inv [OF assms]])
  fix k v
  show "(\<exists>j tj. linked (set_entry i te' s) j tj \<and> te_key tj = k \<and> v = lease tj) \<longleftrightarrow>
    ((abs_map s)(te_key te \<mapsto> lease te')) k = Some v"
  proof (cases "k = te_key te")
    case True
    have "linked (set_entry i te' s) j tj \<and> te_key tj = k \<Longrightarrow> tj = te'" for j tj
      using linked_unique [OF assms(1) _ assms(2)] True assms(4) by (auto simp: linked_set_entry split: if_splits)
    moreover have "linked (set_entry i te' s) i te'" using assms(2) by (simp add: linked_set_entry linked_def)
    ultimately show ?thesis using True assms(4) by auto
  next
    case False
    have e: "linked (set_entry i te' s) j tj \<and> te_key tj = k \<and> v = lease tj \<longleftrightarrow>
        linked s j tj \<and> te_key tj = k \<and> v = lease tj" for j tj
      using False assms(2,4) by (auto simp: linked_set_entry linked_def)
    have "(\<exists>j tj. linked (set_entry i te' s) j tj \<and> te_key tj = k \<and> v = lease tj) \<longleftrightarrow> abs_map s k = Some v"
      unfolding e abs_map_Some [OF assms(1)] ..
    with False show ?thesis by simp
  qed
qed

text \<open>
  Entries leave the table together with their creation reference: an entry without readers is
  freed, any other lives on with the references of its readers.
\<close>

definition drop_creation :: "trust_entry \<Rightarrow> trust_entry option" where
  "drop_creation te = (if te_ref te = 1 then None else Some (te\<lparr>te_ref := te_ref te - 1\<rparr>))"

definition drop_set :: "nat set \<Rightarrow> trust_state \<Rightarrow> trust_state" where
  "drop_set B s = s\<lparr>trust_ht := map_option (filter (\<lambda>i. i \<notin> B)) (trust_ht s),
     te_heap := (\<lambda>i. if i \<in> B then Option.bind (te_heap s i) drop_creation else te_heap s i)\<rparr>"

lemma drop_set_tbl: "trust_tbl (drop_set B s) = filter (\<lambda>i. i \<notin> B) (trust_tbl s)"
  by (simp add: drop_set_def trust_tbl_def split: option.split)

lemma linked_drop_set: "linked (drop_set B s) i te \<longleftrightarrow> i \<notin> B \<and> linked s i te"
  unfolding linked_def drop_set_tbl by (auto simp: drop_set_def)

lemma drop_set_inv:
  assumes inv: "trust_inv x s" and B: "B \<subseteq> set (trust_tbl s)"
  shows "trust_inv x (drop_set B s)"
proof -
  let ?s = "drop_set B s"
  have heap: "te_heap ?s i = (if i \<in> B then Option.bind (te_heap s i) drop_creation else te_heap s i)" for i
    by (simp add: drop_set_def)
  have dropped: "te_heap ?s i = (if x i = 0 then None else Some (te\<lparr>te_ref := x i\<rparr>))"
    if "i \<in> B" "linked s i te" for i te
    using that linked_ref [OF inv that(2)] by (simp add: heap linked_def drop_creation_def)
  have lb: "\<exists>te. linked s i te" if "i \<in> B" for i using linked_heap [OF inv] B that by blast
  have 1: "distinct (trust_tbl ?s)" using inv by (simp add: drop_set_tbl trust_inv_def)
  have 2: "\<exists>te. te_heap ?s i = Some te \<and> te_ref te = Suc (x i)" if "i \<in> set (trust_tbl ?s)" for i
    using that linked_heap [OF inv, of i] by (auto simp: drop_set_tbl heap linked_def)
  have 3: "te_ref te = x i \<and> 0 < x i" if h: "te_heap ?s i = Some te" "i \<notin> set (trust_tbl ?s)" for i te
  proof (cases "i \<in> B")
    case True
    with lb obtain te0 where "linked s i te0" by blast
    with dropped [OF True this] h show ?thesis by (auto split: if_splits)
  next
    case False
    with h inv_unlinked [OF inv] show ?thesis by (simp add: heap drop_set_tbl)
  qed
  have 4: "x i = 0" if "te_heap ?s i = None" for i
  proof (cases "i \<in> B")
    case True
    with lb obtain te0 where "linked s i te0" by blast
    with dropped [OF True this] that show ?thesis by (auto split: if_splits)
  next
    case False
    with that inv_free [OF inv] show ?thesis by (simp add: heap)
  qed
  have 5: "te_heap ?s i = None" if "te_next ?s \<le> i" for i
    using that inv_fresh [OF inv, of i] by (simp add: drop_set_def)
  have 6: "i = j" if "linked ?s i ti" "linked ?s j tj" "te_key ti = te_key tj" for i j ti tj
    using that linked_unique [OF inv] by (auto simp: linked_drop_set)
  show ?thesis by (rule trust_invI [OF 1 2 3 4 5 6])
qed

lemma drop_set_abs:
  assumes inv: "trust_inv x s" and B: "B = {i. \<exists>te. linked s i te \<and> P (lease te)}"
  shows "abs_map (drop_set B s) = (\<lambda>k. Option.bind (abs_map s k) (\<lambda>v. if P v then None else Some v))"
proof (rule abs_map_ext)
  show "trust_inv x (drop_set B s)" using B by (intro drop_set_inv [OF inv]) (auto simp: linked_def)
  have e: "linked (drop_set B s) i te \<longleftrightarrow> linked s i te \<and> \<not> P (lease te)" for i te
    unfolding linked_drop_set B by (auto simp: linked_def)
  fix k v
  have "(\<exists>i te. linked (drop_set B s) i te \<and> te_key te = k \<and> v = lease te) \<longleftrightarrow>
      (\<exists>i te. linked s i te \<and> te_key te = k \<and> v = lease te) \<and> \<not> P v"
    unfolding e by blast
  also have "\<dots> \<longleftrightarrow> abs_map s k = Some v \<and> \<not> P v" using abs_map_Some [OF inv, of k v] by simp
  also have "\<dots> \<longleftrightarrow> Option.bind (abs_map s k) (\<lambda>v. if P v then None else Some v) = Some v"
    by (auto simp: bind_eq_Some_conv)
  finally show "(\<exists>i te. linked (drop_set B s) i te \<and> te_key te = k \<and> v = lease te) \<longleftrightarrow>
      Option.bind (abs_map s k) (\<lambda>v. if P v then None else Some v) = Some v" .
qed

lemma drop_set_drop_set: "A \<inter> B = {} \<Longrightarrow> drop_set B (drop_set A s) = drop_set (A \<union> B) s"
proof (rule trust_state.equality)
  assume d: "A \<inter> B = {}"
  show "trust_ht (drop_set B (drop_set A s)) = trust_ht (drop_set (A \<union> B) s)"
    by (cases "trust_ht s") (auto simp: drop_set_def intro!: filter_cong)
  show "te_heap (drop_set B (drop_set A s)) = te_heap (drop_set (A \<union> B) s)"
    by (rule ext) (use d in \<open>auto simp: drop_set_def\<close>)
qed (simp_all add: drop_set_def)

lemma drop_set_empty [simp]: "drop_set {} s = s"
  by (cases "trust_ht s") (simp_all add: drop_set_def)

text \<open>Lookups find a linked entry that matches, or report that there is none.\<close>

lemma ht_lookup_total:
  assumes "trust_inv x s" "set ids \<subseteq> set (trust_tbl s)"
  shows "\<exists>r. ht_lookup s P ids = Some r \<and> (r = None \<longrightarrow> (\<forall>i te. i \<in> set ids \<longrightarrow> linked s i te \<longrightarrow> \<not> P te))
    \<and> (\<forall>i. r = Some i \<longrightarrow> (\<exists>te. linked s i te \<and> P te))"
  using assms(2)
proof (induction ids)
  case Nil
  then show ?case by simp
next
  case (Cons i ids)
  obtain te where te: "linked s i te" using linked_heap [OF assms(1)] Cons.prems by force
  show ?case
  proof (cases "P te")
    case True
    with te show ?thesis by (auto simp: linked_def)
  next
    case False
    with Cons te show ?thesis by (auto simp: linked_def)
  qed
qed

lemma ht_lookup_heap: "te_heap s' = te_heap s \<Longrightarrow> ht_lookup s' P ids = ht_lookup s P ids"
  by (induction ids) (simp_all cong: Option.bind_cong if_cong)

text \<open>A lookup under the lock of the table: all callers pass the whole table.\<close>

lemma lookup_cases:
  assumes "trust_inv x s" "trust_ht s = Some ids"
  obtains "ht_lookup s P ids = Some None" "\<And>i te. linked s i te \<Longrightarrow> \<not> P te"
  | i te where "ht_lookup s P ids = Some (Some i)" "linked s i te" "P te"
proof -
  have t: "trust_tbl s = ids" using assms(2) by (simp add: trust_tbl_def)
  obtain r where r: "ht_lookup s P ids = Some r" "r = None \<Longrightarrow> \<forall>i te. i \<in> set ids \<longrightarrow> linked s i te \<longrightarrow> \<not> P te"
    "\<And>i. r = Some i \<Longrightarrow> \<exists>te. linked s i te \<and> P te"
    using ht_lookup_total [OF assms(1), of ids P] t by auto
  show thesis
  proof (cases r)
    case None
    with r t that(1) show thesis by (auto simp: linked_def)
  next
    case (Some i)
    with r t that(2) show thesis by blast
  qed
qed

section \<open>References taken and dropped within an operation\<close>

lemma get_linked:
  assumes "trust_inv x s" "linked s i te"
  shows "urcu_ref_get_unless_zero i s = Some (True, set_entry i (te\<lparr>te_ref := Suc (te_ref te)\<rparr>) s)"
  using assms linked_ref [OF assms] by (simp add: urcu_ref_get_unless_zero_def linked_def set_entry_def)

lemma put_held:
  assumes "te_heap s i = Some te" "te_ref te = Suc (Suc n)"
  shows "trust_entry_put (Some i) s = Some (set_entry i (te\<lparr>te_ref := Suc n\<rparr>) s)"
  using assms by (simp add: trust_entry_put_def set_entry_def)

lemma drop_set_single:
  assumes "te_heap s i = Some te"
  shows "drop_set {i} s = (ht_del i s)\<lparr>te_heap := (te_heap s)(i := drop_creation te)\<rparr>"
proof (rule trust_state.equality)
  show "te_heap (drop_set {i} s) = te_heap ((ht_del i s)\<lparr>te_heap := (te_heap s)(i := drop_creation te)\<rparr>)"
    by (rule ext) (simp add: drop_set_def assms)
qed (simp_all add: drop_set_def ht_del_def)

text \<open>The find reference and the creation reference dropped, after the entry was unlinked.\<close>

lemma revoke_puts:
  assumes "trust_inv x s" "linked s i te"
  shows "trust_entry_put (Some i) (ht_del i (set_entry i (te\<lparr>te_ref := Suc (te_ref te)\<rparr>) s))
      = Some (ht_del i s)" (is "?put1")
    and "trust_entry_put (Some i) (ht_del i s) = Some (drop_set {i} s)" (is "?put2")
proof -
  have i: "te_heap s i = Some te" "te_ref te = Suc (x i)" using assms linked_ref [OF assms] by (simp_all add: linked_def)
  show ?put1 using i by (simp add: trust_entry_put_def ht_del_def set_entry_def fun_upd_idem)
  show ?put2
    using i by (simp add: drop_set_single trust_entry_put_def trust_entry_release_def ht_del_def drop_creation_def option.map_comp o_def)
qed

text \<open>The same two references dropped by the reaper, for an entry that has no reader.\<close>

lemma expire_puts:
  assumes "trust_inv x s" "linked s i te" "x i = 0"
  shows "trust_entry_put (Some i) (set_entry i (te\<lparr>te_ref := Suc (te_ref te)\<rparr>) s) = Some s"
    and "trust_entry_put (Some i) s = Some (drop_set {i} s)"
proof -
  have i: "te_heap s i = Some te" "te_ref te = 1" using assms linked_ref [OF assms(1,2)] by (simp_all add: linked_def)
  show "trust_entry_put (Some i) (set_entry i (te\<lparr>te_ref := Suc (te_ref te)\<rparr>) s) = Some s"
    using i put_held [of "set_entry i (te\<lparr>te_ref := Suc (te_ref te)\<rparr>) s" i "te\<lparr>te_ref := Suc (te_ref te)\<rparr>" 0]
    by (simp add: set_entry_same)
  show "trust_entry_put (Some i) s = Some (drop_set {i} s)"
    using i by (simp add: drop_set_single trust_entry_put_def trust_entry_release_def ht_del_def drop_creation_def option.map_comp o_def)
qed

text \<open>A find reference that is dropped again leaves the entry as it was written.\<close>

lemma put_restores:
  assumes "trust_inv x s" "linked s i te" "te_ref te' = Suc (te_ref te)"
  shows "trust_entry_put (Some i) (set_entry i te' s) = Some (set_entry i (te'\<lparr>te_ref := te_ref te\<rparr>) s)"
  using put_held [of "set_entry i te' s" i te' "x i"] assms(3) linked_ref [OF assms(1,2)] by simp

section \<open>Readers\<close>

lemma reader_get_inv:
  assumes "trust_inv x s" "linked s i te"
  shows "trust_inv (x(i := Suc (x i))) (set_entry i (te\<lparr>te_ref := Suc (te_ref te)\<rparr>) s)"
    and "abs_map (set_entry i (te\<lparr>te_ref := Suc (te_ref te)\<rparr>) s) = abs_map s"
proof -
  let ?t = "te\<lparr>te_ref := Suc (te_ref te)\<rparr>" and ?x = "x(i := Suc (x i))"
  let ?s = "set_entry i ?t s"
  have i: "i \<in> set (trust_tbl s)" "te_heap s i = Some te" "te_ref te = Suc (x i)"
    using assms linked_ref [OF assms] by (simp_all add: linked_def)
  have lk: "linked ?s j tj \<Longrightarrow> \<exists>t0. linked s j t0 \<and> te_key t0 = te_key tj \<and> lease t0 = lease tj" for j tj
    using assms(2) by (auto simp: linked_set_entry split: if_splits)
  show inv: "trust_inv ?x ?s"
  proof (rule trust_invI)
    show "\<exists>tj. te_heap ?s j = Some tj \<and> te_ref tj = Suc (?x j)" if "j \<in> set (trust_tbl ?s)" for j
      using that i linked_heap [OF assms(1), of j] by (auto simp: linked_def)
    show "te_ref tj = ?x j \<and> 0 < ?x j" if "te_heap ?s j = Some tj" "j \<notin> set (trust_tbl ?s)" for j tj
      using that i inv_unlinked [OF assms(1)] by (auto split: if_splits)
    show "?x j = 0" if "te_heap ?s j = None" for j
      using that inv_free [OF assms(1)] by (auto split: if_splits)
    show "te_heap ?s j = None" if "te_next ?s \<le> j" for j
      using that inv_fresh [OF assms(1), of j] i by auto
    show "j = l" if "linked ?s j tj" "linked ?s l tl" "te_key tj = te_key tl" for j l tj tl
      using lk [OF that(1)] lk [OF that(2)] that(3) linked_unique [OF assms(1)] by metis
  qed (use inv_distinct [OF assms(1)] in simp)
  show "abs_map ?s = abs_map s"
  proof (rule abs_map_ext [OF inv])
    fix k v
    have "(\<exists>j tj. linked ?s j tj \<and> te_key tj = k \<and> v = lease tj) \<longleftrightarrow>
      (\<exists>j tj. linked s j tj \<and> te_key tj = k \<and> v = lease tj)"
    proof
      assume "\<exists>j tj. linked ?s j tj \<and> te_key tj = k \<and> v = lease tj"
      then obtain j tj where "linked ?s j tj" "te_key tj = k" "v = lease tj" by blast
      with lk [of j tj] show "\<exists>j tj. linked s j tj \<and> te_key tj = k \<and> v = lease tj" by force
    next
      assume "\<exists>j tj. linked s j tj \<and> te_key tj = k \<and> v = lease tj"
      then obtain j tj where j: "linked s j tj" "te_key tj = k" "v = lease tj" by blast
      show "\<exists>j tj. linked ?s j tj \<and> te_key tj = k \<and> v = lease tj"
      proof (cases "j = i")
        case True
        with j i have "linked ?s i ?t \<and> te_key ?t = k \<and> v = lease ?t" by (simp add: linked_def)
        then show ?thesis by blast
      next
        case False
        with j have "linked ?s j tj" by (simp add: linked_set_entry)
        with j show ?thesis by blast
      qed
    qed
    then show "(\<exists>j tj. linked ?s j tj \<and> te_key tj = k \<and> v = lease tj) \<longleftrightarrow> abs_map s k = Some v"
      unfolding abs_map_Some [OF assms(1)] .
  qed
qed

end
