(* ===== verification/TrustRefine.thy ===== *)
theory TrustRefine
  imports TrustSpec
begin

text \<open>
  The operations of the trust table refine operations on a map. Each loop of the code has its
  effect in closed form; \<open>trust_spec\<close> is the specification and \<open>trust_table_refines\<close> the
  simulation.
\<close>

section \<open>The renewal pass\<close>

definition renew_lease :: "u32 \<Rightarrow> u64 \<Rightarrow> trust_entry \<Rightarrow> trust_entry" where
  "renew_lease lease_sec now te =
     (if te_expire_ns te = 0 \<or> te_expire_ns te \<le> now
         \<or> te_expire_ns te - now \<ge> (ucast lease_sec * 1000000000) div 2 then te
      else te\<lparr>te_expire_ns := now + ucast lease_sec * 1000000000\<rparr>)"

lemma renew_lease_simps [simp]:
  "te_key (renew_lease l n te) = te_key te" "te_ref (renew_lease l n te) = te_ref te"
  "renew_lease l n (te\<lparr>te_ref := r\<rparr>) = (renew_lease l n te)\<lparr>te_ref := r\<rparr>"
  by (simp_all add: renew_lease_def te_key_def)

lemma renewal_from_run:
  assumes "trust_inv x s" "distinct ids" "set ids \<subseteq> set (trust_tbl s)"
  shows "\<exists>s'. renewal_from l n ids s = Some s' \<and> trust_inv x s' \<and> trust_ht s' = trust_ht s
    \<and> (\<forall>j. te_heap s' j = (if j \<in> set ids then map_option (renew_lease l n) (te_heap s j) else te_heap s j))"
  using assms
proof (induction ids arbitrary: s)
  case Nil
  then show ?case by simp
next
  case (Cons i ids)
  obtain te where te: "linked s i te" using linked_heap [OF Cons.prems(1)] Cons.prems(3) by force
  let ?t = "te\<lparr>te_ref := Suc (te_ref te)\<rparr>" and ?s1 = "set_entry i (renew_lease l n te) s"
  have heap: "te_heap s i = Some te" using te by (simp add: linked_def)
  have ref: "0 < te_ref te" using linked_ref [OF Cons.prems(1) te] by simp
  have "renewal_from l n (i # ids) s = renewal_from l n ids ?s1"
    using get_linked [OF Cons.prems(1) te] put_restores [OF Cons.prems(1) te, of "renew_lease l n ?t"]
      put_restores [OF Cons.prems(1) te, of ?t]
    by (auto simp: renew_lease_def Let_def set_entry_def)
  moreover have inv: "trust_inv x ?s1" using set_entry_inv [OF Cons.prems(1) te] by simp
  moreover have "trust_tbl ?s1 = trust_tbl s" by simp
  ultimately show ?case using Cons.IH [OF inv] Cons.prems heap by auto
qed

lemma renewal_abs:
  assumes "trust_inv x s" "trust_inv x s'" "trust_ht s' = trust_ht s"
    and h: "\<forall>j. te_heap s' j = (if j \<in> set (trust_tbl s) then map_option (renew_lease l n) (te_heap s j) else te_heap s j)"
  shows "abs_map s' = map_option (renew_lease l n) \<circ> abs_map s"
proof (rule abs_map_ext [OF assms(2)])
  fix k v
  have t: "trust_tbl s' = trust_tbl s" using assms(3) by (rule trust_tbl_cong)
  have lk: "linked s' j t' \<longleftrightarrow> (\<exists>te. linked s j te \<and> t' = renew_lease l n te)" for j t'
    using h t by (auto simp: linked_def)
  have "(\<exists>j t'. linked s' j t' \<and> te_key t' = k \<and> v = lease t') \<longleftrightarrow>
      (\<exists>j te. linked s j te \<and> te_key te = k \<and> v = renew_lease l n (lease te))"
  proof
    assume "\<exists>j t'. linked s' j t' \<and> te_key t' = k \<and> v = lease t'"
    then obtain j te where "linked s j te" "te_key (renew_lease l n te) = k" "v = lease (renew_lease l n te)"
      unfolding lk by blast
    then show "\<exists>j te. linked s j te \<and> te_key te = k \<and> v = renew_lease l n (lease te)"
      by (intro exI [of _ j] exI [of _ te]) simp
  next
    assume "\<exists>j te. linked s j te \<and> te_key te = k \<and> v = renew_lease l n (lease te)"
    then obtain j te where "linked s j te" "te_key te = k" "v = renew_lease l n (lease te)" by blast
    then have "linked s' j (renew_lease l n te) \<and> te_key (renew_lease l n te) = k \<and> v = lease (renew_lease l n te)"
      unfolding lk by auto
    then show "\<exists>j t'. linked s' j t' \<and> te_key t' = k \<and> v = lease t'" by blast
  qed
  also have "\<dots> \<longleftrightarrow> (\<exists>u. abs_map s k = Some u \<and> v = renew_lease l n u)"
    unfolding abs_map_Some [OF assms(1)] by blast
  also have "\<dots> \<longleftrightarrow> (map_option (renew_lease l n) \<circ> abs_map s) k = Some v" by auto
  finally show "(\<exists>j t'. linked s' j t' \<and> te_key t' = k \<and> v = lease t') \<longleftrightarrow>
      (map_option (renew_lease l n) \<circ> abs_map s) k = Some v" .
qed

text \<open>What every operation below is shown to do: it returns, keeps the invariant, and acts on the map.\<close>

definition effect :: "(nat \<Rightarrow> nat) \<Rightarrow> trust_state \<Rightarrow> trust_state option \<Rightarrow> (trust_map \<Rightarrow> trust_map) \<Rightarrow> bool" where
  "effect x s run f \<longleftrightarrow> (\<exists>s'. run = Some s' \<and> trust_inv x s' \<and> trust_abs s' = map_option f (trust_abs s))"

lemma effectI:
  assumes "run = Some s'" "trust_inv x s'" "trust_ht s' = None \<longleftrightarrow> trust_ht s = None"
    "trust_ht s \<noteq> None \<Longrightarrow> abs_map s' = f (abs_map s)"
  shows "effect x s run f"
  using assms unfolding effect_def trust_abs_eq by (cases "trust_ht s"; cases "trust_ht s'") auto

lemma effect_refl: "trust_inv x s \<Longrightarrow> effect x s (Some s) (\<lambda>m. m)"
  by (simp add: effect_def option.map_ident)

lemma renewal_scan_effect:
  assumes "trust_inv x s"
  shows "effect x s (trust_stateid_renewal_scan l n s) (\<lambda>m. map_option (renew_lease l n) \<circ> m)"
proof (cases "trust_ht s")
  case None
  with assms show ?thesis by (auto simp: effect_def trust_stateid_renewal_scan_def trust_abs_def)
next
  case (Some ids)
  then have t: "trust_tbl s = ids" by (simp add: trust_tbl_def)
  obtain s' where s': "renewal_from l n ids s = Some s'" "trust_inv x s'" "trust_ht s' = trust_ht s"
    "\<forall>j. te_heap s' j = (if j \<in> set ids then map_option (renew_lease l n) (te_heap s j) else te_heap s j)"
    using renewal_from_run [OF assms, of ids l n] inv_distinct [OF assms] t by auto
  show ?thesis
    by (rule effectI [of _ s']) (use s' Some t renewal_abs [OF assms s'(2,3)] in \<open>simp_all add: trust_stateid_renewal_scan_def\<close>)
qed

section \<open>The expiry pass\<close>

definition expired :: "u64 \<Rightarrow> trust_entry \<Rightarrow> bool" where
  "expired now te \<longleftrightarrow> te_expire_ns te \<noteq> 0 \<and> te_expire_ns te \<le> now"

definition same_tbl :: "trust_state \<Rightarrow> trust_state \<Rightarrow> bool" where
  "same_tbl s t \<longleftrightarrow> trust_ht s = trust_ht t \<and> te_heap s = te_heap t \<and> te_next s = te_next t"

lemma same_tbl_drop: "same_tbl s t \<Longrightarrow> same_tbl (drop_set B s) (drop_set B t)"
  by (simp add: same_tbl_def drop_set_def cong: if_cong)

lemma same_tbl_trans: "same_tbl r s \<Longrightarrow> same_tbl s t \<Longrightarrow> same_tbl r t"
  by (simp add: same_tbl_def)

lemma same_tbl_bump: "same_tbl (ts_bump f s) s"
  by (simp add: same_tbl_def)

lemma same_tblD:
  assumes "same_tbl s t"
  shows "trust_inv x s = trust_inv x t" "abs_map s = abs_map t" "linked s = linked t"
    "trust_ht s = trust_ht t" "trust_tbl s = trust_tbl t"
  using assms same_table [of s t] by (simp_all add: same_tbl_def trust_tbl_def)

lemma expiry_from_run:
  assumes "trust_inv x s" "distinct ids" "set ids \<subseteq> set (trust_tbl s)"
    and "\<forall>i te. linked s i te \<longrightarrow> expired n te \<longrightarrow> x i = 0"
  shows "\<exists>s'. expiry_from n ids s = Some s'
    \<and> same_tbl s' (drop_set {i \<in> set ids. \<exists>te. linked s i te \<and> expired n te} s)"
  using assms
proof (induction ids arbitrary: s)
  case Nil
  then show ?case by (simp add: same_tbl_def)
next
  case (Cons i ids)
  let ?B = "\<lambda>ids s. {i \<in> set ids. \<exists>te. linked s i te \<and> expired n te}"
  obtain te where te: "linked s i te" using linked_heap [OF Cons.prems(1)] Cons.prems(3) by force
  have heap: "te_heap s i = Some te" using te by (simp add: linked_def)
  note get = get_linked [OF Cons.prems(1) te]
  have only: "linked s i t \<longleftrightarrow> t = te" for t using te by (auto simp: linked_def)
  show ?case
  proof (cases "expired n te")
    case False
    have "trust_entry_put (Some i) (set_entry i (te\<lparr>te_ref := Suc (te_ref te)\<rparr>) s) = Some s"
      using put_restores [OF Cons.prems(1) te, of "te\<lparr>te_ref := Suc (te_ref te)\<rparr>"] by (simp add: set_entry_same heap)
    then have "expiry_from n (i # ids) s = expiry_from n ids s"
      using get False by (auto simp: expired_def Let_def)
    moreover have "?B (i # ids) s = ?B ids s" using False only by auto
    ultimately show ?thesis using Cons.IH [of s] Cons.prems by simp
  next
    case True
    have x: "x i = 0" using Cons.prems(4) te True by blast
    let ?s1 = "ts_bump ts_expired_update (drop_set {i} s)"
    have lk: "linked ?s1 j t \<longleftrightarrow> j \<noteq> i \<and> linked s j t" for j t by (simp add: linked_drop_set)
    have run: "expiry_from n (i # ids) s = expiry_from n ids ?s1"
      using get True expire_puts [OF Cons.prems(1) te x] by (auto simp: expired_def Let_def)
    have inv: "trust_inv x ?s1" using drop_set_inv [OF Cons.prems(1)] te by (simp add: linked_def)
    have ids: "i \<notin> set ids" "distinct ids" using Cons.prems(2) by simp_all
    have sub: "set ids \<subseteq> set (trust_tbl ?s1)" using Cons.prems(3) ids by (auto simp: drop_set_tbl)
    have guard: "\<forall>j t. linked ?s1 j t \<longrightarrow> expired n t \<longrightarrow> x j = 0" using Cons.prems(4) lk by blast
    have B: "?B ids ?s1 = ?B ids s" using ids lk by auto
    obtain s' where s': "expiry_from n ids ?s1 = Some s'" "same_tbl s' (drop_set (?B ids s) ?s1)"
      using Cons.IH [OF inv ids(2) sub guard] unfolding B by blast
    have "same_tbl (drop_set (?B ids s) ?s1) (drop_set (?B ids s) (drop_set {i} s))"
      by (rule same_tbl_drop [OF same_tbl_bump])
    also have "drop_set (?B ids s) (drop_set {i} s) = drop_set (?B (i # ids) s) s"
      using ids te True by (subst drop_set_drop_set) (auto intro!: arg_cong [where f = "\<lambda>B. drop_set B s"])
    finally have "same_tbl (drop_set (?B ids s) ?s1) (drop_set (?B (i # ids) s) s)" .
    from same_tbl_trans [OF s'(2) this] s'(1) show ?thesis unfolding run by blast
  qed
qed

definition reap_map :: "u64 \<Rightarrow> trust_map \<Rightarrow> trust_map" where
  "reap_map n m = (\<lambda>k. Option.bind (m k) (\<lambda>v. if expired n v then None else Some v))"

lemma expired_lease [simp]: "expired n (te\<lparr>te_ref := r\<rparr>) = expired n te"
  by (simp add: expired_def)

lemma expiry_effect:
  assumes "trust_inv x s" "trust_ht s = Some ids" "\<forall>i te. linked s i te \<longrightarrow> expired n te \<longrightarrow> x i = 0"
  shows "\<exists>s'. expiry_from n ids s = Some s' \<and> trust_inv x s' \<and> trust_ht s' \<noteq> None
    \<and> abs_map s' = reap_map n (abs_map s)"
proof -
  have t: "trust_tbl s = ids" using assms(2) by (simp add: trust_tbl_def)
  have B: "{i \<in> set ids. \<exists>te. linked s i te \<and> expired n te} = {i. \<exists>te. linked s i te \<and> expired n (lease te)}"
    (is "?B = _") using t by (auto simp: linked_def)
  obtain s' where s': "expiry_from n ids s = Some s'" "same_tbl s' (drop_set ?B s)"
    using expiry_from_run [OF assms(1) _ _ assms(3), of ids] inv_distinct [OF assms(1)] t by auto
  have "trust_inv x (drop_set ?B s)" using t by (intro drop_set_inv [OF assms(1)]) auto
  moreover have "abs_map (drop_set ?B s) = reap_map n (abs_map s)"
    unfolding B reap_map_def by (rule drop_set_abs [OF assms(1) refl])
  moreover have "trust_ht (drop_set ?B s) \<noteq> None" using assms(2) by (simp add: drop_set_def)
  ultimately show ?thesis using s' same_tblD [OF s'(2)] by auto
qed

definition cycle_map :: "u64 \<Rightarrow> u64 \<Rightarrow> u32 option \<Rightarrow> trust_map \<Rightarrow> trust_map" where
  "cycle_map now now2 ss m = (case ss of
       None \<Rightarrow> reap_map now m
     | Some l \<Rightarrow> map_option (renew_lease l now2) \<circ> reap_map now m)"

lemma reaper_cycle_effect:
  assumes "trust_inv x s" "\<forall>i te. linked s i te \<longrightarrow> expired now te \<longrightarrow> x i = 0"
  shows "effect x s (trust_reaper_cycle now now2 ss s) (cycle_map now now2 ss)"
proof (cases "trust_ht s")
  case None
  with assms(1) show ?thesis by (auto simp: effect_def trust_reaper_cycle_def trust_abs_def)
next
  case (Some ids)
  obtain s1 where s1: "expiry_from now ids s = Some s1" "trust_inv x s1" "trust_ht s1 \<noteq> None"
    "abs_map s1 = reap_map now (abs_map s)"
    using expiry_effect [OF assms(1) Some assms(2)] by blast
  show ?thesis
  proof (cases ss)
    case None
    show ?thesis
      by (rule effectI [of _ s1]) (use None Some s1 in \<open>simp_all add: trust_reaper_cycle_def cycle_map_def\<close>)
  next
    case (Some l)
    obtain s2 where "trust_stateid_renewal_scan l now2 s1 = Some s2" "trust_inv x s2"
      "trust_abs s2 = map_option (\<lambda>m. map_option (renew_lease l now2) \<circ> m) (trust_abs s1)"
      using renewal_scan_effect [OF s1(2), of l now2] by (auto simp: effect_def)
    then show ?thesis
      using Some s1 \<open>trust_ht s = Some ids\<close>
      by (auto simp: effect_def trust_reaper_cycle_def cycle_map_def trust_abs_eq)
  qed
qed

section \<open>Bulk revocation\<close>

text \<open>The entries of the batch, each with one more reference.\<close>

definition hold :: "nat set \<Rightarrow> trust_state \<Rightarrow> trust_state" where
  "hold I s = s\<lparr>te_heap := (\<lambda>i. if i \<in> I then map_option (\<lambda>te. te\<lparr>te_ref := Suc (te_ref te)\<rparr>) (te_heap s i)
     else te_heap s i)\<rparr>"

lemma hold_insert:
  assumes "te_heap s i = Some te" "i \<notin> I"
  shows "set_entry i (te\<lparr>te_ref := Suc (te_ref te)\<rparr>) (hold I s) = hold (insert i I) s"
proof (rule trust_state.equality)
  show "te_heap (set_entry i (te\<lparr>te_ref := Suc (te_ref te)\<rparr>) (hold I s)) = te_heap (hold (insert i I) s)"
    by (rule ext) (use assms in \<open>simp add: hold_def\<close>)
qed (simp_all add: hold_def)

definition matching :: "u64 \<Rightarrow> u64 \<Rightarrow> trust_state \<Rightarrow> nat \<Rightarrow> bool" where
  "matching issuer target s i \<longleftrightarrow> (\<exists>te. linked s i te \<and> \<not> bulk_skip issuer target te)"

lemma bulk_collect_run:
  assumes "trust_inv x s" "distinct (batch @ ids)" "set ids \<subseteq> set (trust_tbl s)"
    "\<forall>i. i \<in> set batch \<longrightarrow> matching issuer target s i"
  shows "\<exists>b full. bulk_collect issuer target batch ids (hold (set batch) s) = Some (b, full, hold (set b) s)
    \<and> distinct b \<and> (\<forall>i. i \<in> set b \<longrightarrow> matching issuer target s i)
    \<and> (\<not> full \<longrightarrow> (\<forall>i. i \<in> set ids \<longrightarrow> matching issuer target s i \<longrightarrow> i \<in> set b))
    \<and> set batch \<subseteq> set b"
  using assms(2-)
proof (induction ids arbitrary: batch)
  case Nil
  then show ?case by (intro exI [of _ batch] exI [of _ False]) simp
next
  case (Cons i ids)
  let ?s = "hold (set batch) s"
  obtain te where te: "linked s i te" using linked_heap [OF assms(1)] Cons.prems(2) by force
  have i: "i \<notin> set batch" "te_heap s i = Some te" "te_ref te = Suc (x i)"
    using Cons.prems(1) te linked_ref [OF assms(1) te] by (simp_all add: linked_def)
  then have h: "te_heap ?s i = Some te" by (simp add: hold_def)
  have m: "matching issuer target s i \<longleftrightarrow> \<not> bulk_skip issuer target te"
    using te by (auto simp: matching_def linked_def)
  show ?case
  proof (cases "bulk_skip issuer target te")
    case True
    have "\<exists>b full. bulk_collect issuer target batch ids ?s = Some (b, full, hold (set b) s)
      \<and> distinct b \<and> (\<forall>i. i \<in> set b \<longrightarrow> matching issuer target s i)
      \<and> (\<not> full \<longrightarrow> (\<forall>i. i \<in> set ids \<longrightarrow> matching issuer target s i \<longrightarrow> i \<in> set b)) \<and> set batch \<subseteq> set b"
      using Cons.prems by (intro Cons.IH) simp_all
    moreover have "bulk_collect issuer target batch (i # ids) ?s = bulk_collect issuer target batch ids ?s"
      using True h by simp
    ultimately show ?thesis using True m by (auto simp del: bulk_collect.simps)
  next
    case False
    have get: "urcu_ref_get_unless_zero i ?s = Some (True, hold (set (batch @ [i])) s)"
      using h i hold_insert [OF i(2,1)] by (simp add: urcu_ref_get_unless_zero_def set_entry_def)
    show ?thesis
    proof (cases "length (batch @ [i]) = BULK_BATCH")
      case True
      then have "bulk_collect issuer target batch (i # ids) ?s = Some (batch @ [i], True, hold (set (batch @ [i])) s)"
        using h False get by simp
      then show ?thesis using Cons.prems m False by (intro exI [of _ "batch @ [i]"] exI [of _ True]) (auto simp del: bulk_collect.simps)
    next
      case nf: False
      obtain b full where b: "bulk_collect issuer target (batch @ [i]) ids (hold (set (batch @ [i])) s) = Some (b, full, hold (set b) s)"
        "distinct b" "\<forall>i. i \<in> set b \<longrightarrow> matching issuer target s i"
        "\<not> full \<longrightarrow> (\<forall>i. i \<in> set ids \<longrightarrow> matching issuer target s i \<longrightarrow> i \<in> set b)" "set (batch @ [i]) \<subseteq> set b"
        using Cons.IH [of "batch @ [i]"] Cons.prems m False by auto
      have run: "bulk_collect issuer target batch (i # ids) ?s = Some (b, full, hold (set b) s)"
        using h False get nf b(1) by simp
      show ?thesis
        by (rule exI [of _ b], rule exI [of _ full], intro conjI, rule run) (use b(2-5) in auto)
    qed
  qed
qed

text \<open>Both references dropped for entries that are no longer linked.\<close>

definition drop_two :: "trust_entry \<Rightarrow> trust_entry option" where
  "drop_two te = (if te_ref te = 2 then None else Some (te\<lparr>te_ref := te_ref te - 2\<rparr>))"

lemma bulk_put_run:
  assumes "distinct b" "\<forall>i. i \<in> set b \<longrightarrow> i \<notin> set (trust_tbl s) \<and> (\<exists>te. te_heap s i = Some te \<and> 2 \<le> te_ref te)"
  shows "bulk_put b s = Some (s\<lparr>te_heap := (\<lambda>i. if i \<in> set b then Option.bind (te_heap s i) drop_two else te_heap s i)\<rparr>)"
  using assms
proof (induction b arbitrary: s)
  case Nil
  then show ?case by simp
next
  case (Cons i b)
  obtain te where te: "te_heap s i = Some te" "2 \<le> te_ref te" "i \<notin> set (trust_tbl s)" using Cons.prems(2) by auto
  let ?s1 = "s\<lparr>te_heap := (te_heap s)(i := drop_two te)\<rparr>"
  have del: "map_option (filter (\<lambda>j. j \<noteq> i)) (trust_ht s) = trust_ht s"
    using te(3) by (cases "trust_ht s") (auto simp: trust_tbl_def intro: filter_True)
  have puts: "do { s \<leftarrow> trust_entry_put (Some i) s; trust_entry_put (Some i) s } = Some ?s1"
  proof (cases "te_ref te = 2")
    case True
    then show ?thesis using te del
      by (simp add: trust_entry_put_def trust_entry_release_def ht_del_def drop_two_def)
  next
    case False
    then obtain n where "te_ref te = Suc (Suc (Suc n))"
      using te(2) by (metis add_2_eq_Suc le_Suc_ex not0_implies_Suc add.right_neutral numeral_2_eq_2)
    then show ?thesis using te by (simp add: trust_entry_put_def drop_two_def)
  qed
  have run: "bulk_put (i # b) s = bulk_put b ?s1"
  proof -
    have "bulk_put (i # b) s = Option.bind (do { s \<leftarrow> trust_entry_put (Some i) s; trust_entry_put (Some i) s }) (bulk_put b)"
      by (simp add: Option.bind_assoc)
    then show ?thesis unfolding puts by simp
  qed
  have t: "trust_tbl ?s1 = trust_tbl s" by (simp add: trust_tbl_def)
  have "bulk_put b ?s1 = Some (?s1\<lparr>te_heap := (\<lambda>j. if j \<in> set b then Option.bind (te_heap ?s1 j) drop_two else te_heap ?s1 j)\<rparr>)"
    using Cons.prems t by (intro Cons.IH) auto
  also have "(\<lambda>j. if j \<in> set b then Option.bind (te_heap ?s1 j) drop_two else te_heap ?s1 j) =
      (\<lambda>j. if j \<in> set (i # b) then Option.bind (te_heap s j) drop_two else te_heap s j)"
    using Cons.prems(1) te by (intro ext) auto
  also have "?s1\<lparr>te_heap := \<dots>\<rparr> = s\<lparr>te_heap := \<dots>\<rparr>" by simp
  finally show ?case unfolding run .
qed

lemma fold_ht_del_simps:
  "te_heap (fold ht_del b s) = te_heap s \<and> te_next (fold ht_del b s) = te_next s
     \<and> ts_counters (fold ht_del b s) = ts_counters s"
  by (induction b arbitrary: s) (simp_all add: ht_del_def)

lemma fold_ht_del: "fold ht_del b s = s\<lparr>trust_ht := trust_ht (fold ht_del b s)\<rparr>"
  by (rule trust_state.equality) (simp_all add: fold_ht_del_simps)

lemma bulk_pass:
  assumes "trust_inv x s"
  shows "\<exists>b full. bulk_collect issuer target [] (trust_tbl s) s = Some (b, full, hold (set b) s)
    \<and> bulk_process b (hold (set b) s) = Some (drop_set (set b) s)
    \<and> (\<forall>i. i \<in> set b \<longrightarrow> matching issuer target s i)
    \<and> (\<not> full \<longrightarrow> (\<forall>i. matching issuer target s i \<longrightarrow> i \<in> set b))"
proof -
  have nil: "hold (set []) s = s" by (simp add: hold_def)
  obtain b full where b: "bulk_collect issuer target [] (trust_tbl s) s = Some (b, full, hold (set b) s)" "distinct b"
    "\<forall>i. i \<in> set b \<longrightarrow> matching issuer target s i"
    "\<not> full \<longrightarrow> (\<forall>i. i \<in> set (trust_tbl s) \<longrightarrow> matching issuer target s i \<longrightarrow> i \<in> set b)"
    using bulk_collect_run [OF assms, of "[]" "trust_tbl s" issuer target] inv_distinct [OF assms] unfolding nil by auto
  let ?t = "fold ht_del b (hold (set b) s)"
  have ht: "trust_ht ?t = map_option (filter (\<lambda>j. j \<notin> set b)) (trust_ht s)"
    by (simp add: trust_ht_fold_del hold_def)
  have t: "?t = (hold (set b) s)\<lparr>trust_ht := map_option (filter (\<lambda>j. j \<notin> set b)) (trust_ht s)\<rparr>"
    using fold_ht_del [of b "hold (set b) s"] unfolding ht .
  let ?u = "(hold (set b) s)\<lparr>trust_ht := map_option (filter (\<lambda>j. j \<notin> set b)) (trust_ht s)\<rparr>"
  have held: "\<exists>te. te_heap s i = Some te \<and> te_ref te = Suc (x i)" if "i \<in> set b" for i
    using b(3) that linked_ref [OF assms] by (auto simp: matching_def linked_def)
  have "bulk_process b (hold (set b) s) =
      Some (?t\<lparr>te_heap := (\<lambda>i. if i \<in> set b then Option.bind (te_heap ?t i) drop_two else te_heap ?t i)\<rparr>)"
    unfolding bulk_process_def
  proof (rule bulk_put_run [OF b(2)], intro allI impI)
    fix i
    assume "i \<in> set b"
    with held [OF this] show "i \<notin> set (trust_tbl ?t) \<and> (\<exists>te. te_heap ?t i = Some te \<and> 2 \<le> te_ref te)"
      unfolding t by (auto simp: hold_def trust_tbl_def split: option.splits)
  qed
  also have "?t\<lparr>te_heap := (\<lambda>i. if i \<in> set b then Option.bind (te_heap ?t i) drop_two else te_heap ?t i)\<rparr> = drop_set (set b) s"
    unfolding t
  proof (rule trust_state.equality)
    show "te_heap (?u\<lparr>te_heap := (\<lambda>i. if i \<in> set b then Option.bind (te_heap ?u i) drop_two else te_heap ?u i)\<rparr>) =
        te_heap (drop_set (set b) s)"
    proof (rule ext)
      fix i
      show "te_heap (?u\<lparr>te_heap := (\<lambda>i. if i \<in> set b then Option.bind (te_heap ?u i) drop_two else te_heap ?u i)\<rparr>) i =
          te_heap (drop_set (set b) s) i"
      proof (cases "i \<in> set b")
        case True
        with held [OF True] show ?thesis
          by (auto simp: hold_def drop_set_def drop_two_def drop_creation_def)
      qed (simp add: hold_def drop_set_def)
    qed
  qed (simp_all add: hold_def drop_set_def)
  finally show ?thesis using b by (auto simp: matching_def linked_def)
qed

lemma matching_drop: "matching issuer target (drop_set B s) i \<longleftrightarrow> i \<notin> B \<and> matching issuer target s i"
  by (auto simp: matching_def linked_drop_set)

lemma bulk_restart_run:
  assumes "trust_inv x s"
  shows "bulk_restart issuer target s = Some (drop_set {i. matching issuer target s i} s)"
  using assms
proof (induction "length (trust_tbl s)" arbitrary: s rule: less_induct)
  case less
  obtain b full where b: "bulk_collect issuer target [] (trust_tbl s) s = Some (b, full, hold (set b) s)"
    "bulk_process b (hold (set b) s) = Some (drop_set (set b) s)"
    "\<forall>i. i \<in> set b \<longrightarrow> matching issuer target s i" "\<not> full \<longrightarrow> (\<forall>i. matching issuer target s i \<longrightarrow> i \<in> set b)"
    using bulk_pass [OF less.prems, of issuer target] by (elim exE conjE)
  have run: "bulk_restart issuer target s =
      (if full then bulk_restart issuer target (drop_set (set b) s) else Some (drop_set (set b) s))"
    using b(1,2) by (subst bulk_restart.simps) simp
  show ?case
  proof (cases full)
    case False
    with b(3,4) have "set b = {i. matching issuer target s i}" by auto
    with run False show ?thesis by simp
  next
    case True
    let ?s = "drop_set (set b) s"
    have inv: "trust_inv x ?s" using b(3) by (intro drop_set_inv [OF less.prems]) (auto simp: matching_def linked_def)
    have "length (trust_tbl ?s) < length (trust_tbl s)"
      using bulk_pass_shrinks [of issuer target s b "hold (set b) s" ?s] b(1,2) True by simp
    then have "bulk_restart issuer target ?s = Some (drop_set {i. matching issuer target ?s i} ?s)"
      using less.hyps inv by blast
    also have "drop_set {i. matching issuer target ?s i} ?s = drop_set {i. matching issuer target s i} s"
      using b(3) by (subst drop_set_drop_set) (auto simp: matching_drop intro!: arg_cong [where f = "\<lambda>B. drop_set B s"])
    finally show ?thesis using run True by simp
  qed
qed

definition bulk_map :: "u64 \<Rightarrow> u64 \<Rightarrow> trust_map \<Rightarrow> trust_map" where
  "bulk_map issuer target m =
     (\<lambda>k. Option.bind (m k) (\<lambda>v. if te_issuer_clientid v = issuer \<and> (target = 0 \<or> te_target_clientid v = target)
        then None else Some v))"

lemma not_bulk_skip:
  "\<not> bulk_skip issuer target v \<longleftrightarrow> te_issuer_clientid v = issuer \<and> (target = 0 \<or> te_target_clientid v = target)"
  by (auto simp: bulk_skip_def)

lemma bulk_revoke_effect:
  assumes "trust_inv x s"
  shows "effect x s (trust_stateid_bulk_revoke_scoped issuer target s) (bulk_map issuer target)"
proof (cases "trust_ht s")
  case None
  with assms show ?thesis by (auto simp: effect_def trust_stateid_bulk_revoke_scoped_def trust_abs_def)
next
  case (Some ids)
  let ?s = "ts_bump ts_bulk_revokes_update s" and ?P = "\<lambda>te. \<not> bulk_skip issuer target te"
  have inv: "trust_inv x ?s" using assms by simp
  have B: "{i. matching issuer target ?s i} = {i. \<exists>te. linked ?s i te \<and> ?P (lease te)}" (is "?B = _")
    by (simp add: matching_def bulk_skip_def)
  show ?thesis
  proof (rule effectI [of _ "drop_set ?B ?s"])
    show "trust_stateid_bulk_revoke_scoped issuer target s = Some (drop_set ?B ?s)"
      using Some bulk_restart_run [OF inv] by (simp add: trust_stateid_bulk_revoke_scoped_def)
    show "trust_inv x (drop_set ?B ?s)" by (intro drop_set_inv [OF inv]) (auto simp: matching_def linked_def)
    show "abs_map (drop_set ?B ?s) = bulk_map issuer target (abs_map s)"
      unfolding drop_set_abs [OF inv B] not_bulk_skip by (simp add: bulk_map_def)
  qed (use Some in \<open>simp add: drop_set_def\<close>)
qed

section \<open>Shutdown\<close>

lemma drain_from_run:
  assumes "distinct ids" "\<forall>i. i \<in> set ids \<longrightarrow> (\<exists>te. te_heap s i = Some te \<and> 0 < te_ref te)"
  shows "\<exists>s'. drain_from ids s = Some s' \<and> te_next s' = te_next s
    \<and> te_heap s' = (\<lambda>i. if i \<in> set ids then Option.bind (te_heap s i) drop_creation else te_heap s i)"
  using assms
proof (induction ids arbitrary: s)
  case Nil
  then show ?case by simp
next
  case (Cons i ids)
  obtain te where te: "te_heap s i = Some te" "0 < te_ref te" using Cons.prems(2) by auto
  obtain s1 where s1: "trust_entry_put (Some i) s = Some s1" "te_next s1 = te_next s"
      "te_heap s1 = (te_heap s)(i := drop_creation te)"
    using te by (cases "te_ref te = 1") (simp_all add: trust_entry_put_def trust_entry_release_def ht_del_def drop_creation_def)
  have "\<exists>s'. drain_from ids s1 = Some s' \<and> te_next s' = te_next s1
    \<and> te_heap s' = (\<lambda>i. if i \<in> set ids then Option.bind (te_heap s1 i) drop_creation else te_heap s1 i)"
    using Cons.prems s1(3) by (intro Cons.IH) auto
  moreover have "(\<lambda>j. if j \<in> set ids then Option.bind (te_heap s1 j) drop_creation else te_heap s1 j) =
      (\<lambda>j. if j \<in> set (i # ids) then Option.bind (te_heap s j) drop_creation else te_heap s j)"
    using Cons.prems(1) te s1(3) by (intro ext) auto
  ultimately show ?case using s1 by simp
qed

lemma fini_run:
  assumes "trust_inv x s"
  shows "\<exists>s'. trust_stateid_fini s = Some s' \<and> trust_inv x s' \<and> trust_ht s' = None"
proof (cases "trust_ht s")
  case None
  with assms show ?thesis by (simp add: trust_stateid_fini_def)
next
  case (Some ids)
  then have t: "trust_tbl s = ids" by (simp add: trust_tbl_def)
  have live: "\<forall>i. i \<in> set ids \<longrightarrow> (\<exists>te. te_heap s i = Some te \<and> 0 < te_ref te)"
    using linked_heap [OF assms] t by (fastforce simp: linked_def)
  obtain s1 where s1: "drain_from ids s = Some s1" "te_next s1 = te_next s"
    "te_heap s1 = (\<lambda>i. if i \<in> set ids then Option.bind (te_heap s i) drop_creation else te_heap s i)"
    using drain_from_run [OF _ live] inv_distinct [OF assms] t by blast
  let ?s = "s1\<lparr>trust_ht := None\<rparr>"
  have d: "trust_inv x (drop_set (set ids) s)" using t by (intro drop_set_inv [OF assms]) simp
  have heap: "te_heap ?s = te_heap (drop_set (set ids) s)" using s1(3) by (simp add: drop_set_def)
  have tbl: "set (trust_tbl (drop_set (set ids) s)) = {}" by (simp add: drop_set_tbl t)
  have "trust_inv x ?s"
  proof (rule trust_invI)
    show "te_ref te = x i \<and> 0 < x i" if "te_heap ?s i = Some te" for i te
      using inv_unlinked [OF d, of i te] that tbl unfolding heap by simp
    show "x i = 0" if "te_heap ?s i = None" for i using inv_free [OF d] that unfolding heap .
    show "te_heap ?s i = None" if "te_next ?s \<le> i" for i
      using inv_fresh [OF d, of i] that s1(2) unfolding heap by (simp add: drop_set_def)
  qed (simp_all add: trust_tbl_def linked_def)
  then show ?thesis using Some s1 by (simp add: trust_stateid_fini_def)
qed

section \<open>Registration\<close>

lemma add_trust_entry_inv:
  assumes inv: "trust_inv x s" and "trust_ht s = Some ids" and te: "te_ref te = 1"
    and k: "\<forall>i t. linked s i t \<longrightarrow> te_key t \<noteq> te_key te"
  shows "trust_inv x (add_trust_entry te s)"
    and "abs_map (add_trust_entry te s) = (abs_map s)(te_key te \<mapsto> lease te)"
proof -
  let ?s = "add_trust_entry te s" and ?n = "te_next s"
  have t: "trust_tbl s = ids" using assms(2) by (simp add: trust_tbl_def)
  have fresh: "te_heap s ?n = None" using inv_fresh [OF inv] by simp
  have nl: "?n \<notin> set ids" using linked_heap [OF inv, of ?n] t fresh by (auto simp: linked_def)
  have tbl: "trust_tbl ?s = ids @ [?n]" using assms(2) by (simp add: add_trust_entry_def ht_add_def trust_tbl_def)
  have heap: "te_heap ?s = (te_heap s)(?n \<mapsto> te)" "te_next ?s = ?n + 1"
    by (simp_all add: add_trust_entry_def ht_add_def)
  have lk: "linked ?s i u \<longleftrightarrow> (if i = ?n then u = te else linked s i u)" for i u
    using nl t fresh by (auto simp: linked_def tbl heap)
  have nolink: "\<not> linked s ?n u" for u using fresh by (simp add: linked_def)
  show i': "trust_inv x ?s"
  proof (rule trust_invI)
    show "distinct (trust_tbl ?s)" using inv_distinct [OF inv] nl t by (simp add: tbl)
    show "\<exists>t. te_heap ?s i = Some t \<and> te_ref t = Suc (x i)" if "i \<in> set (trust_tbl ?s)" for i
      using that linked_heap [OF inv, of i] t te inv_free [OF inv fresh] by (auto simp: tbl heap linked_def)
    show "te_ref t = x i \<and> 0 < x i" if "te_heap ?s i = Some t" "i \<notin> set (trust_tbl ?s)" for i t
      using that inv_unlinked [OF inv] t by (simp add: tbl heap)
    show "x i = 0" if "te_heap ?s i = None" for i using that inv_free [OF inv] by (simp add: heap split: if_splits)
    show "te_heap ?s i = None" if "te_next ?s \<le> i" for i using that inv_fresh [OF inv, of i] by (simp add: heap)
    show "i = j" if "linked ?s i ti" "linked ?s j tj" "te_key ti = te_key tj" for i j ti tj
      using that linked_unique [OF inv, of i ti j tj] k by (auto simp: lk split: if_splits)
  qed
  show "abs_map ?s = (abs_map s)(te_key te \<mapsto> lease te)"
  proof (rule abs_map_ext [OF i'])
    fix q v
    show "(\<exists>i u. linked ?s i u \<and> te_key u = q \<and> v = lease u) \<longleftrightarrow> ((abs_map s)(te_key te \<mapsto> lease te)) q = Some v"
    proof (cases "q = te_key te")
      case True
      have e: "linked ?s i u \<and> te_key u = q \<and> v = lease u \<longleftrightarrow> i = ?n \<and> u = te \<and> v = lease te" for i u
        using True k by (auto simp: lk)
      show ?thesis unfolding e using True by auto
    next
      case False
      have e: "linked ?s i u \<and> te_key u = q \<and> v = lease u \<longleftrightarrow> linked s i u \<and> te_key u = q \<and> v = lease u" for i u
        using False nolink unfolding lk by auto
      show ?thesis unfolding e using False abs_map_Some [OF inv, of q v] by simp
    qed
  qed
qed

text \<open>The registration on the map: a lease is created, or renewed by its owner.\<close>

definition register_map :: "bool \<Rightarrow> stateid4 \<Rightarrow> u64 \<Rightarrow> u64 \<Rightarrow> u64 \<Rightarrow> u64 \<Rightarrow> u32 \<Rightarrow> u32 \<Rightarrow> u64 \<Rightarrow> string option
    \<Rightarrow> trust_map \<Rightarrow> (errno + unit) \<times> trust_map" where
  "register_map mem stid sb ino issuer target client_id iomode expire princ m =
     (let k = (other stid, sb, ino) in case m k of
        Some v \<Rightarrow>
          if te_issuer_clientid v = issuer \<and> te_target_clientid v = target \<and> te_client_id v = client_id
          then (Inr (), m(k \<mapsto> v\<lparr>te_expire_ns := expire, te_flags := TRUST_ACTIVE, te_iomode := iomode\<rparr>))
          else (Inl EINVAL, m)
      | None \<Rightarrow>
          if mem then (Inr (), m(k \<mapsto> lease (new_trust_entry stid sb ino issuer target client_id iomode expire princ)))
          else (Inl ENOMEM, m))"

lemma register_run:
  assumes inv: "trust_inv x s" and ht: "trust_ht s = Some ids"
  shows "\<exists>r s'. trust_stateid_register_fh mem stid sb ino issuer target cid iomode expire princ s = Some (r, s')
    \<and> trust_inv x s' \<and> trust_ht s' \<noteq> None
    \<and> register_map (mem ''trust_entry'') stid sb ino issuer target cid iomode expire princ (abs_map s) = (r, abs_map s')"
proof -
  let ?P = "trust_match_fh \<lparr>k_other = other stid, k_sb = sb, k_ino = ino\<rparr>" and ?k = "(other stid, sb, ino)"
  have P: "?P te \<longleftrightarrow> te_key te = ?k" for te by (simp add: trust_match_fh_def te_key_def)
  show ?thesis
  proof (rule lookup_cases [OF inv ht, of ?P])
    assume l: "ht_lookup s ?P ids = Some None" and no: "\<And>i te. linked s i te \<Longrightarrow> \<not> ?P te"
    then have none: "abs_map s ?k = None" by (simp add: abs_map_None [OF inv] P)
    let ?te = "new_trust_entry stid sb ino issuer target cid iomode expire princ"
    have te: "te_key ?te = ?k" "te_ref ?te = 1" by (simp_all add: te_key_def new_trust_entry_def)
    have k: "\<forall>i t. linked s i t \<longrightarrow> te_key t \<noteq> te_key ?te" using no P te by metis
    note add = add_trust_entry_inv [OF inv ht te(2) k, unfolded te(1)]
    have ht': "trust_ht (add_trust_entry ?te s) \<noteq> None" using ht by (simp add: add_trust_entry_def ht_add_def)
    show ?thesis
      using l none inv ht add ht' by (cases "mem ''trust_entry''") (simp_all add: trust_stateid_register_fh_def register_map_def)
  next
    fix i te
    assume l: "ht_lookup s ?P ids = Some (Some i)" and te: "linked s i te" "?P te"
    have k: "te_key te = ?k" "te_ino te = ino" "te_sb te = sb" using te(2) by (simp_all add: P te_key_def)
    have some: "abs_map s ?k = Some (lease te)" using abs_map_linked [OF inv te(1)] k by simp
    have heap: "te_heap s i = Some te" using te(1) by (simp add: linked_def)
    let ?ok = "te_issuer_clientid te = issuer \<and> te_target_clientid te = target \<and> te_client_id te = cid"
    let ?u = "te\<lparr>te_expire_ns := expire, te_flags := TRUST_ACTIVE, te_iomode := iomode\<rparr>"
    show ?thesis
    proof (cases ?ok)
      case True
      let ?w = "te\<lparr>te_ref := Suc (te_ref te), te_expire_ns := expire, te_flags := TRUST_ACTIVE, te_iomode := iomode\<rparr>"
      have w: "?w\<lparr>te_ref := te_ref te\<rparr> = ?u" by (rule trust_entry.equality) simp_all
      have lu: "lease ?u = (lease te)\<lparr>te_expire_ns := expire, te_flags := TRUST_ACTIVE, te_iomode := iomode\<rparr>"
        by (rule trust_entry.equality) simp_all
      have u: "te_ref ?u = te_ref te" "te_key ?u = te_key te" by (simp_all add: te_key_def)
      have "trust_stateid_register_fh mem stid sb ino issuer target cid iomode expire princ s =
          Some (Inr (), ts_bump ts_renewals_update (set_entry i ?u s))"
        using ht l True k get_linked [OF inv te(1)] put_restores [OF inv te(1), of ?w] w
        by (simp add: trust_stateid_register_fh_def Let_def set_entry_def)
      then show ?thesis
        using some True ht k set_entry_inv [OF inv te(1) u] set_entry_abs [OF inv te(1) u] lu by (simp add: register_map_def)
    next
      case False
      have "trust_stateid_register_fh mem stid sb ino issuer target cid iomode expire princ s = Some (Inl EINVAL, s)"
        using ht l False k get_linked [OF inv te(1)] put_restores [OF inv te(1), of "te\<lparr>te_ref := Suc (te_ref te)\<rparr>"]
        by (auto simp: trust_stateid_register_fh_def Let_def set_entry_same heap)
      then show ?thesis using some False ht inv by (auto simp: register_map_def)
    qed
  qed
qed

section \<open>Revocation\<close>

lemma lease_key_unique:
  assumes "trust_inv x s" "linked s i te"
  shows "abs_map (drop_set {i} s) = (abs_map s)(te_key te := None)"
proof -
  have B: "{i} = {j. \<exists>t. linked s j t \<and> (\<lambda>v. te_key v = te_key te) (lease t)}"
    using assms linked_unique [OF assms(1)] by auto
  show ?thesis
  proof
    fix k
    have key: "te_key v = k" if "abs_map s k = Some v" for v
      using that unfolding abs_map_Some [OF assms(1)] by auto
    show "abs_map (drop_set {i} s) k = ((abs_map s)(te_key te := None)) k"
      unfolding drop_set_abs [OF assms(1) B] using key by (cases "abs_map s k") auto
  qed
qed

text \<open>The lease that is removed: the one found by the lookup, if the issuer may remove it.\<close>

definition revoke_key :: "trust_key \<Rightarrow> (trust_entry \<Rightarrow> bool) \<Rightarrow> trust_map \<Rightarrow> trust_map" where
  "revoke_key k may m = (case m k of
       None \<Rightarrow> m
     | Some v \<Rightarrow> if may v then m(k := None) else m)"

lemma revoke_found:
  assumes inv: "trust_inv x s" and ht: "trust_ht s = Some ids" and te: "linked s i te"
    and node: "ht_lookup s (revoke_pred stid sb ino) ids = Some (Some i)"
    and m: "te_other te = other stid" "sb \<noteq> 0 \<or> ino \<noteq> 0 \<Longrightarrow> te_sb te = sb \<and> te_ino te = ino"
  shows "effect x s (trust_stateid_revoke_match stid sb ino issuer chk s)
    (revoke_key (te_key te) (\<lambda>v. chk \<longrightarrow> te_issuer_clientid v = issuer))"
proof (cases "chk \<and> te_issuer_clientid te \<noteq> issuer")
  case True
  have heap: "te_heap s i = Some te" using te by (simp add: linked_def)
  have "trust_stateid_revoke_match stid sb ino issuer chk s = Some s"
    using ht node True get_linked [OF inv te] put_restores [OF inv te, of "te\<lparr>te_ref := Suc (te_ref te)\<rparr>"]
    by (simp add: trust_stateid_revoke_match_def Let_def set_entry_same heap)
  moreover have "revoke_key (te_key te) (\<lambda>v. chk \<longrightarrow> te_issuer_clientid v = issuer) (abs_map s) = abs_map s"
    using abs_map_linked [OF inv te] True by (simp add: revoke_key_def)
  ultimately show ?thesis using inv by (intro effectI [of _ s]) simp_all
next
  case False
  have "trust_stateid_revoke_match stid sb ino issuer chk s = Some (ts_bump ts_revokes_update (drop_set {i} s))"
    using ht node False m get_linked [OF inv te] revoke_puts [OF inv te]
    by (auto simp: trust_stateid_revoke_match_def Let_def)
  moreover have "trust_inv x (drop_set {i} s)" using te by (intro drop_set_inv [OF inv]) (simp add: linked_def)
  moreover have "revoke_key (te_key te) (\<lambda>v. chk \<longrightarrow> te_issuer_clientid v = issuer) (abs_map s) = (abs_map s)(te_key te := None)"
    using abs_map_linked [OF inv te] False by (simp add: revoke_key_def)
  ultimately show ?thesis
    using lease_key_unique [OF inv te] ht
    by (intro effectI [of _ "ts_bump ts_revokes_update (drop_set {i} s)"]) (simp_all add: drop_set_def [of "{i}" s, THEN arg_cong, of trust_ht])
qed

text \<open>
  When no lease has the key, the code also looks for a lease without a superblock, but never
  removes one.
\<close>

lemma revoke_missing:
  assumes inv: "trust_inv x s" and ht: "trust_ht s = Some ids"
    and node: "ht_lookup s (revoke_pred stid sb ino) ids = Some None"
  shows "trust_stateid_revoke_match stid sb ino issuer chk s = Some s"
proof (cases "sb = 0")
  case True
  with ht node show ?thesis by (simp add: trust_stateid_revoke_match_def Let_def)
next
  case False
  let ?P = "trust_match_fh_legacy \<lparr>k_other = other stid, k_sb = 0, k_ino = ino\<rparr>"
  show ?thesis
  proof (rule lookup_cases [OF inv ht, of ?P])
    assume "ht_lookup s ?P ids = Some None"
    with False ht node show ?thesis by (simp add: trust_stateid_revoke_match_def Let_def)
  next
    fix i te
    assume l: "ht_lookup s ?P ids = Some (Some i)" and te: "linked s i te" "?P te"
    have heap: "te_heap s i = Some te" using te by (simp add: linked_def)
    have "te_sb te \<noteq> sb" using te(2) False by (simp add: trust_match_fh_legacy_def)
    then show ?thesis
      using False ht node l get_linked [OF inv te(1)] put_restores [OF inv te(1), of "te\<lparr>te_ref := Suc (te_ref te)\<rparr>"]
      by (simp add: trust_stateid_revoke_match_def Let_def set_entry_same heap)
  qed
qed

lemma revoke_exact_effect:
  assumes inv: "trust_inv x s" and key: "sb \<noteq> 0 \<or> ino \<noteq> 0"
  shows "effect x s (trust_stateid_revoke_match stid sb ino issuer chk s)
    (revoke_key (other stid, sb, ino) (\<lambda>v. chk \<longrightarrow> te_issuer_clientid v = issuer))"
proof (cases "trust_ht s")
  case None
  with inv show ?thesis by (auto simp: effect_def trust_stateid_revoke_match_def trust_abs_def)
next
  case ht: (Some ids)
  let ?P = "trust_match_fh \<lparr>k_other = other stid, k_sb = sb, k_ino = ino\<rparr>"
  have P: "?P te \<longleftrightarrow> te_key te = (other stid, sb, ino)" for te by (simp add: trust_match_fh_def te_key_def)
  show ?thesis
  proof (rule lookup_cases [OF inv ht, of ?P])
    assume l: "ht_lookup s ?P ids = Some None" and no: "\<And>i te. linked s i te \<Longrightarrow> \<not> ?P te"
    then have "abs_map s (other stid, sb, ino) = None" by (simp add: abs_map_None [OF inv] P)
    then show ?thesis
      using revoke_missing [OF inv ht, of stid sb ino issuer chk] l key inv
      by (intro effectI [of _ s]) (simp_all add: revoke_key_def revoke_pred_def)
  next
    fix i te
    assume l: "ht_lookup s ?P ids = Some (Some i)" and te: "linked s i te" "?P te"
    then show ?thesis using revoke_found [OF inv ht te(1), of stid sb ino issuer chk] key by (auto simp: P te_key_def revoke_pred_def)
  qed
qed

lemma revoke_any_effect:
  assumes inv: "trust_inv x s"
  shows "\<exists>k. effect x s (trust_stateid_revoke_match stid 0 0 issuer chk s)
      (revoke_key k (\<lambda>v. chk \<longrightarrow> te_issuer_clientid v = issuer)) \<and> fst k = other stid
    \<and> (abs_map s k = None \<longrightarrow> (\<forall>k'. fst k' = other stid \<longrightarrow> abs_map s k' = None))"
proof (cases "trust_ht s")
  case None
  have "abs_map s = Map.empty" using None by (simp add: abs_map_def trust_abs_def)
  with None inv show ?thesis
    by (intro exI [of _ "(other stid, 0, 0)"]) (auto simp: effect_def trust_stateid_revoke_match_def trust_abs_def)
next
  case ht: (Some ids)
  let ?P = "trust_match (other stid)"
  show ?thesis
  proof (rule lookup_cases [OF inv ht, of ?P])
    assume l: "ht_lookup s ?P ids = Some None" and no: "\<And>i te. linked s i te \<Longrightarrow> \<not> ?P te"
    then have none: "abs_map s k' = None" if "fst k' = other stid" for k'
      using that by (auto simp: abs_map_None [OF inv] trust_match_def te_key_def)
    have "effect x s (trust_stateid_revoke_match stid 0 0 issuer chk s)
      (revoke_key (other stid, 0, 0) (\<lambda>v. chk \<longrightarrow> te_issuer_clientid v = issuer))"
      using revoke_missing [OF inv ht, of stid 0 0 issuer chk] l inv none [of "(other stid, 0, 0)"]
      by (intro effectI [of _ s]) (simp_all add: revoke_key_def revoke_pred_def)
    with none show ?thesis by (intro exI [of _ "(other stid, 0, 0)"]) simp
  next
    fix i te
    assume l: "ht_lookup s ?P ids = Some (Some i)" and te: "linked s i te" "?P te"
    then have "effect x s (trust_stateid_revoke_match stid 0 0 issuer chk s)
      (revoke_key (te_key te) (\<lambda>v. chk \<longrightarrow> te_issuer_clientid v = issuer))"
      using revoke_found [OF inv ht te(1), of stid 0 0 issuer chk] by (simp add: trust_match_def revoke_pred_def)
    moreover have "fst (te_key te) = other stid" using te(2) by (simp add: trust_match_def te_key_def)
    moreover have "abs_map s (te_key te) \<noteq> None" using abs_map_linked [OF inv te(1)] by simp
    ultimately show ?thesis by (intro exI [of _ "te_key te"]) auto
  qed
qed

section \<open>Readers\<close>

lemma find_node_run:
  assumes inv: "trust_inv x s"
  shows "find_node None s = Some (None, ts_bump ts_lookup_misses_update s)"
    and "linked s i te \<Longrightarrow> find_node (Some i) s = Some (Some i, set_entry i (te\<lparr>te_ref := Suc (te_ref te)\<rparr>) s)"
  using get_linked [OF inv] by (simp_all add: find_node_def)

lemma find_fh_run:
  assumes inv: "trust_inv x s"
  shows "\<exists>r s'. trust_stateid_find_fh stid sb ino s = Some (r, s') \<and> trust_abs s' = trust_abs s \<and>
    (case r of
       None \<Rightarrow> trust_inv x s' \<and> abs_map s (other stid, sb, ino) = None \<and> abs_map s (other stid, 0, ino) = None
     | Some i \<Rightarrow> trust_inv (x(i := Suc (x i))) s' \<and> (\<exists>te. te_heap s' i = Some te \<and>
         (if abs_map s (other stid, sb, ino) \<noteq> None then abs_map s (other stid, sb, ino) = Some (lease te)
          else sb \<noteq> 0 \<and> abs_map s (other stid, 0, ino) = Some (lease te))))"
proof (cases "trust_ht s")
  case None
  have "abs_map s = Map.empty" using None by (simp add: abs_map_def trust_abs_def)
  with None inv show ?thesis by (simp add: trust_stateid_find_fh_def)
next
  case ht: (Some ids)
  let ?s = "ts_bump ts_lookups_update s"
  let ?P = "trust_match_fh \<lparr>k_other = other stid, k_sb = sb, k_ino = ino\<rparr>"
  let ?L = "trust_match_fh_legacy \<lparr>k_other = other stid, k_sb = 0, k_ino = ino\<rparr>"
  have inv': "trust_inv x ?s" and ht': "trust_ht ?s = Some ids" using inv ht by simp_all
  have P: "?P te \<longleftrightarrow> te_key te = (other stid, sb, ino)" for te by (simp add: trust_match_fh_def te_key_def)
  have L: "?L te \<longleftrightarrow> te_key te = (other stid, 0, ino)" for te by (auto simp: trust_match_fh_legacy_def te_key_def)
  have hit: "\<exists>r s'. find_node (Some i) ?s = Some (r, s') \<and> r = Some i \<and> trust_abs s' = trust_abs s
      \<and> trust_inv (x(i := Suc (x i))) s' \<and> te_heap s' i = Some (te\<lparr>te_ref := Suc (te_ref te)\<rparr>)"
    if "linked s i te" for i te
    using find_node_run(2) [OF inv', of i te] reader_get_inv [OF inv', of i te] that by (simp add: trust_abs_eq)
  have miss: "\<exists>s'. find_node None ?s = Some (None, s') \<and> trust_abs s' = trust_abs s \<and> trust_inv x s'"
    using find_node_run(1) [OF inv'] inv by (simp add: trust_abs_eq)
  show ?thesis
  proof (rule lookup_cases [OF inv' ht', of ?P])
    fix i te
    assume l: "ht_lookup ?s ?P ids = Some (Some i)" and te: "linked ?s i te" "?P te"
    have lk: "linked s i te" using te by simp
    have "abs_map s (other stid, sb, ino) = Some (lease te)" using abs_map_linked [OF inv lk] te(2) P by simp
    with hit [OF lk] l ht show ?thesis by (auto simp: trust_stateid_find_fh_def Let_def)
  next
    assume l: "ht_lookup ?s ?P ids = Some None" and no: "\<And>i te. linked ?s i te \<Longrightarrow> \<not> ?P te"
    have none: "abs_map s (other stid, sb, ino) = None" using no by (simp add: abs_map_None [OF inv] P)
    show ?thesis
    proof (cases "sb = 0")
      case True
      with miss l ht none show ?thesis by (auto simp: trust_stateid_find_fh_def Let_def)
    next
      case False
      show ?thesis
      proof (rule lookup_cases [OF inv' ht', of ?L])
        fix i te
        assume l2: "ht_lookup ?s ?L ids = Some (Some i)" and te: "linked ?s i te" "?L te"
        have lk: "linked s i te" using te by simp
        have "abs_map s (other stid, 0, ino) = Some (lease te)" using abs_map_linked [OF inv lk] te(2) L by simp
        with hit [OF lk] l l2 ht False none show ?thesis by (auto simp: trust_stateid_find_fh_def Let_def)
      next
        assume l2: "ht_lookup ?s ?L ids = Some None" and no2: "\<And>i te. linked ?s i te \<Longrightarrow> \<not> ?L te"
        have "abs_map s (other stid, 0, ino) = None" using no2 by (simp add: abs_map_None [OF inv] L)
        with miss l l2 ht none False show ?thesis by (auto simp: trust_stateid_find_fh_def Let_def)
      qed
    qed
  qed
qed

end
