(* ===== verification/TrustGate.thy ===== *)
theory TrustGate
  imports TrustRefine
begin

text \<open>
  The users of the trust table: the operations TRUST_STATEID, REVOKE_STATEID and
  BULK_REVOKE_STATEID of \<^verbatim>\<open>src/lib/nfs4/server/trust_stateid_ops.c\<close>, the gate of the CHUNK
  operations in \<^verbatim>\<open>src/lib/nfs4/server/chunk.c\<close>, and the gate of the proxy server's local
  path in \<^verbatim>\<open>src/lib/nfs4/ps/ps_shortcircuit.c\<close>.
\<close>

section \<open>Requests\<close>

datatype nfsstat4 = NFS4_OK | NFS4ERR_PERM | NFS4ERR_NOFILEHANDLE | NFS4ERR_INVAL | NFS4ERR_BAD_STATEID
  | NFS4ERR_ACCESS | NFS4ERR_SERVERFAULT | NFS4ERR_ISDIR | NFS4ERR_SYMLINK | NFS4ERR_WRONG_TYPE
  | NFS4ERR_NOTSUPP | NFS4ERR_DELAY | NFS4ERR_NOENT | NFS4ERR_CHUNK_LOCKED | NFS4ERR_NO_ADOPTABLE_LOCK

record network_file_handle =
  nfh_vers :: "16 word"
  nfh_reserved_1 :: "16 word"
  nfh_reserved_2 :: "16 word"
  nfh_reserved_3 :: "16 word"
  nfh_sb :: u64
  nfh_ino :: u64

definition network_file_handle_empty :: "network_file_handle \<Rightarrow> bool" where
  "network_file_handle_empty nfh \<longleftrightarrow> nfh_sb nfh = 0 \<and> nfh_ino nfh = 0 \<and> nfh_reserved_1 nfh = 0
     \<and> nfh_reserved_2 nfh = 0 \<and> nfh_reserved_3 nfh = 0"

text \<open>What the operations read of the inode, of the client and of the compound.\<close>

record ds_inode =
  i_ino :: u64
  i_mode :: "16 word"
  i_attr_flags :: u64

record nfs4_client =
  nc_exchgid_flags :: u32
  c_id :: u64

record compound =
  c_curr_nfh :: network_file_handle
  c_inode :: "ds_inode option"
  c_gss_principal :: "string option"
  c_nfs4_client :: "nfs4_client option"

datatype inode_chunked = INODE_CHUNKED_UNIDENTIFIED | INODE_CHUNKED_NO | INODE_CHUNKED_YES

definition inode_chunked_state :: "ds_inode \<Rightarrow> inode_chunked" where
  "inode_chunked_state inode =
     (if i_attr_flags inode AND 0x80 = 0 then INODE_CHUNKED_UNIDENTIFIED
      else if i_attr_flags inode AND 0x40 \<noteq> 0 then INODE_CHUNKED_YES else INODE_CHUNKED_NO)"

definition S_ISDIR :: "16 word \<Rightarrow> bool" where "S_ISDIR m \<longleftrightarrow> m AND 0xF000 = 0x4000"
definition S_ISLNK :: "16 word \<Rightarrow> bool" where "S_ISLNK m \<longleftrightarrow> m AND 0xF000 = 0xA000"
definition S_ISREG :: "16 word \<Rightarrow> bool" where "S_ISREG m \<longleftrightarrow> m AND 0xF000 = 0x8000"

definition stateid4_other_is_zero :: "stateid4 \<Rightarrow> bool" where
  "stateid4_other_is_zero st \<longleftrightarrow> other st = replicate NFS4_OTHER_SIZE 0"

definition stateid4_other_is_ones :: "stateid4 \<Rightarrow> bool" where
  "stateid4_other_is_ones st \<longleftrightarrow> other st = replicate NFS4_OTHER_SIZE 0xff"

definition stateid4_is_anonymous :: "stateid4 \<Rightarrow> bool" where
  "stateid4_is_anonymous st \<longleftrightarrow> seqid st = 0 \<and> stateid4_other_is_zero st"

definition stateid4_is_special :: "stateid4 \<Rightarrow> bool" where
  "stateid4_is_special st \<longleftrightarrow> stateid4_other_is_zero st \<or> stateid4_other_is_ones st"

section \<open>The control operations\<close>

definition EXCHGID4_FLAG_USE_PNFS_MDS :: u32 where "EXCHGID4_FLAG_USE_PNFS_MDS = 0x00020000"
definition LAYOUTIOMODE4_READ :: u32 where "LAYOUTIOMODE4_READ = 1"
definition LAYOUTIOMODE4_RW :: u32 where "LAYOUTIOMODE4_RW = 2"

text \<open>\<open>Inl\<close> carries the status that the guard stores.\<close>

definition require_mds_client :: "compound \<Rightarrow> nfsstat4 + nfs4_client" where
  "require_mds_client cmp = (case c_nfs4_client cmp of
       None \<Rightarrow> Inl NFS4ERR_PERM
     | Some nc \<Rightarrow> if nc_exchgid_flags nc AND EXCHGID4_FLAG_USE_PNFS_MDS = 0 then Inl NFS4ERR_PERM else Inr nc)"

text \<open>
  \<open>tsa_principal\<close> is an XDR opaque: its bytes are not terminated, and \<^verbatim>\<open>strncpy\<close> reads them
  as a C string. \<open>tsa_after\<close> are the bytes that follow them in memory.
\<close>

record TRUST_STATEID4args =
  tsa_layout_stateid :: stateid4
  tsa_pnfs_clientid :: u64
  tsa_client_id :: u32
  tsa_iomode :: u32
  tsa_expire :: nfstime4
  tsa_principal :: string
  tsa_after :: string

definition c_string :: "string \<Rightarrow> string" where
  "c_string bytes = takeWhile (\<lambda>c. c \<noteq> CHR 0x00) bytes"

text \<open>The checks of the arguments that come before the expiry, in the order of the code.\<close>

definition trust_stateid_check_args :: "compound \<Rightarrow> TRUST_STATEID4args \<Rightarrow> nfsstat4 + string" where
  "trust_stateid_check_args cmp args =
     (if stateid4_is_special (tsa_layout_stateid args) then
        Inl (if stateid4_is_anonymous (tsa_layout_stateid args) then NFS4ERR_INVAL else NFS4ERR_BAD_STATEID)
      else if tsa_pnfs_clientid args = 0 then Inl NFS4ERR_INVAL
      else if tsa_iomode args \<noteq> LAYOUTIOMODE4_READ \<and> tsa_iomode args \<noteq> LAYOUTIOMODE4_RW then Inl NFS4ERR_INVAL
      else if nseconds (tsa_expire args) \<ge> 1000000000 then Inl NFS4ERR_INVAL
      else if 0 < length (tsa_principal args) then
        (if c_gss_principal cmp = None then Inl NFS4ERR_ACCESS
         else if TRUST_PRINCIPAL_MAX \<le> length (tsa_principal args) then Inl NFS4ERR_INVAL
         else Inr (c_string (tsa_principal args @ tsa_after args)))
      else Inr [])"

definition nfs4_op_trust_stateid :: "allocs \<Rightarrow> u64 \<Rightarrow> u64 \<Rightarrow> compound \<Rightarrow> TRUST_STATEID4args \<Rightarrow> trust_state
    \<Rightarrow> (nfsstat4 \<times> trust_state) option" where
  "nfs4_op_trust_stateid mem wall_ns mono_ns cmp args s =
     (if network_file_handle_empty (c_curr_nfh cmp) then Some (NFS4ERR_NOFILEHANDLE, s)
      else case require_mds_client cmp of
        Inl st \<Rightarrow> Some (st, s)
      | Inr nc \<Rightarrow> (case trust_stateid_check_args cmp args of
          Inl st \<Rightarrow> Some (st, s)
        | Inr princ \<Rightarrow>
            let expire_mono_ns = trust_stateid_convert_expire (tsa_expire args) wall_ns mono_ns in
            if expire_mono_ns = 0 then Some (NFS4ERR_INVAL, s)
            else let ino = (case c_inode cmp of None \<Rightarrow> 0 | Some inode \<Rightarrow> i_ino inode) in do {
              (ret, s) \<leftarrow> trust_stateid_register_fh mem (tsa_layout_stateid args) (nfh_sb (c_curr_nfh cmp)) ino
                 (c_id nc) (tsa_pnfs_clientid args) (tsa_client_id args) (tsa_iomode args) expire_mono_ns (Some princ) s;
              Some (case ret of Inr _ \<Rightarrow> NFS4_OK | Inl e \<Rightarrow> if e = EINVAL then NFS4ERR_INVAL else NFS4ERR_SERVERFAULT, s)
            }))"

text \<open>The inode is dereferenced without a test: \<open>None\<close> is the null pointer access.\<close>

definition nfs4_op_revoke_stateid :: "compound \<Rightarrow> stateid4 \<Rightarrow> trust_state \<Rightarrow> (nfsstat4 \<times> trust_state) option" where
  "nfs4_op_revoke_stateid cmp rsa_layout_stateid s =
     (if network_file_handle_empty (c_curr_nfh cmp) then Some (NFS4ERR_NOFILEHANDLE, s)
      else case require_mds_client cmp of
        Inl st \<Rightarrow> Some (st, s)
      | Inr nc \<Rightarrow> do {
          inode \<leftarrow> c_inode cmp;
          if S_ISDIR (i_mode inode) then Some (NFS4ERR_ISDIR, s)
          else if S_ISLNK (i_mode inode) then Some (NFS4ERR_SYMLINK, s)
          else if \<not> S_ISREG (i_mode inode) then Some (NFS4ERR_WRONG_TYPE, s)
          else if inode_chunked_state inode = INODE_CHUNKED_NO then Some (NFS4ERR_NOTSUPP, s)
          else if stateid4_is_special rsa_layout_stateid then
            Some (if stateid4_is_anonymous rsa_layout_stateid then NFS4ERR_INVAL else NFS4ERR_BAD_STATEID, s)
          else do {
            s \<leftarrow> trust_stateid_revoke_fh rsa_layout_stateid (nfh_sb (c_curr_nfh cmp)) (nfh_ino (c_curr_nfh cmp))
                  (c_id nc) s;
            Some (NFS4_OK, s)
          }
        })"

definition nfs4_op_bulk_revoke_stateid :: "compound \<Rightarrow> u64 \<Rightarrow> trust_state \<Rightarrow> (nfsstat4 \<times> trust_state) option" where
  "nfs4_op_bulk_revoke_stateid cmp brsa_clientid s = (case require_mds_client cmp of
       Inl st \<Rightarrow> Some (st, s)
     | Inr nc \<Rightarrow> do {
         s \<leftarrow> trust_stateid_bulk_revoke_scoped (c_id nc) brsa_clientid s;
         Some (NFS4_OK, s)
       })"

section \<open>The gates of the data path\<close>

definition CHUNK_GUARD_CLIENT_ID_NONE :: u32 where "CHUNK_GUARD_CLIENT_ID_NONE = 0"
definition CHUNK_GUARD_CLIENT_ID_MDS :: u32 where "CHUNK_GUARD_CLIENT_ID_MDS = 0xFFFFFFFF"

definition chunk_cid_is_reserved :: "u32 \<Rightarrow> bool" where
  "chunk_cid_is_reserved cid \<longleftrightarrow> cid = CHUNK_GUARD_CLIENT_ID_NONE \<or> cid = CHUNK_GUARD_CLIENT_ID_MDS"

text \<open>The verdict on an entry that the lookup returned, with the outcome that is counted.\<close>

definition check_trust_entry :: "compound \<Rightarrow> u32 \<Rightarrow> bool \<Rightarrow> u64 \<Rightarrow> trust_entry \<Rightarrow> trust_validation_outcome \<times> nfsstat4" where
  "check_trust_entry cmp client_id require_rw now te =
     (if te_flags te AND TRUST_PENDING \<noteq> 0 then (TRUST_VALIDATE_PENDING, NFS4ERR_DELAY)
      else if te_expire_ns te \<noteq> 0 \<and> now > te_expire_ns te then (TRUST_VALIDATE_EXPIRED, NFS4ERR_BAD_STATEID)
      else if te_flags te AND TRUST_ACTIVE = 0 then (TRUST_VALIDATE_EXPIRED, NFS4ERR_BAD_STATEID)
      else if require_rw \<and> te_iomode te \<noteq> LAYOUTIOMODE4_RW then (TRUST_VALIDATE_IOMODE, NFS4ERR_ACCESS)
      else if c_inode cmp = None \<or> te_ino te \<noteq> nfh_ino (c_curr_nfh cmp)
              \<or> (te_sb te \<noteq> 0 \<and> te_sb te \<noteq> nfh_sb (c_curr_nfh cmp)) then (TRUST_VALIDATE_IDENTITY, NFS4ERR_BAD_STATEID)
      else if te_principal te \<noteq> [] \<and> c_gss_principal cmp \<noteq> Some (te_principal te)
        then (TRUST_VALIDATE_IDENTITY, NFS4ERR_ACCESS)
      else if te_client_id te \<noteq> CHUNK_GUARD_CLIENT_ID_NONE \<and> client_id \<noteq> CHUNK_GUARD_CLIENT_ID_NONE
              \<and> te_client_id te \<noteq> client_id then (TRUST_VALIDATE_IDENTITY, NFS4ERR_BAD_STATEID)
      else (TRUST_VALIDATE_OK, NFS4_OK))"

definition chunk_check_trusted_stateid :: "compound \<Rightarrow> stateid4 \<Rightarrow> u32 \<Rightarrow> bool \<Rightarrow> u64 \<Rightarrow> trust_state
    \<Rightarrow> (nfsstat4 \<times> trust_state) option" where
  "chunk_check_trusted_stateid cmp stid client_id require_rw now s =
     (if stateid4_is_special stid then
        Some (NFS4ERR_BAD_STATEID, trust_stateid_count_validation TRUST_VALIDATE_SPECIAL s)
      else do {
        (found, s) \<leftarrow> trust_stateid_find_fh stid (nfh_sb (c_curr_nfh cmp)) (nfh_ino (c_curr_nfh cmp)) s;
        (case found of
           None \<Rightarrow> Some (NFS4ERR_BAD_STATEID, trust_stateid_count_validation TRUST_VALIDATE_NO_ENTRY s)
         | Some i \<Rightarrow> do {
             te \<leftarrow> te_heap s i;
             let (outcome, st) = check_trust_entry cmp client_id require_rw now te;
             s \<leftarrow> trust_entry_put (Some i) s;
             Some (st, trust_stateid_count_validation outcome s)
           })
      })"

datatype sc_status = SC_OK | EBADSTATEID | EAGAIN | EEXPIREDSTATEID

definition check_stateid :: "stateid4 option \<Rightarrow> u64 \<Rightarrow> trust_state \<Rightarrow> (sc_status \<times> trust_state) option" where
  "check_stateid layout_stid now s = (case layout_stid of
       None \<Rightarrow> Some (SC_OK, trust_stateid_count_validation TRUST_VALIDATE_SPECIAL s)
     | Some stid \<Rightarrow> do {
         (found, s) \<leftarrow> trust_stateid_find stid s;
         (case found of
            None \<Rightarrow> Some (EBADSTATEID, trust_stateid_count_validation TRUST_VALIDATE_NO_ENTRY s)
          | Some i \<Rightarrow> do {
              te \<leftarrow> te_heap s i;
              let (ret, outcome) =
                (if te_flags te AND TRUST_PENDING \<noteq> 0 then (EAGAIN, TRUST_VALIDATE_PENDING)
                 else if te_flags te AND TRUST_ACTIVE = 0 then (EBADSTATEID, TRUST_VALIDATE_EXPIRED)
                 else if te_expire_ns te \<noteq> 0 \<and> te_expire_ns te \<le> now then (EEXPIREDSTATEID, TRUST_VALIDATE_EXPIRED)
                 else (SC_OK, TRUST_VALIDATE_OK));
              s \<leftarrow> trust_entry_put (Some i) s;
              Some (ret, trust_stateid_count_validation outcome s)
            })
       })"

end
