(* ===== verification/ChunkOps.thy ===== *)
theory ChunkOps
  imports ChunkPersist TrustGate
begin

text \<open>
  The lifecycle and lock operations of \<^verbatim>\<open>src/lib/nfs4/server/chunk.c\<close>: CHUNK_FINALIZE,
  CHUNK_COMMIT, CHUNK_ROLLBACK, CHUNK_LOCK and CHUNK_UNLOCK. Each passes the gate of theory
  \<open>TrustGate\<close>, works on the chunk store of the current file under its mutex, and saves the store
  with the operations of theory \<open>ChunkPersist\<close> before it answers.
\<close>

section \<open>Server state and arguments\<close>

text \<open>
  What the operations read and write: the trust table, the store of the current file
  (\<^verbatim>\<open>i_chunk_store\<close>), the files below the state directory, the identity that makes the write
  verifier, the budgets of the test hooks, and the rollback counter of the current superblock (none
  when the compound has no superblock). \<open>inode_syncs\<close> records the inodes given to
  \<^verbatim>\<open>inode_sync_to_disk\<close>, whose work is a function of the storage backend.
\<close>

record chunk_srv =
  ds_trust :: trust_state
  i_chunk_store :: "chunk_store option"
  ds_fs :: fs
  ss_state_dir :: string
  ss_uuid :: "u8 list"
  sps_boot_seq :: "16 word"
  ss_test_chunk_finalize_delay_count :: u32
  ss_test_chunk_commit_delay_count :: u32
  ss_test_chunk_persist_fail_count :: u32
  cs_rollback_invoked :: "u64 option"
  inode_syncs :: "u64 list"

record chunk_owner4 =
  co_cohort_id :: u64
  co_client_id :: u32
  co_id :: u32

definition CHUNK_MAX_CHUNKS_PER_OP :: u32 where "CHUNK_MAX_CHUNKS_PER_OP = 4096"
definition CHUNK_MAX_OWNERS_PER_OP :: nat where "CHUNK_MAX_OWNERS_PER_OP = 4096"
definition CHUNK_LOCK_FLAGS_ADOPT :: u32 where "CHUNK_LOCK_FLAGS_ADOPT = 1"
definition CHUNK_LOCK_FLAGS_TAKEOVER :: u32 where "CHUNK_LOCK_FLAGS_TAKEOVER = 2"

text \<open>Six bytes of the server's uuid and the boot sequence number, in the order of a little-endian machine.\<close>

definition NFS4_VERIFIER_SIZE :: nat where "NFS4_VERIFIER_SIZE = 8"

definition chunk_write_verf :: "chunk_srv \<Rightarrow> u8 list" where
  "chunk_write_verf s = take (NFS4_VERIFIER_SIZE - 2) (ss_uuid s)
     @ [ucast (sps_boot_seq s), ucast (drop_bit 8 (sps_boot_seq s))]"

text \<open>A test hook fires and decrements its budget while the budget lasts.\<close>

definition chunk_lifecycle_test_delay :: "u32 \<Rightarrow> bool \<times> u32" where
  "chunk_lifecycle_test_delay budget = (if budget \<noteq> 0 then (True, budget - 1) else (False, budget))"

definition chunk_test_persist_failure :: "u32 \<Rightarrow> bool \<times> u32" where
  "chunk_test_persist_failure remaining = (if remaining \<noteq> 0 then (True, remaining - 1) else (False, remaining))"

section \<open>Helpers\<close>

definition chunk_lock_owner_values_equal :: "chunk_block \<Rightarrow> u64 \<Rightarrow> u32 \<Rightarrow> u32 \<Rightarrow> bool" where
  "chunk_lock_owner_values_equal blk cohort client owner \<longleftrightarrow>
     cb_lock_cohort_id blk = cohort \<and> cb_lock_client_id blk = client \<and> cb_lock_owner_id blk = owner"

text \<open>The offsets of a range; the 64-bit addition wraps.\<close>

definition range_offsets :: "u64 \<Rightarrow> u32 \<Rightarrow> u64 list" where
  "range_offsets offset cnt = map (\<lambda>i. offset + of_nat i) [0..<unat cnt]"

definition chunk_lock_conflict :: "chunk_store \<Rightarrow> u64 \<Rightarrow> u32 \<Rightarrow> u64 \<Rightarrow> u32 \<Rightarrow> u32 \<Rightarrow> chunk_block option" where
  "chunk_lock_conflict cs offset cnt cohort client owner =
     find (\<lambda>blk. cb_flags blk AND CHUNK_BLOCK_LOCKED \<noteq> 0 \<and> \<not> chunk_lock_owner_values_equal blk cohort client owner)
       (List.map_filter (chunk_store_lookup_any (Some cs)) (range_offsets offset cnt))"

definition chunk_lifecycle_check_bounds :: "nat \<Rightarrow> nfsstat4" where
  "chunk_lifecycle_check_bounds chunks_len = (if CHUNK_MAX_OWNERS_PER_OP < chunks_len then NFS4ERR_INVAL else NFS4_OK)"

definition chunk_lifecycle_check_range :: "u64 \<Rightarrow> u32 \<Rightarrow> nfsstat4" where
  "chunk_lifecycle_check_range offset cnt =
     (if cnt = 0 \<or> cnt > CHUNK_MAX_CHUNKS_PER_OP \<or> offset > - 1 - ucast (cnt - 1) then NFS4ERR_INVAL else NFS4_OK)"

definition chunk_op_on_non_chunked :: "compound \<Rightarrow> bool" where
  "chunk_op_on_non_chunked cmp = (case c_inode cmp of
       None \<Rightarrow> False
     | Some inode \<Rightarrow> inode_chunked_state inode = INODE_CHUNKED_NO)"

section \<open>FINALIZE, COMMIT and ROLLBACK\<close>

record CHUNK_LIFECYCLE4args =
  la_stateid :: stateid4
  la_offset :: u64
  la_count :: u32
  la_chunks :: "chunk_owner4 list"

text \<open>The answer: the status, and on success the status of each owner and the write verifier.\<close>

record chunk_lifecycle_res =
  lr_status :: nfsstat4
  lr_owner_status :: "nfsstat4 list"
  lr_writeverf :: "u8 list"

definition lr_error :: "nfsstat4 \<Rightarrow> chunk_lifecycle_res" where
  "lr_error st = \<lparr>lr_status = st, lr_owner_status = [], lr_writeverf = []\<rparr>"

text \<open>The tests before the gate, in the order of the three operations.\<close>

definition chunk_lifecycle_guards :: "compound \<Rightarrow> CHUNK_LIFECYCLE4args \<Rightarrow> nfsstat4" where
  "chunk_lifecycle_guards cmp args =
     (if network_file_handle_empty (c_curr_nfh cmp) then NFS4ERR_NOFILEHANDLE
      else if c_inode cmp = None then NFS4ERR_INVAL
      else if chunk_op_on_non_chunked cmp then NFS4ERR_NOTSUPP
      else if la_chunks args = [] then NFS4ERR_INVAL
      else if chunk_lifecycle_check_range (la_offset args) (la_count args) \<noteq> NFS4_OK
      then chunk_lifecycle_check_range (la_offset args) (la_count args)
      else chunk_lifecycle_check_bounds (length (la_chunks args)))"

definition any_lock_conflict :: "chunk_store \<Rightarrow> CHUNK_LIFECYCLE4args \<Rightarrow> bool" where
  "any_lock_conflict cs args = list_ex (\<lambda>co. chunk_lock_conflict cs (la_offset args) (la_count args)
     (co_cohort_id co) (co_client_id co) (co_id co) \<noteq> None) (la_chunks args)"

text \<open>The loop over the owners, with the status of each.\<close>

fun transition_owners :: "u64 \<Rightarrow> u32 \<Rightarrow> chunk_state \<Rightarrow> chunk_state \<Rightarrow> chunk_owner4 list \<Rightarrow> chunk_store
    \<Rightarrow> nfsstat4 list \<times> chunk_store" where
  "transition_owners offset cnt st st' [] cs = ([], cs)"
| "transition_owners offset cnt st st' (co # owners) cs =
     (let (ok, cs) = (case chunk_store_transition cs offset cnt (co_cohort_id co) (co_client_id co) (co_id co) st st' of
            Inl _ \<Rightarrow> (NFS4ERR_INVAL, cs)
          | Inr cs \<Rightarrow> (NFS4_OK, cs));
          (oks, cs) = transition_owners offset cnt st st' owners cs
      in (ok # oks, cs))"

text \<open>The loop that takes the transitions back after a failed save.\<close>

fun revert_owners :: "u64 \<Rightarrow> u32 \<Rightarrow> chunk_state \<Rightarrow> chunk_state \<Rightarrow> (chunk_owner4 \<times> nfsstat4) list \<Rightarrow> chunk_store \<Rightarrow> chunk_store" where
  "revert_owners offset cnt st st' [] cs = cs"
| "revert_owners offset cnt st st' ((co, ok) # owners) cs =
     revert_owners offset cnt st st' owners
       (if ok = NFS4_OK then
          (case chunk_store_transition cs offset cnt (co_cohort_id co) (co_client_id co) (co_id co) st' st of
             Inl _ \<Rightarrow> cs
           | Inr cs \<Rightarrow> cs)
        else cs)"

text \<open>From the conflict test to the answer, with the states of the transition.\<close>

definition lifecycle_transition :: "allocs \<Rightarrow> io_fail \<Rightarrow> chunk_state \<Rightarrow> chunk_state \<Rightarrow> u64 \<Rightarrow> CHUNK_LIFECYCLE4args
    \<Rightarrow> chunk_store \<Rightarrow> chunk_srv \<Rightarrow> chunk_lifecycle_res \<times> chunk_srv" where
  "lifecycle_transition mem io st st' ino args cs s =
     (if any_lock_conflict cs args then (lr_error NFS4ERR_CHUNK_LOCKED, s)
      else if \<not> mem ''status_val'' then (lr_error NFS4ERR_DELAY, s)
      else let (oks, cs) = transition_owners (la_offset args) (la_count args) st st' (la_chunks args) cs in
        (case chunk_store_persist mem io (Some cs) (ss_state_dir s) ino of
           (Some _, cs', ops) \<Rightarrow>
             (lr_error NFS4ERR_SERVERFAULT,
              s\<lparr>i_chunk_store := map_option (revert_owners (la_offset args) (la_count args) st st' (zip (la_chunks args) oks)) cs',
                ds_fs := run_ops ops (ds_fs s)\<rparr>)
         | (None, cs', ops) \<Rightarrow>
             (\<lparr>lr_status = NFS4_OK, lr_owner_status = oks, lr_writeverf = chunk_write_verf s\<rparr>,
              s\<lparr>i_chunk_store := cs', ds_fs := run_ops ops (ds_fs s)\<rparr>)))"

definition nfs4_op_chunk_finalize :: "allocs \<Rightarrow> io_fail \<Rightarrow> u64 \<Rightarrow> compound \<Rightarrow> CHUNK_LIFECYCLE4args \<Rightarrow> chunk_srv
    \<Rightarrow> (chunk_lifecycle_res \<times> chunk_srv) option" where
  "nfs4_op_chunk_finalize mem io now cmp args s =
     (if chunk_lifecycle_guards cmp args \<noteq> NFS4_OK then Some (lr_error (chunk_lifecycle_guards cmp args), s)
      else do {
        (stid_err, t) \<leftarrow> chunk_check_trusted_stateid cmp (la_stateid args) CHUNK_GUARD_CLIENT_ID_NONE False now (ds_trust s);
        inode \<leftarrow> c_inode cmp;
        let s = s\<lparr>ds_trust := t\<rparr>;
        if stid_err \<noteq> NFS4_OK then Some (lr_error stid_err, s)
        else if list_ex (\<lambda>co. chunk_cid_is_reserved (co_client_id co)) (la_chunks args) then Some (lr_error NFS4ERR_INVAL, s)
        else (case i_chunk_store s of
            None \<Rightarrow> Some (lr_error NFS4ERR_NOENT, s)
          | Some cs \<Rightarrow>
              let (delay, budget) = chunk_lifecycle_test_delay (ss_test_chunk_finalize_delay_count s);
                  s = s\<lparr>ss_test_chunk_finalize_delay_count := budget\<rparr> in
              Some (if delay then (lr_error NFS4ERR_DELAY, s)
                    else lifecycle_transition mem io CHUNK_STATE_PENDING CHUNK_STATE_FINALIZED (i_ino inode) args cs s))
      })"

definition nfs4_op_chunk_commit :: "allocs \<Rightarrow> io_fail \<Rightarrow> u64 \<Rightarrow> compound \<Rightarrow> CHUNK_LIFECYCLE4args \<Rightarrow> chunk_srv
    \<Rightarrow> (chunk_lifecycle_res \<times> chunk_srv) option" where
  "nfs4_op_chunk_commit mem io now cmp args s =
     (if chunk_lifecycle_guards cmp args \<noteq> NFS4_OK then Some (lr_error (chunk_lifecycle_guards cmp args), s)
      else do {
        (stid_err, t) \<leftarrow> chunk_check_trusted_stateid cmp (la_stateid args) CHUNK_GUARD_CLIENT_ID_NONE False now (ds_trust s);
        inode \<leftarrow> c_inode cmp;
        let s = s\<lparr>ds_trust := t\<rparr>;
        if stid_err \<noteq> NFS4_OK then Some (lr_error stid_err, s)
        else if list_ex (\<lambda>co. chunk_cid_is_reserved (co_client_id co)) (la_chunks args) then Some (lr_error NFS4ERR_INVAL, s)
        else (case i_chunk_store s of
            None \<Rightarrow> Some (lr_error NFS4ERR_NOENT, s)
          | Some cs \<Rightarrow>
              let (delay, budget) = chunk_lifecycle_test_delay (ss_test_chunk_commit_delay_count s);
                  s = s\<lparr>ss_test_chunk_commit_delay_count := budget\<rparr> in
              Some (if delay then (lr_error NFS4ERR_DELAY, s)
                    else case lifecycle_transition mem io CHUNK_STATE_FINALIZED CHUNK_STATE_COMMITTED (i_ino inode) args cs s of
                      (res, s) \<Rightarrow> (res, if lr_status res = NFS4_OK then s\<lparr>inode_syncs := i_ino inode # inode_syncs s\<rparr> else s)))
      })"

text \<open>The loop of the rollback stops at the first owner that fails; earlier rollbacks stay.\<close>

fun rollback_owners :: "u64 \<Rightarrow> u32 \<Rightarrow> chunk_owner4 list \<Rightarrow> chunk_store \<Rightarrow> nfsstat4 \<times> chunk_store" where
  "rollback_owners offset cnt [] cs = (NFS4_OK, cs)"
| "rollback_owners offset cnt (co # owners) cs =
     (case chunk_store_rollback cs offset cnt (co_cohort_id co) (co_client_id co) (co_id co) of
        Inl ENOTSUP \<Rightarrow> (NFS4ERR_NOTSUPP, cs)
      | Inl _ \<Rightarrow> (NFS4ERR_INVAL, cs)
      | Inr cs \<Rightarrow> rollback_owners offset cnt owners cs)"

text \<open>The answer of a rollback has no status per owner.\<close>

definition nfs4_op_chunk_rollback :: "allocs \<Rightarrow> io_fail \<Rightarrow> u64 \<Rightarrow> compound \<Rightarrow> CHUNK_LIFECYCLE4args \<Rightarrow> chunk_srv
    \<Rightarrow> (chunk_lifecycle_res \<times> chunk_srv) option" where
  "nfs4_op_chunk_rollback mem io now cmp args s =
     (let s = s\<lparr>cs_rollback_invoked := map_option (\<lambda>n. n + 1) (cs_rollback_invoked s)\<rparr> in
      if chunk_lifecycle_guards cmp args \<noteq> NFS4_OK then Some (lr_error (chunk_lifecycle_guards cmp args), s)
      else do {
        (stid_err, t) \<leftarrow> chunk_check_trusted_stateid cmp (la_stateid args) CHUNK_GUARD_CLIENT_ID_NONE False now (ds_trust s);
        inode \<leftarrow> c_inode cmp;
        let s = s\<lparr>ds_trust := t\<rparr>;
        if stid_err \<noteq> NFS4_OK then Some (lr_error stid_err, s)
        else (case i_chunk_store s of
            None \<Rightarrow> Some (lr_error NFS4ERR_NOENT, s)
          | Some cs \<Rightarrow>
              if any_lock_conflict cs args then Some (lr_error NFS4ERR_CHUNK_LOCKED, s)
              else let (st, cs) = rollback_owners (la_offset args) (la_count args) (la_chunks args) cs in
                if st \<noteq> NFS4_OK then Some (lr_error st, s\<lparr>i_chunk_store := Some cs\<rparr>)
                else (case chunk_store_persist mem io (Some cs) (ss_state_dir s) (i_ino inode) of
                    (e, cs', ops) \<Rightarrow> Some
                      (if e = None then \<lparr>lr_status = NFS4_OK, lr_owner_status = [], lr_writeverf = chunk_write_verf s\<rparr>
                       else lr_error NFS4ERR_SERVERFAULT,
                       s\<lparr>i_chunk_store := cs', ds_fs := run_ops ops (ds_fs s)\<rparr>)))
      })"

section \<open>LOCK and UNLOCK\<close>

text \<open>\<open>la_adopt\<close> is the union \<^verbatim>\<open>cla_adopt\<close>: the escrow id when its discriminant is true.\<close>

record CHUNK_LOCK4args =
  cla_stateid :: stateid4
  cla_offset :: u64
  cla_count :: u32
  cla_flags :: u32
  cla_owner :: chunk_owner4
  cla_adopt :: "u8 list option"

definition chunk_lock_owner_equal :: "chunk_block \<Rightarrow> chunk_owner4 \<Rightarrow> bool" where
  "chunk_lock_owner_equal blk co = chunk_lock_owner_values_equal blk (co_cohort_id co) (co_client_id co) (co_id co)"

definition chunk_lock_range_equal :: "chunk_block \<Rightarrow> u64 \<Rightarrow> u32 \<Rightarrow> bool" where
  "chunk_lock_range_equal blk offset cnt \<longleftrightarrow> cb_lock_offset blk = offset \<and> cb_lock_count blk = cnt"

text \<open>The bytes of the sequence number in the order of a little-endian machine, then the other part.\<close>

definition chunk_lock_pack_stateid :: "stateid4 \<Rightarrow> u8 list" where
  "chunk_lock_pack_stateid st = map (\<lambda>i. ucast (drop_bit (8 * i) (seqid st))) [0..<4] @ other st"

definition chunk_lock_stateid_equal :: "chunk_block \<Rightarrow> stateid4 \<Rightarrow> bool" where
  "chunk_lock_stateid_equal blk st \<longleftrightarrow> cb_lock_stateid blk = chunk_lock_pack_stateid st"

definition chunk_lock_clear :: "chunk_block \<Rightarrow> chunk_block" where
  "chunk_lock_clear blk =
     (let preserve_escrow = (cb_flags blk AND CHUNK_BLOCK_ESCROW = 0
            \<and> cb_lock_escrow_id blk \<noteq> replicate CHUNK_LOCK_ESCROW_ID_SIZE 0);
          blk = blk\<lparr>cb_flags := cb_flags blk AND NOT CHUNK_BLOCK_LOCKED, cb_lock_cohort_id := 0, cb_lock_client_id := 0,
            cb_lock_owner_id := 0, cb_lock_offset := 0, cb_lock_count := 0, cb_lock_flags := 0,
            cb_lock_stateid := replicate CHUNK_LOCK_STATEID_SIZE 0\<rparr>
      in if preserve_escrow then blk
         else blk\<lparr>cb_flags := cb_flags blk AND NOT CHUNK_BLOCK_ESCROW,
                   cb_lock_escrow_id := replicate CHUNK_LOCK_ESCROW_ID_SIZE 0\<rparr>)"

definition chunk_escrow_id_is_zero :: "u8 list \<Rightarrow> bool" where
  "chunk_escrow_id_is_zero eid \<longleftrightarrow> eid = replicate CHUNK_LOCK_ESCROW_ID_SIZE 0"

definition chunk_escrow_matches :: "chunk_block option \<Rightarrow> u64 \<Rightarrow> u32 \<Rightarrow> u8 list \<Rightarrow> bool" where
  "chunk_escrow_matches b offset cnt eid \<longleftrightarrow> (case b of
       None \<Rightarrow> False
     | Some blk \<Rightarrow> cb_flags blk AND (CHUNK_BLOCK_LOCKED OR CHUNK_BLOCK_ESCROW) = CHUNK_BLOCK_LOCKED OR CHUNK_BLOCK_ESCROW
         \<and> cb_lock_client_id blk = CHUNK_GUARD_CLIENT_ID_MDS \<and> cb_lock_cohort_id blk = 0 \<and> cb_lock_owner_id blk = 0
         \<and> chunk_lock_range_equal blk offset cnt \<and> cb_lock_escrow_id blk = eid)"

text \<open>The tests of the request before the gate.\<close>

definition chunk_lock_guards :: "compound \<Rightarrow> CHUNK_LOCK4args \<Rightarrow> nfsstat4" where
  "chunk_lock_guards cmp args =
     (if network_file_handle_empty (c_curr_nfh cmp) then NFS4ERR_NOFILEHANDLE
      else case c_inode cmp of None \<Rightarrow> NFS4ERR_INVAL | Some inode \<Rightarrow>
      if \<not> S_ISREG (i_mode inode) then NFS4ERR_INVAL
      else if chunk_op_on_non_chunked cmp then NFS4ERR_NOTSUPP
      else if chunk_cid_is_reserved (co_client_id (cla_owner args)) then NFS4ERR_INVAL
      else if chunk_lifecycle_check_range (cla_offset args) (cla_count args) \<noteq> NFS4_OK then NFS4ERR_INVAL
      else let flags = cla_flags args; adopt = (flags AND CHUNK_LOCK_FLAGS_ADOPT \<noteq> 0);
               takeover = (flags AND CHUNK_LOCK_FLAGS_TAKEOVER \<noteq> 0) in
        if flags AND NOT (CHUNK_LOCK_FLAGS_ADOPT OR CHUNK_LOCK_FLAGS_TAKEOVER) \<noteq> 0
           \<or> (adopt \<and> cla_adopt args = None) \<or> (\<not> adopt \<and> cla_adopt args \<noteq> None) \<or> (adopt \<and> takeover)
        then NFS4ERR_INVAL
        else if flags \<noteq> 0 \<and> takeover then NFS4ERR_NOTSUPP
        else if flags \<noteq> 0 \<and> chunk_escrow_id_is_zero (the (cla_adopt args)) then NFS4ERR_INVAL
        else NFS4_OK)"

text \<open>The answer of a lock that another owner holds names the holder.\<close>

datatype CHUNK_LOCK4res = LockRes nfsstat4 | LockHeld chunk_owner4

fun clr_status :: "CHUNK_LOCK4res \<Rightarrow> nfsstat4" where
  "clr_status (LockRes st) = st"
| "clr_status (LockHeld _) = NFS4ERR_CHUNK_LOCKED"

text \<open>The first loop: whether every block of the range can be locked or adopted.\<close>

definition chunk_lock_check :: "chunk_store \<Rightarrow> CHUNK_LOCK4args \<Rightarrow> u64 \<Rightarrow> CHUNK_LOCK4res" where
  "chunk_lock_check cs args off =
     (let b = chunk_store_lookup_any (Some cs) off in
      if cla_flags args AND CHUNK_LOCK_FLAGS_ADOPT \<noteq> 0 then
        (if chunk_escrow_matches b (cla_offset args) (cla_count args) (the (cla_adopt args)) then LockRes NFS4_OK
         else LockRes NFS4ERR_NO_ADOPTABLE_LOCK)
      else case b of
        None \<Rightarrow> LockRes NFS4_OK
      | Some blk \<Rightarrow>
          if cb_flags blk AND CHUNK_BLOCK_LOCKED = 0 then LockRes NFS4_OK
          else if chunk_lock_owner_equal blk (cla_owner args) \<and> chunk_lock_range_equal blk (cla_offset args) (cla_count args)
                  \<and> chunk_lock_stateid_equal blk (cla_stateid args) then LockRes NFS4_OK
          else LockHeld \<lparr>co_cohort_id = cb_lock_cohort_id blk, co_client_id = cb_lock_client_id blk, co_id = cb_lock_owner_id blk\<rparr>)"

fun chunk_lock_check_all :: "chunk_store \<Rightarrow> CHUNK_LOCK4args \<Rightarrow> u64 list \<Rightarrow> CHUNK_LOCK4res" where
  "chunk_lock_check_all cs args [] = LockRes NFS4_OK"
| "chunk_lock_check_all cs args (off # offs) =
     (if chunk_lock_check cs args off \<noteq> LockRes NFS4_OK then chunk_lock_check cs args off else chunk_lock_check_all cs args offs)"

text \<open>The assignments to a block, for an adoption and for a new lock.\<close>

definition chunk_lock_block :: "compound \<Rightarrow> CHUNK_LOCK4args \<Rightarrow> chunk_block \<Rightarrow> chunk_block" where
  "chunk_lock_block cmp args blk =
     (if cla_flags args AND CHUNK_LOCK_FLAGS_ADOPT \<noteq> 0 then
        blk\<lparr>cb_flags := cb_flags blk AND NOT CHUNK_BLOCK_ESCROW, cb_lock_cohort_id := co_cohort_id (cla_owner args),
            cb_lock_client_id := co_client_id (cla_owner args), cb_lock_owner_id := co_id (cla_owner args),
            cb_lock_offset := cla_offset args, cb_lock_count := cla_count args, cb_lock_flags := 0,
            cb_writer_clientid := (case c_nfs4_client cmp of None \<Rightarrow> 0 | Some nc \<Rightarrow> c_id nc),
            cb_lock_stateid := chunk_lock_pack_stateid (cla_stateid args)\<rparr>
      else
        blk\<lparr>cb_flags := cb_flags blk OR CHUNK_BLOCK_LOCKED, cb_lock_cohort_id := co_cohort_id (cla_owner args),
            cb_lock_client_id := co_client_id (cla_owner args), cb_lock_owner_id := co_id (cla_owner args),
            cb_lock_offset := cla_offset args, cb_lock_count := cla_count args, cb_lock_flags := cla_flags args,
            cb_lock_stateid := chunk_lock_pack_stateid (cla_stateid args),
            cb_lock_escrow_id := replicate CHUNK_LOCK_ESCROW_ID_SIZE 0\<rparr>)"

definition store_block :: "chunk_store \<Rightarrow> u64 \<Rightarrow> chunk_block \<Rightarrow> chunk_store" where
  "store_block cs off blk = cs\<lparr>cs_blocks := (cs_blocks cs)[unat off := blk], cs_dirty := True\<rparr>"

text \<open>
  The second loop. \<open>saved\<close> are the blocks before the lock, with the flag that the loop created them;
  a failing allocation ends the operation without undoing the locks already set.
\<close>

fun chunk_lock_apply :: "allocs \<Rightarrow> compound \<Rightarrow> CHUNK_LOCK4args \<Rightarrow> u64 list \<Rightarrow> chunk_store
    \<Rightarrow> (chunk_store + chunk_store \<times> (chunk_block \<times> bool) list)" where
  "chunk_lock_apply mem cmp args [] cs = Inr (cs, [])"
| "chunk_lock_apply mem cmp args (off # offs) cs =
     (case (case chunk_store_lookup_any (Some cs) off of
              Some blk \<Rightarrow> Inr (cs, blk, False)
            | None \<Rightarrow>
                (case chunk_store_write mem cs off zero_block of
                   Inl _ \<Rightarrow> Inl cs
                 | Inr cs \<Rightarrow> Inr (cs, zero_block, True))) of
        Inl cs \<Rightarrow> Inl cs
      | Inr (cs, blk, created) \<Rightarrow>
          (case chunk_lock_apply mem cmp args offs
             (if cla_flags args AND CHUNK_LOCK_FLAGS_ADOPT = 0 \<and> cb_flags blk AND CHUNK_BLOCK_LOCKED \<noteq> 0 then cs
              else store_block cs off (chunk_lock_block cmp args blk)) of
             Inl cs \<Rightarrow> Inl cs
           | Inr (cs, saved) \<Rightarrow> Inr (cs, (blk, created) # saved)))"

text \<open>The undo of a failed save.\<close>

fun chunk_lock_restore :: "u64 list \<Rightarrow> (chunk_block \<times> bool) list \<Rightarrow> chunk_store \<Rightarrow> chunk_store" where
  "chunk_lock_restore (off # offs) ((blk, created) # saved) cs =
     chunk_lock_restore offs saved
       (if chunk_store_lookup_any (Some cs) off = None then cs
        else store_block cs off (if created then zero_block else blk))"
| "chunk_lock_restore _ _ cs = cs\<lparr>cs_dirty := True\<rparr>"

definition nfs4_op_chunk_lock :: "allocs \<Rightarrow> io_fail \<Rightarrow> u64 \<Rightarrow> compound \<Rightarrow> CHUNK_LOCK4args \<Rightarrow> chunk_srv
    \<Rightarrow> (CHUNK_LOCK4res \<times> chunk_srv) option" where
  "nfs4_op_chunk_lock mem io now cmp args s =
     (if chunk_lock_guards cmp args \<noteq> NFS4_OK then Some (LockRes (chunk_lock_guards cmp args), s)
      else do {
        (st, t) \<leftarrow> chunk_check_trusted_stateid cmp (cla_stateid args) (co_client_id (cla_owner args)) True now (ds_trust s);
        inode \<leftarrow> c_inode cmp;
        let s = s\<lparr>ds_trust := t\<rparr>;
        if st \<noteq> NFS4_OK then Some (LockRes st, s)
        else if \<not> mem ''saved'' \<or> \<not> mem ''created'' then Some (LockRes NFS4ERR_SERVERFAULT, s)
        else (case chunk_store_get mem (ds_fs s) (i_chunk_store s) (Some (ss_state_dir s)) (i_ino inode) of
            None \<Rightarrow> Some (LockRes NFS4ERR_SERVERFAULT, s)
          | Some cs0 \<Rightarrow>
              let adopt = (cla_flags args AND CHUNK_LOCK_FLAGS_ADOPT \<noteq> 0); s = s\<lparr>i_chunk_store := Some cs0\<rparr> in
              (case (if adopt then chunk_store_refresh_escrows mem cs0 else Inr cs0) of
                 Inl _ \<Rightarrow> Some (LockRes NFS4ERR_SERVERFAULT, s)
               | Inr cs \<Rightarrow>
                   let s = s\<lparr>i_chunk_store := Some cs\<rparr>; offs = range_offsets (cla_offset args) (cla_count args) in
                   if adopt \<and> \<not> chunk_store_has_escrow (Some cs) (cla_offset args) (cla_count args) (the (cla_adopt args))
                   then Some (LockRes NFS4ERR_NO_ADOPTABLE_LOCK, s)
                   else if chunk_lock_check_all cs args offs \<noteq> LockRes NFS4_OK then Some (chunk_lock_check_all cs args offs, s)
                   else (case chunk_lock_apply mem cmp args offs cs of
                       Inl cs \<Rightarrow> Some (LockRes NFS4ERR_SERVERFAULT, s\<lparr>i_chunk_store := Some cs\<rparr>)
                     | Inr (cs, saved) \<Rightarrow>
                         let (fails, budget) = chunk_test_persist_failure (ss_test_chunk_persist_fail_count s);
                             s = s\<lparr>ss_test_chunk_persist_fail_count := budget\<rparr> in
                         (case (if fails then (Some EIO, Some cs, [])
                                else chunk_store_persist mem io (Some cs) (ss_state_dir s) (i_ino inode)) of
                            (Some _, cs', ops) \<Rightarrow> Some (LockRes NFS4ERR_SERVERFAULT,
                              s\<lparr>i_chunk_store := map_option (chunk_lock_restore offs saved) cs', ds_fs := run_ops ops (ds_fs s)\<rparr>)
                          | (None, cs', ops) \<Rightarrow> Some (LockRes NFS4_OK, s\<lparr>i_chunk_store := cs', ds_fs := run_ops ops (ds_fs s)\<rparr>)))))
      })"

record CHUNK_UNLOCK4args =
  cua_stateid :: stateid4
  cua_offset :: u64
  cua_count :: u32
  cua_owner :: chunk_owner4

definition chunk_unlock_guards :: "compound \<Rightarrow> CHUNK_UNLOCK4args \<Rightarrow> nfsstat4" where
  "chunk_unlock_guards cmp args =
     (if network_file_handle_empty (c_curr_nfh cmp) then NFS4ERR_NOFILEHANDLE
      else case c_inode cmp of None \<Rightarrow> NFS4ERR_INVAL | Some inode \<Rightarrow>
      if \<not> S_ISREG (i_mode inode) then NFS4ERR_INVAL
      else if chunk_op_on_non_chunked cmp then NFS4ERR_NOTSUPP
      else if chunk_cid_is_reserved (co_client_id (cua_owner args)) then NFS4ERR_INVAL
      else if chunk_lifecycle_check_range (cua_offset args) (cua_count args) \<noteq> NFS4_OK then NFS4ERR_INVAL
      else NFS4_OK)"

definition block_locked :: "chunk_block \<Rightarrow> bool" where
  "block_locked blk \<longleftrightarrow> cb_flags blk AND CHUNK_BLOCK_LOCKED \<noteq> 0"

definition chunk_unlock_refuses :: "chunk_store \<Rightarrow> CHUNK_UNLOCK4args \<Rightarrow> u64 \<Rightarrow> bool" where
  "chunk_unlock_refuses cs args off = (case chunk_store_lookup_any (Some cs) off of
       None \<Rightarrow> False
     | Some blk \<Rightarrow> block_locked blk \<and>
         \<not> (chunk_lock_owner_equal blk (cua_owner args) \<and> chunk_lock_range_equal blk (cua_offset args) (cua_count args)))"

text \<open>\<open>saved\<close> has a block for each offset that was unlocked.\<close>

fun chunk_unlock_apply :: "u64 list \<Rightarrow> chunk_store \<Rightarrow> chunk_store \<times> chunk_block option list" where
  "chunk_unlock_apply [] cs = (cs, [])"
| "chunk_unlock_apply (off # offs) cs =
     (case chunk_store_lookup_any (Some cs) off of
        Some blk \<Rightarrow>
          if block_locked blk then
            (case chunk_unlock_apply offs (store_block cs off (chunk_lock_clear blk)) of (cs, saved) \<Rightarrow> (cs, Some blk # saved))
          else (case chunk_unlock_apply offs cs of (cs, saved) \<Rightarrow> (cs, None # saved))
      | None \<Rightarrow> (case chunk_unlock_apply offs cs of (cs, saved) \<Rightarrow> (cs, None # saved)))"

fun chunk_unlock_restore :: "u64 list \<Rightarrow> chunk_block option list \<Rightarrow> chunk_store \<Rightarrow> chunk_store" where
  "chunk_unlock_restore (off # offs) (b # saved) cs =
     chunk_unlock_restore offs saved (case b of None \<Rightarrow> cs | Some blk \<Rightarrow> store_block cs off blk)"
| "chunk_unlock_restore _ _ cs = cs\<lparr>cs_dirty := True\<rparr>"

definition nfs4_op_chunk_unlock :: "allocs \<Rightarrow> io_fail \<Rightarrow> u64 \<Rightarrow> compound \<Rightarrow> CHUNK_UNLOCK4args \<Rightarrow> chunk_srv
    \<Rightarrow> (nfsstat4 \<times> chunk_srv) option" where
  "nfs4_op_chunk_unlock mem io now cmp args s =
     (if chunk_unlock_guards cmp args \<noteq> NFS4_OK then Some (chunk_unlock_guards cmp args, s)
      else do {
        (st, t) \<leftarrow> chunk_check_trusted_stateid cmp (cua_stateid args) (co_client_id (cua_owner args)) True now (ds_trust s);
        inode \<leftarrow> c_inode cmp;
        let s = s\<lparr>ds_trust := t\<rparr>;
        if st \<noteq> NFS4_OK then Some (st, s)
        else (case i_chunk_store s of
            None \<Rightarrow> Some (NFS4_OK, s)
          | Some cs \<Rightarrow>
              let offs = range_offsets (cua_offset args) (cua_count args) in
              if \<not> mem ''saved'' then Some (NFS4ERR_SERVERFAULT, s)
              else if list_ex (chunk_unlock_refuses cs args) offs then Some (NFS4ERR_INVAL, s)
              else (case chunk_unlock_apply offs cs of (cs, saved) \<Rightarrow>
                (case chunk_store_persist mem io (Some cs) (ss_state_dir s) (i_ino inode) of
                   (Some _, cs', ops) \<Rightarrow> Some (NFS4ERR_SERVERFAULT,
                     s\<lparr>i_chunk_store := map_option (chunk_unlock_restore offs saved) cs', ds_fs := run_ops ops (ds_fs s)\<rparr>)
                 | (None, cs', ops) \<Rightarrow> Some (NFS4_OK, s\<lparr>i_chunk_store := cs', ds_fs := run_ops ops (ds_fs s)\<rparr>))))
      })"

section \<open>One entry for the operations\<close>

datatype chunk_op = ChunkFinalize CHUNK_LIFECYCLE4args | ChunkCommit CHUNK_LIFECYCLE4args
  | ChunkRollback CHUNK_LIFECYCLE4args | ChunkLock CHUNK_LOCK4args | ChunkUnlock CHUNK_UNLOCK4args

definition chunk_exec :: "allocs \<Rightarrow> io_fail \<Rightarrow> u64 \<Rightarrow> compound \<Rightarrow> chunk_op \<Rightarrow> chunk_srv \<Rightarrow> (nfsstat4 \<times> chunk_srv) option" where
  "chunk_exec mem io now cmp op s = (case op of
       ChunkFinalize args \<Rightarrow> map_option (apfst lr_status) (nfs4_op_chunk_finalize mem io now cmp args s)
     | ChunkCommit args \<Rightarrow> map_option (apfst lr_status) (nfs4_op_chunk_commit mem io now cmp args s)
     | ChunkRollback args \<Rightarrow> map_option (apfst lr_status) (nfs4_op_chunk_rollback mem io now cmp args s)
     | ChunkLock args \<Rightarrow> map_option (apfst clr_status) (nfs4_op_chunk_lock mem io now cmp args s)
     | ChunkUnlock args \<Rightarrow> nfs4_op_chunk_unlock mem io now cmp args s)"

text \<open>What an operation shows to the gate, the owners it acts for, and its range.\<close>

fun op_stateid :: "chunk_op \<Rightarrow> stateid4" where
  "op_stateid (ChunkFinalize args) = la_stateid args"
| "op_stateid (ChunkCommit args) = la_stateid args"
| "op_stateid (ChunkRollback args) = la_stateid args"
| "op_stateid (ChunkLock args) = cla_stateid args"
| "op_stateid (ChunkUnlock args) = cua_stateid args"

fun op_client :: "chunk_op \<Rightarrow> u32" where
  "op_client (ChunkLock args) = co_client_id (cla_owner args)"
| "op_client (ChunkUnlock args) = co_client_id (cua_owner args)"
| "op_client _ = CHUNK_GUARD_CLIENT_ID_NONE"

fun op_rw :: "chunk_op \<Rightarrow> bool" where
  "op_rw (ChunkLock args) = True"
| "op_rw (ChunkUnlock args) = True"
| "op_rw _ = False"

fun op_owners :: "chunk_op \<Rightarrow> chunk_owner4 list" where
  "op_owners (ChunkFinalize args) = la_chunks args"
| "op_owners (ChunkCommit args) = la_chunks args"
| "op_owners (ChunkRollback args) = la_chunks args"
| "op_owners (ChunkLock args) = [cla_owner args]"
| "op_owners (ChunkUnlock args) = [cua_owner args]"

fun op_range :: "chunk_op \<Rightarrow> u64 list" where
  "op_range (ChunkFinalize args) = range_offsets (la_offset args) (la_count args)"
| "op_range (ChunkCommit args) = range_offsets (la_offset args) (la_count args)"
| "op_range (ChunkRollback args) = range_offsets (la_offset args) (la_count args)"
| "op_range (ChunkLock args) = range_offsets (cla_offset args) (cla_count args)"
| "op_range (ChunkUnlock args) = range_offsets (cua_offset args) (cua_count args)"

fun op_adopts :: "chunk_op \<Rightarrow> bool" where
  "op_adopts (ChunkLock args) \<longleftrightarrow> cla_flags args AND CHUNK_LOCK_FLAGS_ADOPT \<noteq> 0"
| "op_adopts _ \<longleftrightarrow> False"

end
