(* ===== verification/TrustReach.thy ===== *)
theory TrustReach
  imports TrustGate
begin

text \<open>
  The trust table as a transition system: the states that sequences of operations and readers
  reach, the specification of every operation on the map of leases, and the contract that a reader
  relies on while it holds a reference.
\<close>

section \<open>Readers\<close>

text \<open>
  The contract between a table of reference counted entries and its readers: a reference that a
  reader holds can be dropped, which changes neither the view of the table nor the references of
  other readers.
\<close>

locale reader_table =
  fixes inv :: "(nat \<Rightarrow> nat) \<Rightarrow> 's \<Rightarrow> bool" and view :: "'s \<Rightarrow> 'v" and put :: "nat \<Rightarrow> 's \<Rightarrow> 's option"
  assumes put_law: "inv x s \<Longrightarrow> 0 < x i \<Longrightarrow> \<exists>s'. put i s = Some s' \<and> inv (x(i := x i - 1)) s' \<and> view s' = view s"
begin

lemma borrow: "inv (x(i := Suc (x i))) s \<Longrightarrow> \<exists>s'. put i s = Some s' \<and> inv x s' \<and> view s' = view s"
  using put_law [of "x(i := Suc (x i))" s i] by simp

end

lemma abs_map_cong:
  assumes "trust_ht s' = trust_ht s" "\<forall>i. i \<in> set (trust_tbl s) \<longrightarrow> map_option lease (te_heap s' i) = map_option lease (te_heap s i)"
    and "\<forall>i. i \<in> set (trust_tbl s) \<longrightarrow> te_heap s i \<noteq> None"
  shows "trust_abs s' = trust_abs s"
proof (cases "trust_ht s")
  case None
  then show ?thesis using assms(1) by (simp add: trust_abs_def)
next
  case (Some ids)
  let ?f = "\<lambda>s i. let te = the (te_heap s i) in (te_key te, lease te)"
  have "?f s' i = ?f s i" if i: "i \<in> set ids" for i
  proof -
    have t: "i \<in> set (trust_tbl s)" using i Some by (simp add: trust_tbl_def)
    then obtain te where te: "te_heap s i = Some te" using assms(3) by blast
    have "map_option lease (te_heap s' i) = Some (lease te)" using assms(2) t te by simp
    then obtain te' where te': "te_heap s' i = Some te'" "lease te' = lease te" by (auto simp: map_option_eq_Some)
    have "te_key te' = te_key te" using te'(2) by (metis te_key_lease(1))
    with te te' show ?thesis by simp
  qed
  then have m: "map (?f s') ids = map (?f s) ids" by (rule map_cong [OF refl])
  show ?thesis by (simp only: trust_abs_def Some assms(1) option.map m)
qed

lemma trust_put_law:
  assumes inv: "trust_inv x s" and x: "0 < x i"
  shows "\<exists>s'. trust_entry_put (Some i) s = Some s' \<and> trust_inv (x(i := x i - 1)) s' \<and> trust_abs s' = trust_abs s"
proof -
  obtain te where te: "te_heap s i = Some te" using inv_free [OF inv, of i] x by (cases "te_heap s i") auto
  let ?u = "te\<lparr>te_ref := te_ref te - 1\<rparr>" and ?x = "x(i := x i - 1)"
  have ref: "te_ref te = (if i \<in> set (trust_tbl s) then Suc (x i) else x i)"
    using linked_ref [OF inv, of i te] inv_unlinked [OF inv te] te by (auto simp: linked_def)
  define s' where "s' = s\<lparr>te_heap := (te_heap s)(i := if te_ref te = 1 then None else Some ?u)\<rparr>"
  have ht: "trust_ht s' = trust_ht s" "trust_tbl s' = trust_tbl s" "te_next s' = te_next s"
    by (simp_all add: s'_def trust_tbl_def)
  have heap: "te_heap s' j = (if j = i then (if te_ref te = 1 then None else Some ?u) else te_heap s j)" for j
    by (simp add: s'_def)
  have del: "map_option (filter (\<lambda>j. j \<noteq> i)) (trust_ht s) = trust_ht s" if "te_ref te = 1"
    using that ref x by (cases "trust_ht s") (auto simp: trust_tbl_def filter_id_conv split: if_splits)
  have run: "trust_entry_put (Some i) s = Some s'"
    using te ref x del unfolding s'_def
    by (cases "te_ref te = 1") (auto simp: trust_entry_put_def trust_entry_release_def ht_del_def split: if_splits)
  have lk: "linked s' j t \<Longrightarrow> \<exists>t0. linked s j t0 \<and> te_key t0 = te_key t" for j t
    using te by (auto simp: linked_def ht heap split: if_splits)
  have "trust_inv ?x s'"
  proof (rule trust_invI)
    show "distinct (trust_tbl s')" using inv_distinct [OF inv] ht by simp
    show "\<exists>t. te_heap s' j = Some t \<and> te_ref t = Suc (?x j)" if "j \<in> set (trust_tbl s')" for j
      using that linked_heap [OF inv, of j] ref x te by (auto simp: linked_def ht heap)
    show "te_ref t = ?x j \<and> 0 < ?x j" if "te_heap s' j = Some t" "j \<notin> set (trust_tbl s')" for j t
      using that inv_unlinked [OF inv, of j t] ref x by (auto simp: ht heap split: if_splits)
    show "?x j = 0" if "te_heap s' j = None" for j
      using that inv_free [OF inv, of j] ref x by (auto simp: heap split: if_splits)
    show "te_heap s' j = None" if "te_next s' \<le> j" for j
      using that inv_fresh [OF inv, of j] te by (auto simp: ht heap)
    show "j = l" if "linked s' j tj" "linked s' l tl" "te_key tj = te_key tl" for j l tj tl
      using lk [OF that(1)] lk [OF that(2)] that(3) linked_unique [OF inv] by metis
  qed
  moreover have "trust_abs s' = trust_abs s"
  proof (rule abs_map_cong [OF ht(1)]; intro allI impI)
    fix j
    assume j: "j \<in> set (trust_tbl s)"
    show "te_heap s j \<noteq> None" using linked_heap [OF inv j] by (auto simp: linked_def)
    show "map_option lease (te_heap s' j) = map_option lease (te_heap s j)"
      using j te ref x by (auto simp: heap)
  qed
  ultimately show ?thesis using run by blast
qed

interpretation trust_readers: reader_table trust_inv trust_abs "\<lambda>i. trust_entry_put (Some i)"
  by unfold_locales (rule trust_put_law)

lemma find_run:
  assumes inv: "trust_inv x s"
  shows "\<exists>r s'. trust_stateid_find stid s = Some (r, s') \<and> trust_abs s' = trust_abs s \<and>
    (case r of
       None \<Rightarrow> trust_inv x s' \<and> (\<forall>k. fst k = other stid \<longrightarrow> abs_map s k = None)
     | Some i \<Rightarrow> trust_inv (x(i := Suc (x i))) s' \<and> (\<exists>te. te_heap s' i = Some te \<and>
         te_other te = other stid \<and> abs_map s (te_key te) = Some (lease te)))"
proof (cases "trust_ht s")
  case None
  have "abs_map s = Map.empty" using None by (simp add: abs_map_def trust_abs_def)
  with None inv show ?thesis by (simp add: trust_stateid_find_def)
next
  case ht: (Some ids)
  let ?s = "ts_bump ts_lookups_update s" and ?P = "trust_match (other stid)"
  have inv': "trust_inv x ?s" and ht': "trust_ht ?s = Some ids" using inv ht by simp_all
  show ?thesis
  proof (rule lookup_cases [OF inv' ht', of ?P])
    fix i te
    assume l: "ht_lookup ?s ?P ids = Some (Some i)" and te: "linked ?s i te" "?P te"
    let ?u = "te\<lparr>te_ref := Suc (te_ref te)\<rparr>"
    have lk: "linked s i te" using te by simp
    have "trust_stateid_find stid s = Some (Some i, set_entry i ?u ?s)"
      using ht l find_node_run(2) [OF inv' te(1)] by (simp add: trust_stateid_find_def Let_def)
    moreover have "abs_map s (te_key ?u) = Some (lease ?u)" "te_other ?u = other stid"
      using abs_map_linked [OF inv lk] te(2) by (simp_all add: trust_match_def)
    ultimately show ?thesis using reader_get_inv [OF inv' te(1)] by (simp add: trust_abs_eq)
  next
    assume l: "ht_lookup ?s ?P ids = Some None" and no: "\<And>i te. linked ?s i te \<Longrightarrow> \<not> ?P te"
    have "abs_map s k = None" if "fst k = other stid" for k
      using no that by (auto simp: abs_map_None [OF inv] trust_match_def te_key_def)
    moreover have "trust_stateid_find stid s = Some (None, ts_bump ts_lookup_misses_update ?s)"
      using ht l find_node_run(1) [OF inv'] by (simp add: trust_stateid_find_def Let_def)
    ultimately show ?thesis using inv by (simp add: trust_abs_eq)
  qed
qed

section \<open>Operations and their specification\<close>

datatype trust_op =
    Register stateid4 u64 u64 u64 u64 u32 u32 u64 "string option"
  | Revoke_fh stateid4 u64 u64 u64
  | Revoke stateid4
  | Bulk_revoke u64 u64
  | Renewal u32 u64
  | Reaper u64 u64 "u32 option"
  | Fini

abbreviation no_result :: "trust_state option \<Rightarrow> ((errno + unit) \<times> trust_state) option" where
  "no_result r \<equiv> map_option (Pair (Inr ())) r"

fun trust_exec :: "allocs \<Rightarrow> trust_op \<Rightarrow> trust_state \<Rightarrow> ((errno + unit) \<times> trust_state) option" where
  "trust_exec mem (Register stid sb ino iss tgt cid io expire princ) s =
     trust_stateid_register_fh mem stid sb ino iss tgt cid io expire princ s"
| "trust_exec mem (Revoke_fh stid sb ino iss) s = no_result (trust_stateid_revoke_fh stid sb ino iss s)"
| "trust_exec mem (Revoke stid) s = no_result (trust_stateid_revoke stid s)"
| "trust_exec mem (Bulk_revoke iss tgt) s = no_result (trust_stateid_bulk_revoke_scoped iss tgt s)"
| "trust_exec mem (Renewal l now) s = no_result (trust_stateid_renewal_scan l now s)"
| "trust_exec mem (Reaper now now2 ss) s = no_result (trust_reaper_cycle now now2 ss s)"
| "trust_exec mem Fini s = no_result (trust_stateid_fini s)"

text \<open>
  The specification relates the map before, the result and the map after. A revocation by stateid
  alone removes one lease of that stateid, and which one is not specified.
\<close>

definition revokes_one :: "u8 list \<Rightarrow> (trust_entry \<Rightarrow> bool) \<Rightarrow> trust_map \<Rightarrow> trust_map \<Rightarrow> bool" where
  "revokes_one oth may m m' \<longleftrightarrow> (\<exists>k. fst k = oth \<and> m' = revoke_key k may m
     \<and> (m k = None \<longrightarrow> (\<forall>k'. fst k' = oth \<longrightarrow> m k' = None)))"

fun trust_spec :: "allocs \<Rightarrow> trust_op \<Rightarrow> trust_map \<Rightarrow> errno + unit \<Rightarrow> trust_map option \<Rightarrow> bool" where
  "trust_spec mem (Register stid sb ino iss tgt cid io expire princ) m r m' \<longleftrightarrow>
     (r, m') = apsnd Some (register_map (mem ''trust_entry'') stid sb ino iss tgt cid io expire princ m)"
| "trust_spec mem (Revoke_fh stid sb ino iss) m r m' \<longleftrightarrow> r = Inr () \<and>
     (if sb \<noteq> 0 \<or> ino \<noteq> 0 then m' = Some (revoke_key (other stid, sb, ino) (\<lambda>v. te_issuer_clientid v = iss) m)
      else \<exists>m''. m' = Some m'' \<and> revokes_one (other stid) (\<lambda>v. te_issuer_clientid v = iss) m m'')"
| "trust_spec mem (Revoke stid) m r m' \<longleftrightarrow> r = Inr () \<and>
     (\<exists>m''. m' = Some m'' \<and> revokes_one (other stid) (\<lambda>v. True) m m'')"
| "trust_spec mem (Bulk_revoke iss tgt) m r m' \<longleftrightarrow> r = Inr () \<and> m' = Some (bulk_map iss tgt m)"
| "trust_spec mem (Renewal l now) m r m' \<longleftrightarrow> r = Inr () \<and> m' = Some (map_option (renew_lease l now) \<circ> m)"
| "trust_spec mem (Reaper now now2 ss) m r m' \<longleftrightarrow> r = Inr () \<and> m' = Some (cycle_map now now2 ss m)"
| "trust_spec mem Fini m r m' \<longleftrightarrow> r = Inr () \<and> m' = None"

text \<open>The expiry pass drops a reference that it does not own when an expired entry has a reader.\<close>

fun op_allowed :: "(nat \<Rightarrow> nat) \<Rightarrow> trust_op \<Rightarrow> trust_state \<Rightarrow> bool" where
  "op_allowed x (Reaper now now2 ss) s \<longleftrightarrow> (\<forall>i te. linked s i te \<longrightarrow> expired now te \<longrightarrow> x i = 0)"
| "op_allowed x op s \<longleftrightarrow> True"

lemma effect_SomeD:
  assumes "effect x s run f" "trust_abs s = Some m"
  shows "\<exists>s'. run = Some s' \<and> trust_inv x s' \<and> trust_abs s' = Some (f m)"
  using assms by (auto simp: effect_def)

lemma effect_no_result:
  assumes "effect x s run f" "trust_abs s = Some m"
  shows "\<exists>r s'. no_result run = Some (r, s') \<and> trust_inv x s' \<and> r = Inr () \<and> trust_abs s' = Some (f m)"
  using effect_SomeD [OF assms] by auto

lemma abs_map_SomeD: "trust_abs s = Some m \<Longrightarrow> abs_map s = m \<and> (\<exists>ids. trust_ht s = Some ids)"
  by (cases "trust_ht s") (auto simp: abs_map_def trust_abs_def)

lemma revoke_any_spec:
  assumes "trust_inv x s" "trust_abs s = Some m"
  shows "\<exists>s' m''. trust_stateid_revoke_match stid 0 0 iss chk s = Some s' \<and> trust_inv x s' \<and> trust_abs s' = Some m''
    \<and> revokes_one (other stid) (\<lambda>v. chk \<longrightarrow> te_issuer_clientid v = iss) m m''"
proof -
  obtain k where k: "effect x s (trust_stateid_revoke_match stid 0 0 iss chk s)
      (revoke_key k (\<lambda>v. chk \<longrightarrow> te_issuer_clientid v = iss))" "fst k = other stid"
    "m k = None \<longrightarrow> (\<forall>k'. fst k' = other stid \<longrightarrow> m k' = None)"
    using revoke_any_effect [OF assms(1), of stid iss chk] abs_map_SomeD [OF assms(2)] by auto
  have "revokes_one (other stid) (\<lambda>v. chk \<longrightarrow> te_issuer_clientid v = iss) m
      (revoke_key k (\<lambda>v. chk \<longrightarrow> te_issuer_clientid v = iss) m)"
    unfolding revokes_one_def using k(2,3) by (intro exI [of _ k]) simp
  with effect_SomeD [OF k(1) assms(2)] show ?thesis by blast
qed

lemma trust_exec_spec:
  assumes inv: "trust_inv x s" and m: "trust_abs s = Some m" and ok: "op_allowed x op s"
  shows "\<exists>r s'. trust_exec mem op s = Some (r, s') \<and> trust_inv x s' \<and> trust_spec mem op m r (trust_abs s')"
proof (cases op)
  case (Register stid sb ino iss tgt cid io expire princ)
  obtain ids where ht: "trust_ht s = Some ids" and am: "abs_map s = m" using abs_map_SomeD [OF m] by blast
  from register_run [OF inv ht, of mem stid sb ino iss tgt cid io expire princ] obtain r s' where
    r: "trust_stateid_register_fh mem stid sb ino iss tgt cid io expire princ s = Some (r, s')" "trust_inv x s'"
      "trust_ht s' \<noteq> None" "register_map (mem ''trust_entry'') stid sb ino iss tgt cid io expire princ m = (r, abs_map s')"
    unfolding am by blast
  from r(3) have "trust_abs s' = Some (abs_map s')" by (auto simp: trust_abs_eq)
  with Register r show ?thesis by simp
next
  case (Revoke_fh stid sb ino iss)
  show ?thesis
  proof (cases "sb \<noteq> 0 \<or> ino \<noteq> 0")
    case True
    from effect_no_result [OF revoke_exact_effect [OF inv True, of stid iss True] m] Revoke_fh True show ?thesis
      by (simp add: trust_stateid_revoke_fh_def)
  next
    case False
    with revoke_any_spec [OF inv m, of stid iss True] Revoke_fh show ?thesis by (auto simp: trust_stateid_revoke_fh_def)
  qed
next
  case (Revoke stid)
  with revoke_any_spec [OF inv m, of stid 0 False] show ?thesis by (auto simp: trust_stateid_revoke_def)
next
  case (Bulk_revoke iss tgt)
  from effect_no_result [OF bulk_revoke_effect [OF inv] m] Bulk_revoke show ?thesis by simp
next
  case (Renewal l now)
  from effect_no_result [OF renewal_scan_effect [OF inv] m] Renewal show ?thesis by simp
next
  case (Reaper now now2 ss)
  with ok have "\<forall>i te. linked s i te \<longrightarrow> expired now te \<longrightarrow> x i = 0" by simp
  from effect_no_result [OF reaper_cycle_effect [OF inv this, of now2 ss] m] Reaper show ?thesis by simp
next
  case Fini
  from fini_run [OF inv] Fini show ?thesis by (auto simp: trust_abs_def)
qed

end
