(* ===== verification/TrustProperties.thy ===== *)
theory TrustProperties
  imports TrustReach
begin

text \<open>
  The properties of the trust table and its users, over the states that operations and readers
  reach.
\<close>

section \<open>Reachable states\<close>

definition trust_start :: trust_state where
  "trust_start = \<lparr>trust_ht = None, te_heap = Map.empty, te_next = 0,
     ts_counters = \<lparr>ts_registers = 0, ts_renewals = 0, ts_revokes = 0, ts_bulk_revokes = 0, ts_expired = 0,
       ts_lookups = 0, ts_lookup_misses = 0, ts_validate = (\<lambda>_. 0)\<rparr>\<rparr>"

text \<open>\<open>trust_reach x s\<close>: the state \<open>s\<close>, in which readers hold the references \<open>x\<close>.\<close>

inductive trust_reach :: "(nat \<Rightarrow> nat) \<Rightarrow> trust_state \<Rightarrow> bool" where
  start: "trust_reach (\<lambda>_. 0) trust_start"
| init: "trust_reach x s \<Longrightarrow> trust_ht s = None \<Longrightarrow> trust_reach x (snd (trust_stateid_init mem ret s))"
| exec: "trust_reach x s \<Longrightarrow> op_allowed x op s \<Longrightarrow> trust_exec mem op s = Some (r, s') \<Longrightarrow> trust_reach x s'"
| find_fh: "trust_reach x s \<Longrightarrow> trust_stateid_find_fh stid sb ino s = Some (Some i, s') \<Longrightarrow> trust_reach (x(i := Suc (x i))) s'"
| find_fh_miss: "trust_reach x s \<Longrightarrow> trust_stateid_find_fh stid sb ino s = Some (None, s') \<Longrightarrow> trust_reach x s'"
| find: "trust_reach x s \<Longrightarrow> trust_stateid_find stid s = Some (Some i, s') \<Longrightarrow> trust_reach (x(i := Suc (x i))) s'"
| find_miss: "trust_reach x s \<Longrightarrow> trust_stateid_find stid s = Some (None, s') \<Longrightarrow> trust_reach x s'"
| put: "trust_reach x s \<Longrightarrow> 0 < x i \<Longrightarrow> trust_entry_put (Some i) s = Some s' \<Longrightarrow> trust_reach (x(i := x i - 1)) s'"
| count: "trust_reach x s \<Longrightarrow> trust_reach x (trust_stateid_count_validation outcome s)"

lemma trust_exec_not_initialised:
  assumes "trust_ht s = None" "trust_exec mem op s = Some (r, s')"
  shows "s' = s"
  using assms
  by (cases op)
    (auto simp: trust_stateid_register_fh_def trust_stateid_revoke_fh_def trust_stateid_revoke_def
      trust_stateid_revoke_match_def trust_stateid_bulk_revoke_scoped_def trust_stateid_renewal_scan_def
      trust_reaper_cycle_def trust_stateid_fini_def)

lemma count_simps [simp]:
  "trust_inv x (trust_stateid_count_validation o1 s) = trust_inv x s"
  "trust_abs (trust_stateid_count_validation o1 s) = trust_abs s"
  "abs_map (trust_stateid_count_validation o1 s) = abs_map s"
  by (simp_all add: trust_stateid_count_validation_def trust_abs_eq)

lemma init_inv:
  assumes "trust_inv x s" "trust_ht s = None"
  shows "trust_inv x (snd (trust_stateid_init mem ret s))"
proof -
  have "trust_inv x (s\<lparr>trust_ht := h\<rparr>)" if "h = None \<or> h = Some []" for h
    using assms that by (auto simp: trust_inv_def trust_tbl_def)
  then show ?thesis by (simp add: trust_stateid_init_def)
qed

lemma trust_reach_inv: "trust_reach x s \<Longrightarrow> trust_inv x s"
proof (induction rule: trust_reach.induct)
  case start
  then show ?case by (simp add: trust_inv_def trust_start_def trust_tbl_def)
next
  case (init x s mem ret)
  then show ?case by (simp add: init_inv)
next
  case (exec x s op mem r s')
  show ?case
  proof (cases "trust_ht s")
    case None
    with exec trust_exec_not_initialised show ?thesis by metis
  next
    case (Some ids)
    then have "trust_abs s = Some (abs_map s)" by (simp add: trust_abs_eq)
    from trust_exec_spec [OF exec.IH this exec.hyps(2), of mem] exec.hyps(3) show ?thesis by auto
  qed
next
  case (find_fh x s stid sb ino i s')
  from find_fh_run [OF find_fh.IH, of stid sb ino] find_fh.hyps(2) have "trust_inv (x(i := Suc (x i))) s'" by auto
  then show ?case .
next
  case (find_fh_miss x s stid sb ino s')
  from find_fh_run [OF find_fh_miss.IH, of stid sb ino] find_fh_miss.hyps(2) show ?case by auto
next
  case (find x s stid i s')
  from find_run [OF find.IH, of stid] find.hyps(2) have "trust_inv (x(i := Suc (x i))) s'" by auto
  then show ?case .
next
  case (find_miss x s stid s')
  from find_run [OF find_miss.IH, of stid] find_miss.hyps(2) show ?case by auto
next
  case (put x s i s')
  from trust_put_law [OF put.IH put.hyps(2)] put.hyps(3) have "trust_inv (x(i := x i - 1)) s'" by auto
  then show ?case .
next
  case (count x s outcome)
  then show ?case by simp
qed

section \<open>The gate\<close>

text \<open>The lease that a CHUNK operation on a file presents: of the file itself, or one without a superblock.\<close>

definition lease_for :: "trust_map \<Rightarrow> u8 list \<Rightarrow> u64 \<Rightarrow> u64 \<Rightarrow> trust_entry option" where
  "lease_for m oth sb ino = (case m (oth, sb, ino) of
       Some v \<Rightarrow> Some v
     | None \<Rightarrow> if sb \<noteq> 0 then m (oth, 0, ino) else None)"

definition gate_verdict :: "compound \<Rightarrow> stateid4 \<Rightarrow> u32 \<Rightarrow> bool \<Rightarrow> u64 \<Rightarrow> trust_map \<Rightarrow> nfsstat4" where
  "gate_verdict cmp stid client_id require_rw now m =
     (if stateid4_is_special stid then NFS4ERR_BAD_STATEID
      else case lease_for m (other stid) (nfh_sb (c_curr_nfh cmp)) (nfh_ino (c_curr_nfh cmp)) of
        None \<Rightarrow> NFS4ERR_BAD_STATEID
      | Some v \<Rightarrow> snd (check_trust_entry cmp client_id require_rw now v))"

lemma check_trust_entry_lease [simp]:
  "check_trust_entry cmp cid rw now (te\<lparr>te_ref := r\<rparr>) = check_trust_entry cmp cid rw now te"
  by (simp add: check_trust_entry_def)

lemma chunk_check_run:
  assumes r: "trust_reach x s"
  shows "\<exists>s'. chunk_check_trusted_stateid cmp stid cid rw now s = Some (gate_verdict cmp stid cid rw now (abs_map s), s')
    \<and> trust_reach x s' \<and> trust_abs s' = trust_abs s"
proof (cases "stateid4_is_special stid")
  case True
  with r count show ?thesis by (simp add: chunk_check_trusted_stateid_def gate_verdict_def)
next
  case False
  note inv = trust_reach_inv [OF r]
  let ?sb = "nfh_sb (c_curr_nfh cmp)" and ?ino = "nfh_ino (c_curr_nfh cmp)"
  obtain f s1 where f: "trust_stateid_find_fh stid ?sb ?ino s = Some (f, s1)" "trust_abs s1 = trust_abs s"
    "case f of
       None \<Rightarrow> trust_inv x s1 \<and> abs_map s (other stid, ?sb, ?ino) = None \<and> abs_map s (other stid, 0, ?ino) = None
     | Some i \<Rightarrow> trust_inv (x(i := Suc (x i))) s1 \<and> (\<exists>te. te_heap s1 i = Some te \<and>
         (if abs_map s (other stid, ?sb, ?ino) \<noteq> None then abs_map s (other stid, ?sb, ?ino) = Some (lease te)
          else ?sb \<noteq> 0 \<and> abs_map s (other stid, 0, ?ino) = Some (lease te)))"
    using find_fh_run [OF inv, of stid ?sb ?ino] by blast
  show ?thesis
  proof (cases f)
    case None
    with f have "lease_for (abs_map s) (other stid) ?sb ?ino = None" by (simp add: lease_for_def)
    then show ?thesis
      using f None False find_fh_miss [OF r, of stid ?sb ?ino s1]
      by (auto simp: chunk_check_trusted_stateid_def gate_verdict_def intro: count)
  next
    case (Some i)
    then obtain te where te: "te_heap s1 i = Some te" "lease_for (abs_map s) (other stid) ?sb ?ino = Some (lease te)"
      using f(3) by (auto simp: lease_for_def split: if_splits)
    have r1: "trust_reach (x(i := Suc (x i))) s1" using find_fh [OF r] f(1) Some by simp
    obtain s2 where s2: "trust_entry_put (Some i) s1 = Some s2" "trust_abs s2 = trust_abs s1"
      using trust_readers.borrow [OF trust_reach_inv [OF r1]] by blast
    have r2: "trust_reach x s2" using put [OF r1 _ s2(1)] by simp
    obtain o1 st where c: "check_trust_entry cmp cid rw now te = (o1, st)" by fastforce
    have "chunk_check_trusted_stateid cmp stid cid rw now s = Some (st, trust_stateid_count_validation o1 s2)"
      using f(1) Some False te(1) c s2(1) by (simp add: chunk_check_trusted_stateid_def Let_def)
    moreover have "gate_verdict cmp stid cid rw now (abs_map s) = st"
      using False te(2) c by (simp add: gate_verdict_def)
    ultimately show ?thesis using r2 s2(2) f(2) count by auto
  qed
qed

section \<open>Properties of the table\<close>

lemma reach_exec:
  assumes "trust_reach x s" "trust_abs s = Some m" "op_allowed x op s"
  shows "\<exists>r s'. trust_exec mem op s = Some (r, s') \<and> trust_reach x s' \<and> trust_spec mem op m r (trust_abs s')"
  using trust_exec_spec [OF trust_reach_inv [OF assms(1)] assms(2,3), of mem] exec [OF assms(1,3)] by blast

lemma abs_map_of: "trust_abs s = Some m \<Longrightarrow> abs_map s = m"
  by (simp add: abs_map_def)


text \<open>A table with one lease, for the examples.\<close>

definition wit_stid :: stateid4 where
  "wit_stid = \<lparr>seqid = 1, other = [1, 2, 3, 4, 5, 6, 7, 8, 9, 10, 11, 12]\<rparr>"

definition wit_empty :: trust_state where "wit_empty = trust_start\<lparr>trust_ht := Some []\<rparr>"

definition wit_lease :: "u64 \<Rightarrow> u64 \<Rightarrow> trust_entry" where
  "wit_lease sb expire = new_trust_entry wit_stid sb 7 5 6 9 2 expire None"

definition wit_table :: "u64 \<Rightarrow> u64 \<Rightarrow> trust_state" where
  "wit_table sb expire = ts_bump ts_registers_update (add_trust_entry (wit_lease sb expire) wit_empty)"

lemma wit_empty_reach: "trust_reach (\<lambda>_. 0) wit_empty"
  using init [OF start, of all_allocs 0] by (simp add: trust_stateid_init_def wit_empty_def trust_start_def)

lemma wit_table_reach: "trust_reach (\<lambda>_. 0) (wit_table sb expire)"
  by (rule exec [OF wit_empty_reach, of "Register wit_stid sb 7 5 6 9 2 expire None" all_allocs "Inr ()"])
    (simp_all add: trust_stateid_register_fh_def wit_empty_def wit_table_def wit_lease_def)

lemma wit_table_abs:
  "trust_abs (wit_table sb expire) = Some [(other wit_stid, sb, 7) \<mapsto> lease (wit_lease sb expire)]"
  by (simp add: wit_table_def trust_abs_def wit_empty_def add_trust_entry_def ht_add_def trust_start_def
      wit_lease_def new_trust_entry_def te_key_def)


text \<open>C22. Bulk revocation terminates and is complete: from every reachable state the restart loop
  with its batches of 64 entries returns, and afterwards a lease is in the table exactly when it was
  there before and does not belong to the issuer and the target (all targets, for target 0).\<close>

theorem trust_bulk_revoke_complete:
  assumes "trust_reach x s" "trust_abs s = Some m"
  shows "\<exists>s' m'. trust_stateid_bulk_revoke_scoped issuer target s = Some s' \<and> trust_reach x s' \<and> trust_abs s' = Some m'
    \<and> (\<forall>k v. m' k = Some v \<longleftrightarrow>
         m k = Some v \<and> \<not> (te_issuer_clientid v = issuer \<and> (target = 0 \<or> te_target_clientid v = target)))"
proof -
  obtain s' where s': "trust_stateid_bulk_revoke_scoped issuer target s = Some s'" "trust_reach x s'"
    "trust_abs s' = Some (bulk_map issuer target m)"
    using reach_exec [OF assms, of "Bulk_revoke issuer target" all_allocs] by auto
  show ?thesis
    by (rule exI [of _ s'], rule exI [of _ "bulk_map issuer target m"]) (use s' in \<open>auto simp: bulk_map_def bind_eq_Some_conv\<close>)
qed

lemma trust_bulk_revoke_complete_witness:
  "\<exists>s' m'. trust_stateid_bulk_revoke_scoped 5 6 (wit_table 1 100) = Some s' \<and> trust_reach (\<lambda>_. 0) s' \<and> trust_abs s' = Some m'
    \<and> (\<forall>k v. m' k = Some v \<longleftrightarrow> [(other wit_stid, 1, 7) \<mapsto> lease (wit_lease 1 100)] k = Some v
         \<and> \<not> (te_issuer_clientid v = 5 \<and> (6 = (0 :: u64) \<or> te_target_clientid v = 6)))"
  by (rule trust_bulk_revoke_complete [OF wit_table_reach wit_table_abs])


definition wit_io :: "u64 \<Rightarrow> compound" where
  "wit_io sb = \<lparr>c_curr_nfh = \<lparr>nfh_vers = 1, nfh_reserved_1 = 0, nfh_reserved_2 = 0, nfh_reserved_3 = 0, nfh_sb = sb, nfh_ino = 7\<rparr>,
     c_inode = Some \<lparr>i_ino = 7, i_mode = 0x81A4, i_attr_flags = 0xC0\<rparr>, c_gss_principal = None,
     c_nfs4_client = Some \<lparr>nc_exchgid_flags = 0x00020000, c_id = 5\<rparr>\<rparr>"

lemma wit_not_special: "\<not> stateid4_is_special wit_stid"
  by code_simp

lemma wit_gate: "gate_verdict (wit_io 1) wit_stid 9 True 60 (abs_map (wit_table 1 100)) = NFS4_OK"
  unfolding abs_map_of [OF wit_table_abs]
  by (simp add: wit_not_special gate_verdict_def lease_for_def wit_io_def wit_lease_def new_trust_entry_def
      check_trust_entry_def TRUST_ACTIVE_def TRUST_PENDING_def LAYOUTIOMODE4_RW_def)


section \<open>From the control operations to the data path\<close>

lemma check_args_princ:
  assumes "trust_stateid_check_args cmp args = Inr princ"
  shows "princ = (if tsa_principal args = [] then [] else c_string (tsa_principal args @ tsa_after args))"
    and "length (tsa_principal args) < TRUST_PRINCIPAL_MAX" and "\<not> stateid4_is_special (tsa_layout_stateid args)"
    and "nseconds (tsa_expire args) < 1000000000"
  using assms by (auto simp: trust_stateid_check_args_def TRUST_PRINCIPAL_MAX_def split: if_splits)

lemma trust_stateid_ok_registers:
  assumes r: "trust_reach x s" and ok: "nfs4_op_trust_stateid mem wall_ns mono_ns cmp args s = Some (NFS4_OK, s')"
    and inode: "c_inode cmp = Some inode"
    and new: "abs_map s (other (tsa_layout_stateid args), nfh_sb (c_curr_nfh cmp), i_ino inode) = None"
  obtains nc :: nfs4_client and princ where "trust_stateid_check_args cmp args = Inr princ" "trust_reach x s'"
    "trust_stateid_convert_expire (tsa_expire args) wall_ns mono_ns \<noteq> 0"
    "abs_map s' = (abs_map s)((other (tsa_layout_stateid args), nfh_sb (c_curr_nfh cmp), i_ino inode) \<mapsto>
        lease (new_trust_entry (tsa_layout_stateid args) (nfh_sb (c_curr_nfh cmp)) (i_ino inode) (c_id nc) (tsa_pnfs_clientid args)
          (tsa_client_id args) (tsa_iomode args) (trust_stateid_convert_expire (tsa_expire args) wall_ns mono_ns) (Some princ)))"
proof -
  let ?stid = "tsa_layout_stateid args" and ?sb = "nfh_sb (c_curr_nfh cmp)"
  let ?exp = "trust_stateid_convert_expire (tsa_expire args) wall_ns mono_ns"
  from ok obtain nc princ where nc: "require_mds_client cmp = Inr nc" and princ: "trust_stateid_check_args cmp args = Inr princ"
    and ne: "?exp \<noteq> 0"
    by (auto simp: nfs4_op_trust_stateid_def Let_def trust_stateid_check_args_def require_mds_client_def split: sum.splits if_splits option.splits)
  let ?op = "Register ?stid ?sb (i_ino inode) (c_id nc) (tsa_pnfs_clientid args) (tsa_client_id args) (tsa_iomode args) ?exp (Some princ)"
  from ok have "\<not> network_file_handle_empty (c_curr_nfh cmp)" by (auto simp: nfs4_op_trust_stateid_def)
  with ok nc princ ne inode obtain ret where run: "trust_exec mem ?op s = Some (ret, s')"
    and st: "(case ret of Inr _ \<Rightarrow> NFS4_OK | Inl e \<Rightarrow> if e = EINVAL then NFS4ERR_INVAL else NFS4ERR_SERVERFAULT) = NFS4_OK"
    by (auto simp: nfs4_op_trust_stateid_def Let_def bind_eq_Some_conv)
  have ret: "ret = Inr ()" using st by (cases ret) (auto split: if_splits)
  have ht: "trust_abs s = Some (abs_map s)"
    using run ret by (cases "trust_ht s") (auto simp: trust_stateid_register_fh_def trust_abs_eq)
  have sp: "trust_reach x s'" "trust_spec mem ?op (abs_map s) (Inr ()) (trust_abs s')"
    using reach_exec [OF r ht, of ?op mem] run ret by auto
  have "abs_map s' = (abs_map s)((other ?stid, ?sb, i_ino inode) \<mapsto> lease (new_trust_entry ?stid ?sb (i_ino inode) (c_id nc)
      (tsa_pnfs_clientid args) (tsa_client_id args) (tsa_iomode args) ?exp (Some princ)))"
    using sp(2) new by (auto simp: register_map_def split: if_splits intro!: abs_map_of)
  from that [OF princ sp(1) ne this] show thesis .
qed

text \<open>C13. From registration to I/O: when TRUST_STATEID returns NFS4_OK for a file that had no
  lease of that stateid, then every CHUNK operation on the file that presents the stateid, a writer
  identity that does not contradict the registered one, a layout that allows the access and the
  registered principal (if there is one, and its bytes are terminated in memory) is let through up to
  the deadline computed from the expiry, and refused with NFS4ERR_BAD_STATEID after it.\<close>

theorem trust_stateid_grants_io:
  assumes "trust_reach x s" and "nfs4_op_trust_stateid mem wall_ns mono_ns cmp args s = Some (NFS4_OK, s')"
    and "c_inode cmp = Some inode"
    and "abs_map s (other (tsa_layout_stateid args), nfh_sb (c_curr_nfh cmp), i_ino inode) = None"
    and "nfh_sb (c_curr_nfh io) = nfh_sb (c_curr_nfh cmp)" "nfh_ino (c_curr_nfh io) = i_ino inode" "c_inode io \<noteq> None"
    and "client_id = CHUNK_GUARD_CLIENT_ID_NONE \<or> tsa_client_id args \<in> {CHUNK_GUARD_CLIENT_ID_NONE, client_id}"
    and "require_rw \<longrightarrow> tsa_iomode args = LAYOUTIOMODE4_RW"
    and "tsa_principal args = [] \<or> (tsa_after args = CHR 0x00 # rest \<and> CHR 0x00 \<notin> set (tsa_principal args)
      \<and> c_gss_principal io = Some (tsa_principal args))"
  shows "\<exists>s''. chunk_check_trusted_stateid io (tsa_layout_stateid args) client_id require_rw now s' =
    Some (if now \<le> trust_stateid_convert_expire (tsa_expire args) wall_ns mono_ns then NFS4_OK else NFS4ERR_BAD_STATEID, s'')"
proof -
  obtain nc :: nfs4_client and princ where a: "trust_stateid_check_args cmp args = Inr princ" "trust_reach x s'"
    "trust_stateid_convert_expire (tsa_expire args) wall_ns mono_ns \<noteq> 0"
    and m: "abs_map s' = (abs_map s)((other (tsa_layout_stateid args), nfh_sb (c_curr_nfh cmp), i_ino inode) \<mapsto>
        lease (new_trust_entry (tsa_layout_stateid args) (nfh_sb (c_curr_nfh cmp)) (i_ino inode) (c_id nc) (tsa_pnfs_clientid args)
          (tsa_client_id args) (tsa_iomode args) (trust_stateid_convert_expire (tsa_expire args) wall_ns mono_ns) (Some princ)))"
    by (rule trust_stateid_ok_registers [OF assms(1-4)])
  note p = check_args_princ [OF a(1)]
  have princ: "take (TRUST_PRINCIPAL_MAX - 1) princ = tsa_principal args"
  proof (cases "tsa_principal args = []")
    case True
    with p(1) show ?thesis by simp
  next
    case False
    with assms(10) have "c_string (tsa_principal args @ tsa_after args) = tsa_principal args"
      unfolding c_string_def by (subst takeWhile_append2) auto
    with p(1,2) False show ?thesis by simp
  qed
  have "gate_verdict io (tsa_layout_stateid args) client_id require_rw now (abs_map s') =
      (if now \<le> trust_stateid_convert_expire (tsa_expire args) wall_ns mono_ns then NFS4_OK else NFS4ERR_BAD_STATEID)"
    using p(3) assms(5-10) a(3) princ
    by (simp add: gate_verdict_def lease_for_def m check_trust_entry_def new_trust_entry_def TRUST_ACTIVE_def TRUST_PENDING_def)
      (auto simp: not_le)
  with chunk_check_run [OF a(2), of io "tsa_layout_stateid args" client_id require_rw now] show ?thesis by auto
qed

definition wit_args :: TRUST_STATEID4args where
  "wit_args = \<lparr>tsa_layout_stateid = wit_stid, tsa_pnfs_clientid = 6, tsa_client_id = 9, tsa_iomode = 2,
     tsa_expire = \<lparr>seconds = 2, nseconds = 0\<rparr>, tsa_principal = [], tsa_after = []\<rparr>"

lemma wit_convert: "trust_stateid_convert_expire (tsa_expire wit_args) 1000000000 500 = 1000000500"
  by (simp add: trust_stateid_convert_expire_def wit_args_def)

lemma wit_trust_stateid:
  "nfs4_op_trust_stateid all_allocs 1000000000 500 (wit_io 1) wit_args wit_empty =
     Some (NFS4_OK, ts_bump ts_registers_update (add_trust_entry
       (new_trust_entry wit_stid 1 7 5 6 9 2 1000000500 (Some [])) wit_empty))"
  unfolding nfs4_op_trust_stateid_def wit_convert
  by (simp add: wit_io_def network_file_handle_empty_def require_mds_client_def EXCHGID4_FLAG_USE_PNFS_MDS_def
      trust_stateid_check_args_def wit_args_def wit_not_special LAYOUTIOMODE4_READ_def LAYOUTIOMODE4_RW_def
      trust_stateid_register_fh_def wit_empty_def)

lemma trust_stateid_grants_io_witness:
  "\<exists>s''. chunk_check_trusted_stateid (wit_io 1) (tsa_layout_stateid wit_args) 9 True 1000
     (ts_bump ts_registers_update (add_trust_entry (new_trust_entry wit_stid 1 7 5 6 9 2 1000000500 (Some [])) wit_empty)) =
     Some (if 1000 \<le> trust_stateid_convert_expire (tsa_expire wit_args) 1000000000 500 then NFS4_OK else NFS4ERR_BAD_STATEID, s'')"
  by (rule trust_stateid_grants_io [OF wit_empty_reach wit_trust_stateid, of "\<lparr>i_ino = 7, i_mode = 0x81A4, i_attr_flags = 0xC0\<rparr>"])
    (simp_all add: wit_io_def wit_args_def wit_empty_def abs_map_def trust_abs_def LAYOUTIOMODE4_RW_def)

lemma revoke_fh_map:
  assumes r: "trust_reach x s" and m: "trust_abs s = Some m" and key: "sb \<noteq> 0 \<or> ino \<noteq> 0"
  shows "\<exists>s'. trust_stateid_revoke_fh stid sb ino iss s = Some s' \<and> trust_reach x s'
    \<and> trust_abs s' = Some (revoke_key (other stid, sb, ino) (\<lambda>v. te_issuer_clientid v = iss) m)"
  using reach_exec [OF r m, of "Revoke_fh stid sb ino iss" all_allocs] key by auto



text \<open>C36. A lease without a superblock cannot be revoked by file: when the table has no lease for
  the file itself but one without a superblock, \<^verbatim>\<open>trust_stateid_revoke_fh\<close> finds that
  entry and leaves it, whoever registered it, and the gate goes on to decide by it.\<close>

theorem trust_revoke_skips_legacy:
  assumes "trust_reach x s" "trust_abs s = Some m" "sb \<noteq> 0" "m (other stid, sb, ino) = None"
    "m (other stid, 0, ino) = Some v" "\<not> stateid4_is_special stid" "nfh_sb (c_curr_nfh io) = sb" "nfh_ino (c_curr_nfh io) = ino"
  shows "\<exists>s' s''. trust_stateid_revoke_fh stid sb ino issuer s = Some s' \<and> trust_abs s' = Some m
    \<and> chunk_check_trusted_stateid io stid client_id require_rw now s' =
        Some (snd (check_trust_entry io client_id require_rw now v), s'')"
proof -
  obtain s' where s': "trust_stateid_revoke_fh stid sb ino issuer s = Some s'" "trust_reach x s'" "trust_abs s' = Some m"
    using revoke_fh_map [OF assms(1,2), of sb ino stid issuer] assms(3,4) by (auto simp: revoke_key_def)
  have "gate_verdict io stid client_id require_rw now (abs_map s') = snd (check_trust_entry io client_id require_rw now v)"
    using assms(3-8) by (simp add: gate_verdict_def lease_for_def abs_map_of [OF s'(3)])
  with chunk_check_run [OF s'(2), of io stid client_id require_rw now] s' show ?thesis by auto
qed

lemma trust_revoke_skips_legacy_witness:
  "\<exists>s' s''. trust_stateid_revoke_fh wit_stid 1 7 5 (wit_table 0 100) = Some s'
    \<and> trust_abs s' = Some [(other wit_stid, 0, 7) \<mapsto> lease (wit_lease 0 100)]
    \<and> chunk_check_trusted_stateid (wit_io 1) wit_stid 9 True 60 s' =
        Some (snd (check_trust_entry (wit_io 1) 9 True 60 (lease (wit_lease 0 100))), s'')"
  by (rule trust_revoke_skips_legacy [OF wit_table_reach wit_table_abs]) (simp_all add: wit_not_special wit_io_def)

section \<open>Deadlines\<close>

lemma expire_wall_exact:
  assumes "unat (seconds e) < 18446744073" "nseconds e < 1000000000"
  shows "unat (seconds e * 1000000000 + ucast (nseconds e)) = unat (seconds e) * 1000000000 + unat (nseconds e)"
proof -
  have n: "unat (ucast (nseconds e) :: 64 word) = unat (nseconds e)" by (rule unat_ucast_u32_u64)
  have b: "unat (nseconds e) < 1000000000" using assms(2) by (simp add: word_less_nat_alt)
  have m: "unat (seconds e * 1000000000) = unat (seconds e) * 1000000000"
    using unat_u64_mult [of "seconds e" 1000000000] assms(1) by simp
  show ?thesis using unat_u64_add [of "seconds e * 1000000000" "ucast (nseconds e)"] assms(1) b unfolding m n by simp
qed



section \<open>The reaper\<close>


text \<open>Iterations of the reaper thread at given times, with the times of both passes.\<close>

fun reaper_runs :: "u32 \<Rightarrow> (u64 \<times> u64) list \<Rightarrow> trust_state \<Rightarrow> trust_state option" where
  "reaper_runs lease_sec [] s = Some s"
| "reaper_runs lease_sec ((now, now2) # ticks) s = do {
     s \<leftarrow> trust_reaper_cycle now now2 (Some lease_sec) s;
     reaper_runs lease_sec ticks s
   }"

text \<open>A schedule in which each iteration starts before \<open>b\<close>, and the next within \<open>d\<close> of the renewal pass.\<close>

fun on_time :: "nat \<Rightarrow> nat \<Rightarrow> (u64 \<times> u64) list \<Rightarrow> bool" where
  "on_time d b [] \<longleftrightarrow> True"
| "on_time d b ((now, now2) # ticks) \<longleftrightarrow>
     now \<le> now2 \<and> unat now2 < b \<and> unat now2 + (2 * d + 1) < 2 ^ 64 \<and> on_time d (unat now2 + d) ticks"

definition lease_ns :: "u32 \<Rightarrow> nat" where
  "lease_ns lease_sec = unat lease_sec * 1000000000"

lemma lease_ns_word: "unat (ucast lease_sec * 1000000000 :: u64) = lease_ns lease_sec"
proof -
  have "unat lease_sec < 2 ^ 32" using unsigned_less [of lease_sec, where ?'a = nat] by simp
  then show ?thesis
    using unat_u64_mult [of "ucast lease_sec" 1000000000] by (simp add: unat_ucast_u32_u64 lease_ns_def)
qed

lemma renewed_expiry:
  assumes "now < te_expire_ns v" "unat now + (2 * (lease_ns l div 2) + 1) < 2 ^ 64"
  shows "unat now + lease_ns l div 2 \<le> unat (te_expire_ns (renew_lease l now v))" and "te_expire_ns (renew_lease l now v) \<noteq> 0"
proof -
  let ?e = "te_expire_ns v" and ?L = "ucast l * 1000000000 :: u64"
  have e: "?e \<noteq> 0" "\<not> ?e \<le> now" using assms(1) by auto
  have sub: "unat (?e - now) = unat ?e - unat now" "unat now < unat ?e"
    using assms(1) unat_sub [of now ?e] by (simp_all add: word_less_nat_alt word_le_nat_alt)
  have half: "unat (?L div 2) = lease_ns l div 2" by (simp add: unat_div lease_ns_word)
  have "lease_ns l \<le> 2 * (lease_ns l div 2) + 1" by simp
  then have add: "unat (now + ?L) = unat now + lease_ns l"
    using unat_u64_add [of now ?L] assms(2) by (simp add: lease_ns_word)
  have "unat now + lease_ns l div 2 \<le> unat (te_expire_ns (renew_lease l now v)) \<and> te_expire_ns (renew_lease l now v) \<noteq> 0"
  proof (cases "?e - now \<ge> ?L div 2")
    case True
    with e sub half show ?thesis by (simp add: renew_lease_def word_le_nat_alt)
  next
    case False
    then have "0 < lease_ns l" using half by (auto simp: word_le_nat_alt not_le)
    with False e add have "unat (te_expire_ns (renew_lease l now v)) = unat now + lease_ns l" "0 < lease_ns l"
      by (simp_all add: renew_lease_def)
    then show ?thesis by (auto simp: unat_eq_0 [symmetric] simp del: unat_eq_0)
  qed
  then show "unat now + lease_ns l div 2 \<le> unat (te_expire_ns (renew_lease l now v))"
    and "te_expire_ns (renew_lease l now v) \<noteq> 0" by auto
qed

lemma cycle_reach:
  assumes "trust_reach (\<lambda>_. 0) s" "trust_abs s = Some m"
  shows "\<exists>s'. trust_reaper_cycle now now2 ss s = Some s' \<and> trust_reach (\<lambda>_. 0) s' \<and> trust_abs s' = Some (cycle_map now now2 ss m)"
  using reach_exec [OF assms, of "Reaper now now2 ss" all_allocs] by auto

text \<open>C23. Liveness of renewed leases: when no reader holds references at the passes, and the
  renewal passes follow each other within less than half a lease, a lease that is not expired at the
  first pass is in the table after any number of iterations of the reaper.\<close>

theorem trust_renewal_keeps_lease:
  assumes "trust_reach (\<lambda>_. 0) s" "trust_abs s = Some m" "m k = Some v"
    and "on_time (lease_ns lease_sec div 2) (unat (te_expire_ns v)) ticks"
  shows "\<exists>s' m' v'. reaper_runs lease_sec ticks s = Some s' \<and> trust_abs s' = Some m' \<and> m' k = Some v'"
  using assms
proof (induction ticks arbitrary: s m v)
  case Nil
  then show ?case by auto
next
  case (Cons tick ticks)
  obtain now now2 where t: "tick = (now, now2)" by (cases tick)
  let ?v = "renew_lease lease_sec now2 v" and ?m = "cycle_map now now2 (Some lease_sec) m"
  have le: "now \<le> now2" "now2 < te_expire_ns v" and lim: "unat now2 + (2 * (lease_ns lease_sec div 2) + 1) < 2 ^ 64"
    and rest: "on_time (lease_ns lease_sec div 2) (unat now2 + lease_ns lease_sec div 2) ticks"
    using Cons.prems(4) t by (simp_all add: word_less_nat_alt)
  obtain s1 where s1: "trust_reaper_cycle now now2 (Some lease_sec) s = Some s1" "trust_reach (\<lambda>_. 0) s1" "trust_abs s1 = Some ?m"
    using cycle_reach [OF Cons.prems(1,2)] by blast
  have "now < te_expire_ns v" using le by (rule le_less_trans)
  then have m: "?m k = Some ?v"
    using Cons.prems(3) by (auto simp: cycle_map_def reap_map_def expired_def)
  have mono_b: "on_time d b ts \<Longrightarrow> b \<le> b' \<Longrightarrow> on_time d b' ts" for d b b' ts
    by (cases ts) (auto split: prod.splits)
  have "on_time (lease_ns lease_sec div 2) (unat (te_expire_ns ?v)) ticks"
    by (rule mono_b [OF rest renewed_expiry(1) [OF le(2) lim]])
  from Cons.IH [OF s1(2,3) m this] s1(1) t show ?case by simp
qed

lemma trust_renewal_keeps_lease_witness:
  "\<exists>s' m' v'. reaper_runs 45 [(1000, 2000), (20000000000, 20000001000)] (wit_table 1 100000) = Some s'
     \<and> trust_abs s' = Some m' \<and> m' (other wit_stid, 1, 7) = Some v'"
  by (rule trust_renewal_keeps_lease [OF wit_table_reach wit_table_abs, where v = "lease (wit_lease 1 100000)"])
    (simp_all add: lease_ns_def wit_lease_def new_trust_entry_def)

definition TRUST_REAPER_SCAN_SEC :: nat where "TRUST_REAPER_SCAN_SEC = 60"
definition DEFAULT_LEASE_TIME :: u32 where "DEFAULT_LEASE_TIME = 45"

text \<open>C37. With the default lease time the renewal pass renews nothing for good: a lease that ends
  within one lease time of a renewal pass, renewed by it or not, is removed by the next iteration,
  which comes 60 seconds later.\<close>

theorem trust_renewal_default_lease:
  assumes "trust_reach (\<lambda>_. 0) s" "trust_abs s = Some m" "m k = Some v" "te_expire_ns v \<noteq> 0"
    and "unat (te_expire_ns v) \<le> unat now2 + lease_ns DEFAULT_LEASE_TIME"
    and "unat now2 + TRUST_REAPER_SCAN_SEC * 1000000000 \<le> unat now3"
  shows "\<exists>s' m'. reaper_runs DEFAULT_LEASE_TIME [(now, now2), (now3, now4)] s = Some s' \<and> trust_abs s' = Some m' \<and> m' k = None"
proof -
  let ?L = DEFAULT_LEASE_TIME and ?v = "renew_lease DEFAULT_LEASE_TIME now2 v"
  let ?m = "cycle_map now now2 (Some ?L) m"
  obtain s1 where s1: "trust_reaper_cycle now now2 (Some ?L) s = Some s1" "trust_reach (\<lambda>_. 0) s1" "trust_abs s1 = Some ?m"
    using cycle_reach [OF assms(1,2)] by blast
  obtain s2 where s2: "trust_reaper_cycle now3 now4 (Some ?L) s1 = Some s2" "trust_abs s2 = Some (cycle_map now3 now4 (Some ?L) ?m)"
    using cycle_reach [OF s1(2,3)] by blast
  have L: "lease_ns ?L = 45000000000" "TRUST_REAPER_SCAN_SEC * 1000000000 = 60000000000"
    by (simp_all add: lease_ns_def DEFAULT_LEASE_TIME_def TRUST_REAPER_SCAN_SEC_def)
  have fit: "unat (now2 + ucast ?L * 1000000000) = unat now2 + lease_ns ?L"
    using unat_u64_add [of now2 "ucast ?L * 1000000000"] assms(6) L unat_u64_less [of now3] by (simp add: lease_ns_word)
  have "unat (te_expire_ns ?v) \<le> unat now2 + lease_ns ?L" "te_expire_ns ?v \<noteq> 0"
    using assms(4,5) fit L by (auto simp: renew_lease_def)
  then have "expired now3 ?v"
    using assms(6) L by (simp add: expired_def word_le_nat_alt)
  then have "cycle_map now3 now4 (Some ?L) ?m k = None"
    using assms(3) by (simp add: cycle_map_def reap_map_def)
  with s1(1) s2 show ?thesis by simp
qed

lemma trust_renewal_default_lease_witness:
  "\<exists>s' m'. reaper_runs DEFAULT_LEASE_TIME [(1000, 2000), (60000002000, 60000003000)] (wit_table 1 20000000000) = Some s'
     \<and> trust_abs s' = Some m' \<and> m' (other wit_stid, 1, 7) = None"
  by (rule trust_renewal_default_lease [OF wit_table_reach wit_table_abs, where v = "lease (wit_lease 1 20000000000)"])
    (simp_all add: lease_ns_def wit_lease_def new_trust_entry_def DEFAULT_LEASE_TIME_def TRUST_REAPER_SCAN_SEC_def)

end
