(* ===== verification/ChunkOpsProperties.thy ===== *)
theory ChunkOpsProperties
  imports ChunkOps TrustProperties
begin

text \<open>
  Properties of the chunk operations. The loop of FINALIZE and COMMIT and the loop that takes it
  back change the same blocks, so a failed save leaves the store as it was; an answered COMMIT is
  found in the saved file; a lock keeps other owners out; and a lock above the high-water mark is
  not in the saved file.
\<close>

section \<open>The transition loops\<close>

definition owner_block :: "u64 \<Rightarrow> u32 \<Rightarrow> chunk_store \<Rightarrow> chunk_owner4 \<Rightarrow> nat option" where
  "owner_block offset cnt cs co = find_owned_block cs offset (co_cohort_id co) (co_client_id co) (co_id co) 0 (unat cnt)"

definition set_states :: "chunk_state \<Rightarrow> nat list \<Rightarrow> chunk_store \<Rightarrow> chunk_store" where
  "set_states st offs cs = fold (\<lambda>off cs. set_block_state cs off st) offs cs"

definition ok_blocks :: "(chunk_owner4 \<Rightarrow> nat option) \<Rightarrow> (chunk_owner4 \<times> nfsstat4) list \<Rightarrow> nat list" where
  "ok_blocks f ps = List.map_filter (\<lambda>(co, ok). if ok = NFS4_OK then f co else None) ps"

lemma ok_blocks_simps [simp]:
  "ok_blocks f [] = []"
  "ok_blocks f ((co, ok) # ps) = (case (if ok = NFS4_OK then f co else None) of None \<Rightarrow> ok_blocks f ps | Some i \<Rightarrow> i # ok_blocks f ps)"
  by (auto simp: ok_blocks_def List.map_filter_simps split: option.splits)

lemma set_states_simps [simp]:
  "set_states st [] cs = cs"
  "set_states st (i # offs) cs = set_states st offs (set_block_state cs i st)"
  by (simp_all add: set_states_def)

lemma set_block_state_sel [simp]:
  "cs_nblocks (set_block_state cs i st) = cs_nblocks cs"
  "cs_high_water (set_block_state cs i st) = cs_high_water cs"
  "length (cs_blocks (set_block_state cs i st)) = length (cs_blocks cs)"
  "cs_dirty (set_block_state cs i st)"
  by (simp_all add: set_block_state_def)

lemma set_block_state_nth:
  "j < length (cs_blocks cs) \<Longrightarrow>
     cs_blocks (set_block_state cs i st) ! j = (if j = i then (cs_blocks cs ! j)\<lparr>cb_state := st\<rparr> else cs_blocks cs ! j)"
  by (simp add: set_block_state_def nth_list_update)

lemma set_states_sel [simp]:
  "cs_nblocks (set_states st offs cs) = cs_nblocks cs"
  "cs_high_water (set_states st offs cs) = cs_high_water cs"
  "length (cs_blocks (set_states st offs cs)) = length (cs_blocks cs)"
  "cs_dirty (set_states st offs cs) \<longleftrightarrow> offs \<noteq> [] \<or> cs_dirty cs"
  by (induction offs arbitrary: cs) auto

lemma set_states_nth:
  "j < length (cs_blocks cs) \<Longrightarrow>
     cs_blocks (set_states st offs cs) ! j = (if j \<in> set offs then (cs_blocks cs ! j)\<lparr>cb_state := st\<rparr> else cs_blocks cs ! j)"
  by (induction offs arbitrary: cs) (auto simp: set_block_state_nth)

text \<open>The scan reads of a block only whose it is.\<close>

lemma find_owned_block_cong:
  assumes n: "cs_nblocks b = cs_nblocks a"
    and o: "\<And>i. i < cs_nblocks a \<Longrightarrow> owned_by coh cl ow (cs_blocks b ! i) = owned_by coh cl ow (cs_blocks a ! i)"
  shows "find_owned_block b offset coh cl ow i k = find_owned_block a offset coh cl ow i k"
proof (induction k arbitrary: i)
  case (Suc k)
  have step: "find_owned_block c offset coh cl ow i (Suc k) =
      (if cs_nblocks c \<le> unat (offset + i) then None
       else if owned_by coh cl ow (cs_blocks c ! unat (offset + i)) then Some (unat (offset + i))
       else find_owned_block c offset coh cl ow (i + 1) k)" for c
    by (auto simp: owned_by_def Let_def)
  show ?case unfolding step n Suc.IH using o [of "unat (offset + i)"] by (auto simp: not_le)
qed simp

lemma owner_block_cong:
  assumes "cs_nblocks b = cs_nblocks a" "cs_nblocks a \<le> length (cs_blocks a)"
    "\<And>i. i < cs_nblocks a \<Longrightarrow> \<exists>st. cs_blocks b ! i = (cs_blocks a ! i)\<lparr>cb_state := st\<rparr>
       \<and> (st = CHUNK_STATE_EMPTY \<longleftrightarrow> cb_state (cs_blocks a ! i) = CHUNK_STATE_EMPTY)"
  shows "owner_block offset cnt b co = owner_block offset cnt a co"
  unfolding owner_block_def
proof (rule find_owned_block_cong [OF assms(1)])
  fix i assume "i < cs_nblocks a"
  then obtain st where "cs_blocks b ! i = (cs_blocks a ! i)\<lparr>cb_state := st\<rparr>"
    "st = CHUNK_STATE_EMPTY \<longleftrightarrow> cb_state (cs_blocks a ! i) = CHUNK_STATE_EMPTY" using assms(3) by blast
  then show "owned_by (co_cohort_id co) (co_client_id co) (co_id co) (cs_blocks b ! i)
      = owned_by (co_cohort_id co) (co_client_id co) (co_id co) (cs_blocks a ! i)"
    by (simp add: owned_by_def)
qed

lemma owner_block_Some:
  assumes "owner_block offset cnt cs co = Some i"
  shows "i < cs_nblocks cs" "owned_by (co_cohort_id co) (co_client_id co) (co_id co) (cs_blocks cs ! i)"
    "\<exists>j < unat cnt. i = unat (offset + of_nat j)"
  using find_owned_block_Some [OF assms [unfolded owner_block_def]] by auto

lemma owner_block_set_states:
  assumes "cs_nblocks cs \<le> length (cs_blocks cs)" "st \<noteq> CHUNK_STATE_EMPTY"
    "\<And>i. i \<in> set offs \<Longrightarrow> cb_state (cs_blocks cs ! i) \<noteq> CHUNK_STATE_EMPTY"
  shows "owner_block offset cnt (set_states st offs cs) co = owner_block offset cnt cs co"
proof (rule owner_block_cong)
  fix i assume i: "i < cs_nblocks cs"
  show "\<exists>s. cs_blocks (set_states st offs cs) ! i = (cs_blocks cs ! i)\<lparr>cb_state := s\<rparr>
       \<and> (s = CHUNK_STATE_EMPTY \<longleftrightarrow> cb_state (cs_blocks cs ! i) = CHUNK_STATE_EMPTY)"
    using i assms
    by (intro exI [of _ "if i \<in> set offs then st else cb_state (cs_blocks cs ! i)"]) (auto simp: set_states_nth)
qed (use assms in auto)

lemma transition_owner_block:
  "chunk_store_transition cs offset cnt (co_cohort_id co) (co_client_id co) (co_id co) st st' =
     (case owner_block offset cnt cs co of None \<Rightarrow> Inl EINVAL
      | Some i \<Rightarrow> if cb_state (cs_blocks cs ! i) \<noteq> st then Inl EINVAL else Inr (set_block_state cs i st'))"
  by (simp add: chunk_store_transition_def owner_block_def)

lemma transition_owners_effect:
  assumes "transition_owners offset cnt st st' owners cs = (oks, cs')" "st \<noteq> st'"
    "st \<noteq> CHUNK_STATE_EMPTY" "st' \<noteq> CHUNK_STATE_EMPTY" "cs_nblocks cs \<le> length (cs_blocks cs)"
  defines "offs \<equiv> ok_blocks (owner_block offset cnt cs) (zip owners oks)"
  shows "length oks = length owners \<and> cs' = set_states st' offs cs \<and> distinct offs
    \<and> (\<forall>i \<in> set offs. i < cs_nblocks cs \<and> cb_state (cs_blocks cs ! i) = st)
    \<and> (\<forall>k < length owners. oks ! k = NFS4_OK \<longrightarrow> owner_block offset cnt cs (owners ! k) \<noteq> None)"
  using assms(1,5) unfolding offs_def
proof (induction owners arbitrary: cs oks cs')
  case (Cons co owners)
  show ?case
  proof (cases "\<exists>i. owner_block offset cnt cs co = Some i \<and> cb_state (cs_blocks cs ! i) = st")
    case False
    then have t: "chunk_store_transition cs offset cnt (co_cohort_id co) (co_client_id co) (co_id co) st st' = Inl EINVAL"
      by (auto simp: transition_owner_block split: option.splits)
    obtain oks1 where r: "transition_owners offset cnt st st' owners cs = (oks1, cs')" "oks = NFS4ERR_INVAL # oks1"
      using Cons.prems(1) by (auto simp: t Let_def split: prod.splits)
    show ?thesis using Cons.IH [OF r(1) Cons.prems(2)] unfolding r(2) by (auto simp: nth_Cons' less_Suc_eq_0_disj)
  next
    case True
    then obtain i where i: "owner_block offset cnt cs co = Some i" "cb_state (cs_blocks cs ! i) = st" by blast
    let ?c = "set_block_state cs i st'"
    have t: "chunk_store_transition cs offset cnt (co_cohort_id co) (co_client_id co) (co_id co) st st' = Inr ?c"
      by (simp add: transition_owner_block i)
    obtain oks1 where r: "transition_owners offset cnt st st' owners ?c = (oks1, cs')" "oks = NFS4_OK # oks1"
      using Cons.prems(1) by (auto simp: t Let_def split: prod.splits)
    have il: "i < cs_nblocks cs" by (rule owner_block_Some(1) [OF i(1)])
    have f: "owner_block offset cnt ?c = owner_block offset cnt cs"
      using owner_block_set_states [of cs st' "[i]" offset cnt] Cons.prems(2) assms(3,4) i(2) by (auto simp: fun_eq_iff)
    have c: "cs_nblocks ?c \<le> length (cs_blocks ?c)" using Cons.prems(2) by simp
    note IH = Cons.IH [OF r(1) c, unfolded f]
    have bl: "j \<noteq> i \<and> j < cs_nblocks cs \<and> cb_state (cs_blocks cs ! j) = st"
      if "j \<in> set (ok_blocks (owner_block offset cnt cs) (zip owners oks1))" for j
    proof -
      have j: "j < cs_nblocks cs" "cb_state (cs_blocks ?c ! j) = st" using IH that by auto
      then show ?thesis using set_block_state_nth [of j cs i st'] Cons.prems(2) assms(2) by (auto split: if_splits)
    qed
    show ?thesis using IH bl il i unfolding r(2) by (auto simp: nth_Cons' less_Suc_eq_0_disj)
  qed
qed simp

lemma revert_owners_effect:
  assumes "st \<noteq> CHUNK_STATE_EMPTY" "st' \<noteq> CHUNK_STATE_EMPTY" "cs_nblocks cs \<le> length (cs_blocks cs)"
    "owner_block offset cnt cs = f" "distinct (ok_blocks f ps)"
    "\<forall>i \<in> set (ok_blocks f ps). cb_state (cs_blocks cs ! i) = st'"
  shows "revert_owners offset cnt st st' ps cs = set_states st (ok_blocks f ps) cs"
  using assms(3-6)
proof (induction ps arbitrary: cs)
  case (Cons p ps)
  obtain co ok where p: "p = (co, ok)" by fastforce
  show ?case
  proof (cases "ok = NFS4_OK \<and> f co \<noteq> None")
    case False
    then have "revert_owners offset cnt st st' (p # ps) cs = revert_owners offset cnt st st' ps cs"
      using Cons.prems(2) by (auto simp: p transition_owner_block)
    moreover have "ok_blocks f (p # ps) = ok_blocks f ps" using False by (auto simp: p)
    ultimately show ?thesis using Cons by simp
  next
    case True
    then obtain i where i: "f co = Some i" and ok: "ok = NFS4_OK" by auto
    have ob: "ok_blocks f (p # ps) = i # ok_blocks f ps" by (simp add: p ok i)
    let ?c = "set_block_state cs i st"
    have st: "cb_state (cs_blocks cs ! i) = st'" using Cons.prems(4) by (simp add: ob)
    have il: "i < length (cs_blocks cs)"
      using owner_block_Some(1) [of offset cnt cs co i] Cons.prems(1,2) i by simp
    have t: "revert_owners offset cnt st st' (p # ps) cs = revert_owners offset cnt st st' ps ?c"
      using Cons.prems(2) i st by (simp add: p ok transition_owner_block)
    have f: "owner_block offset cnt ?c = f"
      using owner_block_set_states [of cs st "[i]" offset cnt] Cons.prems(1,2) assms(1,2) st by (auto simp: fun_eq_iff)
    have "cb_state (cs_blocks ?c ! j) = st'" if j: "j \<in> set (ok_blocks f ps)" for j
    proof -
      have "j \<noteq> i" using Cons.prems(3) j by (auto simp: ob)
      then show ?thesis using Cons.prems(4) j by (simp add: ob set_block_state_def)
    qed
    then show ?thesis unfolding t ob using Cons.IH [of ?c] Cons.prems(1,3) f by (simp add: ob)
  qed
qed simp

section \<open>The save of a lifecycle operation\<close>

lemma chunk_store_persist_Some:
  assumes a: "chunk_store_persist mem io (Some cs) d ino = (Some e, cs1, ops)"
  obtains cs2 where "cs1 = Some cs2" "cs_blocks cs2 = cs_blocks cs" "cs_nblocks cs2 = cs_nblocks cs"
    "\<And>fs path. chunk_meta_path d ino = Inr path \<Longrightarrow> run_ops ops fs path = fs path"
proof -
  have d: "cs_dirty cs" using a by (auto simp: chunk_store_persist_def split: if_splits)
  show ?thesis
  proof (cases "chunk_store_refresh_escrows mem cs")
    case (Inl x)
    then have "cs1 = Some cs \<and> ops = []" using a d by (simp add: chunk_store_persist_def)
    then show ?thesis by (intro that [of cs]) (simp_all add: run_ops_def)
  next
    case (Inr c)
    note K = refresh_keeps(1,3) [OF Inr]
    show ?thesis
    proof (cases "ensure_chunks_dir io d = None \<and> (\<exists>path. chunk_meta_path d ino = Inr path)")
      case False
      then have "cs1 = Some c \<and> ops = []" using a d Inr
        by (auto simp: chunk_store_persist_def split: option.splits sum.splits prod.splits)
      then show ?thesis using K by (intro that [of c]) (simp_all add: run_ops_def)
    next
      case True
      then obtain path where path: "chunk_meta_path d ino = Inr path" by blast
      obtain e1 ops1 where sv: "save_file io False path (store_records c ino) = (e1, ops1)" by fastforce
      then have "cs1 = Some c \<and> ops1 = ops \<and> e1 = Some e" using a d Inr True path
        by (auto simp: chunk_store_persist_def split: option.splits)
      then show ?thesis using K path save_file_atomic(3) [OF sv] by (intro that [of c]) simp_all
    qed
  qed
qed

lemma lifecycle_transition_failed:
  assumes r: "lifecycle_transition mem io st st' ino args cs s = (res, s')" "lr_status res \<noteq> NFS4_OK"
    and st: "st \<noteq> st'" "st \<noteq> CHUNK_STATE_EMPTY" "st' \<noteq> CHUNK_STATE_EMPTY"
    and n: "length (cs_blocks cs) = cs_nblocks cs" and cs: "i_chunk_store s = Some cs"
  shows "(\<exists>cs'. i_chunk_store s' = Some cs' \<and> cs_blocks cs' = cs_blocks cs \<and> cs_nblocks cs' = cs_nblocks cs) \<and>
    (\<forall>path. chunk_meta_path (ss_state_dir s) ino = Inr path \<longrightarrow> ds_fs s' path = ds_fs s path)"
proof (cases "any_lock_conflict cs args \<or> \<not> mem ''status_val''")
  case True
  then have "s' = s" using r(1) by (auto simp: lifecycle_transition_def split: if_splits)
  then show ?thesis using cs by simp
next
  case False
  let ?o = "la_offset args" and ?c = "la_count args"
  obtain oks c1 where t: "transition_owners ?o ?c st st' (la_chunks args) cs = (oks, c1)" by fastforce
  let ?f = "owner_block ?o ?c cs"
  let ?offs = "ok_blocks ?f (zip (la_chunks args) oks)"
  from transition_owners_effect [OF t st] n
  have T: "c1 = set_states st' ?offs cs" "distinct ?offs"
    "\<And>i. i \<in> set ?offs \<Longrightarrow> i < cs_nblocks cs \<and> cb_state (cs_blocks cs ! i) = st" by auto
  obtain e cs1 ops where p: "chunk_store_persist mem io (Some c1) (ss_state_dir s) ino = (e, cs1, ops)" by (metis prod_cases3)
  obtain e' where e: "e = Some e'" using r False by (cases e) (auto simp: lifecycle_transition_def t p)
  obtain c2 where c2: "cs1 = Some c2" "cs_blocks c2 = cs_blocks c1" "cs_nblocks c2 = cs_nblocks c1"
    "\<And>fs path. chunk_meta_path (ss_state_dir s) ino = Inr path \<Longrightarrow> run_ops ops fs path = fs path"
    using chunk_store_persist_Some [OF p [unfolded e]] by blast
  have s': "s' = s\<lparr>i_chunk_store := Some (revert_owners ?o ?c st st' (zip (la_chunks args) oks) c2), ds_fs := run_ops ops (ds_fs s)\<rparr>"
    using r False by (auto simp: lifecycle_transition_def t p e c2(1))
  have b2: "cs_blocks c2 ! i = (if i \<in> set ?offs then (cs_blocks cs ! i)\<lparr>cb_state := st'\<rparr> else cs_blocks cs ! i)"
    if "i < cs_nblocks cs" for i using that n by (simp add: c2(2) T(1) set_states_nth)
  have f2: "owner_block ?o ?c c2 = ?f"
  proof
    fix co
    have "owner_block ?o ?c c2 co = owner_block ?o ?c c1 co"
      unfolding owner_block_def by (rule find_owned_block_cong) (simp_all add: c2)
    also have "\<dots> = ?f co" unfolding T(1) by (rule owner_block_set_states) (use n st T(3) in auto)
    finally show "owner_block ?o ?c c2 co = ?f co" .
  qed
  have rv: "revert_owners ?o ?c st st' (zip (la_chunks args) oks) c2 = set_states st ?offs c2"
    by (rule revert_owners_effect [OF st(2,3) _ f2 T(2)]) (use c2 T n b2 in auto)
  have len: "length (cs_blocks c2) = length (cs_blocks cs)" by (simp add: c2 T(1))
  have "cs_blocks (set_states st ?offs c2) = cs_blocks cs"
  proof (rule nth_equalityI)
    fix i assume "i < length (cs_blocks (set_states st ?offs c2))"
    then have i: "i < cs_nblocks cs" using len n by simp
    then show "cs_blocks (set_states st ?offs c2) ! i = cs_blocks cs ! i"
      using T(3) [of i] n by (auto simp: set_states_nth len b2)
  qed (simp add: len)
  then show ?thesis using c2 by (simp add: s' rv T(1))
qed

text \<open>The two operations up to their transition.\<close>

lemma finalize_cases:
  assumes "nfs4_op_chunk_finalize mem io now cmp args s = Some (res, s')"
  obtains (refused) "lr_status res \<noteq> NFS4_OK" "i_chunk_store s' = i_chunk_store s" "ds_fs s' = ds_fs s"
    | (ran) inode cs s1 where "c_inode cmp = Some inode" "i_chunk_store s = Some cs" "i_chunk_store s1 = Some cs"
      "ds_fs s1 = ds_fs s" "ss_state_dir s1 = ss_state_dir s"
      "lifecycle_transition mem io CHUNK_STATE_PENDING CHUNK_STATE_FINALIZED (i_ino inode) args cs s1 = (res, s')"
proof (cases "chunk_lifecycle_guards cmp args = NFS4_OK")
  case True
  obtain v t where chk: "chunk_check_trusted_stateid cmp (la_stateid args) CHUNK_GUARD_CLIENT_ID_NONE False now (ds_trust s) = Some (v, t)"
    using assms True by (cases "chunk_check_trusted_stateid cmp (la_stateid args) CHUNK_GUARD_CLIENT_ID_NONE False now (ds_trust s)")
      (auto simp: nfs4_op_chunk_finalize_def)
  obtain inode where inode: "c_inode cmp = Some inode"
    using True by (auto simp: chunk_lifecycle_guards_def split: if_splits)
  consider (v) "v \<noteq> NFS4_OK" | (nr) "v = NFS4_OK" "list_ex (\<lambda>co. chunk_cid_is_reserved (co_client_id co)) (la_chunks args)"
    | (nocs) "v = NFS4_OK" "\<not> list_ex (\<lambda>co. chunk_cid_is_reserved (co_client_id co)) (la_chunks args)" "i_chunk_store s = None"
    | (go) cs where "v = NFS4_OK" "\<not> list_ex (\<lambda>co. chunk_cid_is_reserved (co_client_id co)) (la_chunks args)" "i_chunk_store s = Some cs"
    by (cases "i_chunk_store s") auto
  then show ?thesis
  proof cases
    case (go cs)
    note v = go(1) and nr = go(2) and cs = go(3)
    obtain d b where d: "chunk_lifecycle_test_delay (ss_test_chunk_finalize_delay_count s) = (d, b)" by fastforce
    let ?s1 = "s\<lparr>ds_trust := t, ss_test_chunk_finalize_delay_count := b\<rparr>"
    show ?thesis
    proof (cases d)
      case False
      have "Some (res, s') = Some (lifecycle_transition mem io CHUNK_STATE_PENDING CHUNK_STATE_FINALIZED (i_ino inode) args cs ?s1)"
        unfolding assms [symmetric] using True chk inode v nr cs d False by (simp add: nfs4_op_chunk_finalize_def)
      then show ?thesis by (intro ran [of inode cs ?s1]) (use inode cs in simp_all)
    next
      case d': True
      have "Some (res, s') = Some (lr_error NFS4ERR_DELAY, ?s1)"
        unfolding assms [symmetric] using True chk inode v nr cs d d' by (simp add: nfs4_op_chunk_finalize_def)
      then show ?thesis by (intro refused) (simp_all add: lr_error_def)
    qed
  next
    case v
    then have "Some (res, s') = Some (lr_error v, s\<lparr>ds_trust := t\<rparr>)"
      unfolding assms [symmetric] using True chk inode by (simp add: nfs4_op_chunk_finalize_def)
    then show ?thesis using v by (intro refused) (simp_all add: lr_error_def)
  next
    case nr
    then have "Some (res, s') = Some (lr_error NFS4ERR_INVAL, s\<lparr>ds_trust := t\<rparr>)"
      unfolding assms [symmetric] using True chk inode by (simp add: nfs4_op_chunk_finalize_def)
    then show ?thesis by (intro refused) (simp_all add: lr_error_def)
  next
    case nocs
    then have "Some (res, s') = Some (lr_error NFS4ERR_NOENT, s\<lparr>ds_trust := t\<rparr>)"
      unfolding assms [symmetric] using True chk inode by (simp add: nfs4_op_chunk_finalize_def)
    then show ?thesis by (intro refused) (simp_all add: lr_error_def)
  qed
next
  case False
  then have "Some (res, s') = Some (lr_error (chunk_lifecycle_guards cmp args), s)"
    unfolding assms [symmetric] by (simp add: nfs4_op_chunk_finalize_def)
  then show ?thesis using False by (intro refused) (simp_all add: lr_error_def)
qed

lemma commit_cases:
  assumes "nfs4_op_chunk_commit mem io now cmp args s = Some (res, s')"
  obtains (refused) "lr_status res \<noteq> NFS4_OK" "i_chunk_store s' = i_chunk_store s" "ds_fs s' = ds_fs s"
    | (ran) inode cs s1 s2 where "c_inode cmp = Some inode" "i_chunk_store s = Some cs" "i_chunk_store s1 = Some cs"
      "ds_fs s1 = ds_fs s" "ss_state_dir s1 = ss_state_dir s"
      "lifecycle_transition mem io CHUNK_STATE_FINALIZED CHUNK_STATE_COMMITTED (i_ino inode) args cs s1 = (res, s2)"
      "s' = (if lr_status res = NFS4_OK then s2\<lparr>inode_syncs := i_ino inode # inode_syncs s2\<rparr> else s2)"
proof (cases "chunk_lifecycle_guards cmp args = NFS4_OK")
  case True
  obtain v t where chk: "chunk_check_trusted_stateid cmp (la_stateid args) CHUNK_GUARD_CLIENT_ID_NONE False now (ds_trust s) = Some (v, t)"
    using assms True by (cases "chunk_check_trusted_stateid cmp (la_stateid args) CHUNK_GUARD_CLIENT_ID_NONE False now (ds_trust s)")
      (auto simp: nfs4_op_chunk_commit_def)
  obtain inode where inode: "c_inode cmp = Some inode"
    using True by (auto simp: chunk_lifecycle_guards_def split: if_splits)
  consider (v) "v \<noteq> NFS4_OK" | (nr) "v = NFS4_OK" "list_ex (\<lambda>co. chunk_cid_is_reserved (co_client_id co)) (la_chunks args)"
    | (nocs) "v = NFS4_OK" "\<not> list_ex (\<lambda>co. chunk_cid_is_reserved (co_client_id co)) (la_chunks args)" "i_chunk_store s = None"
    | (go) cs where "v = NFS4_OK" "\<not> list_ex (\<lambda>co. chunk_cid_is_reserved (co_client_id co)) (la_chunks args)" "i_chunk_store s = Some cs"
    by (cases "i_chunk_store s") auto
  then show ?thesis
  proof cases
    case (go cs)
    note v = go(1) and nr = go(2) and cs = go(3)
    obtain d b where d: "chunk_lifecycle_test_delay (ss_test_chunk_commit_delay_count s) = (d, b)" by fastforce
    let ?s1 = "s\<lparr>ds_trust := t, ss_test_chunk_commit_delay_count := b\<rparr>"
    show ?thesis
    proof (cases d)
      case False
      obtain r2 s2 where l: "lifecycle_transition mem io CHUNK_STATE_FINALIZED CHUNK_STATE_COMMITTED (i_ino inode) args cs ?s1 = (r2, s2)"
        by fastforce
      have "Some (res, s') = Some (r2, if lr_status r2 = NFS4_OK then s2\<lparr>inode_syncs := i_ino inode # inode_syncs s2\<rparr> else s2)"
        unfolding assms [symmetric] using True chk inode v nr cs d False l by (simp add: nfs4_op_chunk_commit_def)
      then show ?thesis by (intro ran [of inode cs ?s1 s2]) (use inode cs l in simp_all)
    next
      case d': True
      have "Some (res, s') = Some (lr_error NFS4ERR_DELAY, ?s1)"
        unfolding assms [symmetric] using True chk inode v nr cs d d' by (simp add: nfs4_op_chunk_commit_def)
      then show ?thesis by (intro refused) (simp_all add: lr_error_def)
    qed
  next
    case v
    then have "Some (res, s') = Some (lr_error v, s\<lparr>ds_trust := t\<rparr>)"
      unfolding assms [symmetric] using True chk inode by (simp add: nfs4_op_chunk_commit_def)
    then show ?thesis using v by (intro refused) (simp_all add: lr_error_def)
  next
    case nr
    then have "Some (res, s') = Some (lr_error NFS4ERR_INVAL, s\<lparr>ds_trust := t\<rparr>)"
      unfolding assms [symmetric] using True chk inode by (simp add: nfs4_op_chunk_commit_def)
    then show ?thesis by (intro refused) (simp_all add: lr_error_def)
  next
    case nocs
    then have "Some (res, s') = Some (lr_error NFS4ERR_NOENT, s\<lparr>ds_trust := t\<rparr>)"
      unfolding assms [symmetric] using True chk inode by (simp add: nfs4_op_chunk_commit_def)
    then show ?thesis by (intro refused) (simp_all add: lr_error_def)
  qed
next
  case False
  then have "Some (res, s') = Some (lr_error (chunk_lifecycle_guards cmp args), s)"
    unfolding assms [symmetric] by (simp add: nfs4_op_chunk_commit_def)
  then show ?thesis using False by (intro refused) (simp_all add: lr_error_def)
qed

section \<open>What the gate and the locks refuse\<close>

lemma guards_inode:
  "chunk_lifecycle_guards cmp la = NFS4_OK \<Longrightarrow> \<exists>inode. c_inode cmp = Some inode"
  "chunk_lock_guards cmp lk = NFS4_OK \<Longrightarrow> \<exists>inode. c_inode cmp = Some inode"
  "chunk_unlock_guards cmp ul = NFS4_OK \<Longrightarrow> \<exists>inode. c_inode cmp = Some inode"
  by (cases "c_inode cmp", auto simp: chunk_lifecycle_guards_def chunk_lock_guards_def chunk_unlock_guards_def split: if_splits)+

text \<open>An operation that answers an error and touches neither the store nor the files.\<close>

definition refuses :: "allocs \<Rightarrow> io_fail \<Rightarrow> u64 \<Rightarrow> compound \<Rightarrow> chunk_op \<Rightarrow> chunk_srv \<Rightarrow> trust_state \<Rightarrow> bool" where
  "refuses mem io now cmp op s t \<longleftrightarrow> (\<exists>st s'. chunk_exec mem io now cmp op s = Some (st, s') \<and> st \<noteq> NFS4_OK \<and>
     i_chunk_store s' = i_chunk_store s \<and> ds_fs s' = ds_fs s \<and> (ds_trust s' = ds_trust s \<or> ds_trust s' = t))"

lemma refusesI:
  assumes "chunk_exec mem io now cmp op s = Some (st, s')" "st \<noteq> NFS4_OK"
    "i_chunk_store s' = i_chunk_store s" "ds_fs s' = ds_fs s" "ds_trust s' = ds_trust s \<or> ds_trust s' = t"
  shows "refuses mem io now cmp op s t"
  using assms unfolding refuses_def by blast

fun op_guards :: "compound \<Rightarrow> chunk_op \<Rightarrow> nfsstat4" where
  "op_guards cmp (ChunkLock args) = chunk_lock_guards cmp args"
| "op_guards cmp (ChunkUnlock args) = chunk_unlock_guards cmp args"
| "op_guards cmp (ChunkFinalize args) = chunk_lifecycle_guards cmp args"
| "op_guards cmp (ChunkCommit args) = chunk_lifecycle_guards cmp args"
| "op_guards cmp (ChunkRollback args) = chunk_lifecycle_guards cmp args"

lemma op_guards_inode: "op_guards cmp op = NFS4_OK \<Longrightarrow> \<exists>inode. c_inode cmp = Some inode"
  by (cases op) (auto dest: guards_inode)

lemmas chunk_handler_defs = nfs4_op_chunk_finalize_def nfs4_op_chunk_commit_def nfs4_op_chunk_rollback_def
  nfs4_op_chunk_lock_def nfs4_op_chunk_unlock_def

lemma guards_refuse:
  assumes "op_guards cmp op \<noteq> NFS4_OK"
  shows "refuses mem io now cmp op s t"
proof -
  let ?s = "case op of ChunkRollback _ \<Rightarrow> s\<lparr>cs_rollback_invoked := map_option (\<lambda>n. n + 1) (cs_rollback_invoked s)\<rparr> | _ \<Rightarrow> s"
  have "chunk_exec mem io now cmp op s = Some (op_guards cmp op, ?s)"
    using assms by (cases op) (simp_all add: chunk_exec_def chunk_handler_defs lr_error_def)
  then show ?thesis by (rule refusesI) (use assms in \<open>cases op; simp\<close>)+
qed

lemma gate_refuses:
  assumes g: "chunk_check_trusted_stateid cmp (op_stateid op) (op_client op) (op_rw op) now (ds_trust s) = Some (v, t)"
    and v: "v \<noteq> NFS4_OK"
  shows "refuses mem io now cmp op s t"
proof (cases "op_guards cmp op = NFS4_OK")
  case True
  then obtain inode where i: "c_inode cmp = Some inode" using op_guards_inode by blast
  let ?s = "case op of ChunkRollback _ \<Rightarrow> s\<lparr>cs_rollback_invoked := map_option (\<lambda>n. n + 1) (cs_rollback_invoked s)\<rparr> | _ \<Rightarrow> s"
  have "chunk_exec mem io now cmp op s = Some (v, ?s\<lparr>ds_trust := t\<rparr>)"
    using True i g v by (cases op) (simp_all add: chunk_exec_def chunk_handler_defs lr_error_def)
  then show ?thesis by (rule refusesI) (use v in \<open>cases op; simp\<close>)+
qed (rule guards_refuse)

lemma any_lock_conflictI:
  assumes "off \<in> set (range_offsets (la_offset args) (la_count args))" "chunk_store_lookup_any (Some cs) off = Some blk"
    "block_locked blk" "co \<in> set (la_chunks args)" "\<not> chunk_lock_owner_equal blk co"
  shows "any_lock_conflict cs args"
proof -
  have "blk \<in> set (List.map_filter (chunk_store_lookup_any (Some cs)) (range_offsets (la_offset args) (la_count args)))"
    using assms(1,2) by (force simp: List.map_filter_def)
  then have "chunk_lock_conflict cs (la_offset args) (la_count args) (co_cohort_id co) (co_client_id co) (co_id co) \<noteq> None"
    using assms(3,5) by (auto simp: chunk_lock_conflict_def find_None_iff block_locked_def chunk_lock_owner_equal_def)
  then show ?thesis using assms(4) by (auto simp: any_lock_conflict_def list_ex_iff)
qed

lemma lock_check_held:
  assumes "off \<in> set offs" "chunk_store_lookup_any (Some cs) off = Some blk" "block_locked blk"
    "\<not> chunk_lock_owner_equal blk (cla_owner args)" "cla_flags args AND CHUNK_LOCK_FLAGS_ADOPT = 0"
  shows "chunk_lock_check_all cs args offs \<noteq> LockRes NFS4_OK"
  using assms(1)
proof (induction offs)
  case (Cons o' offs)
  have "chunk_lock_check cs args off \<noteq> LockRes NFS4_OK"
    using assms(2-5) by (simp add: chunk_lock_check_def block_locked_def)
  then show ?case using Cons by auto
qed simp

lemma clr_status_OK: "clr_status r = NFS4_OK \<longleftrightarrow> r = LockRes NFS4_OK"
  by (cases r) auto

text \<open>A block of the range is locked and one of the owners of the operation is not the holder.\<close>

lemma lock_refuses:
  assumes cs: "i_chunk_store s = Some cs" and off: "off \<in> set (op_range op)" "chunk_store_lookup_any (Some cs) off = Some blk"
    and l: "block_locked blk" and co: "co \<in> set (op_owners op)" "\<not> chunk_lock_owner_equal blk co" and na: "\<not> op_adopts op"
    and run: "chunk_exec mem io now cmp op s = Some (st, s')"
  shows "st \<noteq> NFS4_OK \<and> i_chunk_store s' = i_chunk_store s \<and> ds_fs s' = ds_fs s"
proof (cases "op_guards cmp op = NFS4_OK \<and> (\<exists>t. chunk_check_trusted_stateid cmp (op_stateid op) (op_client op) (op_rw op) now (ds_trust s) = Some (NFS4_OK, t))")
  case False
  then consider "op_guards cmp op \<noteq> NFS4_OK" | v t where
      "chunk_check_trusted_stateid cmp (op_stateid op) (op_client op) (op_rw op) now (ds_trust s) = Some (v, t)" "v \<noteq> NFS4_OK"
    | "op_guards cmp op = NFS4_OK" "chunk_check_trusted_stateid cmp (op_stateid op) (op_client op) (op_rw op) now (ds_trust s) = None"
    by (cases "chunk_check_trusted_stateid cmp (op_stateid op) (op_client op) (op_rw op) now (ds_trust s)") auto
  then show ?thesis
  proof cases
    case 1
    from guards_refuse [OF 1, of mem io now s "ds_trust s"] show ?thesis using run by (auto simp: refuses_def)
  next
    case (2 v t)
    from gate_refuses [OF 2, of mem io] show ?thesis using run by (auto simp: refuses_def)
  next
    case 3
    then show ?thesis using run by (cases op) (simp_all add: chunk_exec_def chunk_handler_defs)
  qed
next
  case True
  then obtain t inode where g: "chunk_check_trusted_stateid cmp (op_stateid op) (op_client op) (op_rw op) now (ds_trust s) = Some (NFS4_OK, t)"
    and gu: "op_guards cmp op = NFS4_OK" and i: "c_inode cmp = Some inode" using op_guards_inode by blast
  show ?thesis
  proof (cases op)
    case (ChunkFinalize args)
    then obtain res where r: "nfs4_op_chunk_finalize mem io now cmp args s = Some (res, s')" "st = lr_status res"
      using run by (auto simp: chunk_exec_def)
    have c: "any_lock_conflict cs args" using any_lock_conflictI off l co ChunkFinalize by simp
    from r(1) show ?thesis
      by (cases rule: finalize_cases) (use r(2) c cs in \<open>auto simp: lifecycle_transition_def lr_error_def\<close>)
  next
    case (ChunkCommit args)
    then obtain res where r: "nfs4_op_chunk_commit mem io now cmp args s = Some (res, s')" "st = lr_status res"
      using run by (auto simp: chunk_exec_def)
    have c: "any_lock_conflict cs args" using any_lock_conflictI off l co ChunkCommit by simp
    from r(1) show ?thesis
      by (cases rule: commit_cases) (use r(2) c cs in \<open>auto simp: lifecycle_transition_def lr_error_def\<close>)
  next
    case (ChunkRollback args)
    have c: "any_lock_conflict cs args" using any_lock_conflictI off l co ChunkRollback by simp
    show ?thesis using run gu g i cs c by (auto simp: ChunkRollback chunk_exec_def nfs4_op_chunk_rollback_def lr_error_def)
  next
    case (ChunkLock args)
    have na': "cla_flags args AND CHUNK_LOCK_FLAGS_ADOPT = 0" using na ChunkLock by simp
    have c: "chunk_lock_check_all cs args (range_offsets (cla_offset args) (cla_count args)) \<noteq> LockRes NFS4_OK"
      using lock_check_held off l co ChunkLock na' by simp
    have get: "chunk_store_get mem fs (Some cs) d n = Some cs" for fs d n by (simp add: chunk_store_get_def)
    show ?thesis
    proof (cases "mem ''saved'' \<and> mem ''created''")
      case True
      then have "chunk_exec mem io now cmp op s = Some (clr_status (chunk_lock_check_all cs args (range_offsets (cla_offset args) (cla_count args))),
          s\<lparr>ds_trust := t, i_chunk_store := Some cs\<rparr>)"
        using gu g i cs c by (simp add: ChunkLock chunk_exec_def nfs4_op_chunk_lock_def na' get)
      then show ?thesis using run c cs by (auto simp: clr_status_OK)
    next
      case False
      then show ?thesis using run gu g i cs by (auto simp: ChunkLock chunk_exec_def nfs4_op_chunk_lock_def)
    qed
  next
    case (ChunkUnlock args)
    have c: "list_ex (chunk_unlock_refuses cs args) (range_offsets (cua_offset args) (cua_count args))"
      using off l co ChunkUnlock by (auto simp: list_ex_iff chunk_unlock_refuses_def intro!: bexI [of _ off])
    show ?thesis using run gu g i cs c by (auto simp: ChunkUnlock chunk_exec_def nfs4_op_chunk_unlock_def Let_def split: if_splits)
  qed
qed

section \<open>What an answered operation leaves in the file\<close>

lemma set_states_inv:
  assumes inv: "cs_inv cs" and st: "st \<in> {CHUNK_STATE_PENDING, CHUNK_STATE_FINALIZED, CHUNK_STATE_COMMITTED}"
    and o: "\<And>i. i \<in> set offs \<Longrightarrow> i < cs_nblocks cs \<and> cb_state (cs_blocks cs ! i) \<noteq> CHUNK_STATE_EMPTY"
  shows "cs_inv (set_states st offs cs)"
proof -
  have "i < cs_high_water cs" if "i \<in> set offs" for i using o [OF that] inv by (auto simp: cs_inv_def not_less [symmetric])
  then show ?thesis using inv st by (auto simp: cs_inv_def set_states_nth wf_block_def not_less [symmetric])
qed

lemma set_states_escrows:
  assumes "cs_inv cs" "escrows_in_range cs"
  shows "escrows_in_range (set_states st offs cs)"
  using assms by (auto simp: escrows_in_range_def cs_inv_def set_states_nth escrowed_def split: if_splits)

lemma lifecycle_transition_OK:
  assumes r: "lifecycle_transition mem io st st' ino args cs s = (res, s')" "lr_status res = NFS4_OK"
    and st: "st \<noteq> st'" "st \<noteq> CHUNK_STATE_EMPTY" "st' \<in> {CHUNK_STATE_PENDING, CHUNK_STATE_FINALIZED, CHUNK_STATE_COMMITTED}"
    and inv: "cs_inv cs" "cs_high_water cs \<le> CHUNK_STORE_MAX_BLOCKS" "escrows_in_range cs"
    and k: "k < length (la_chunks args)" "lr_owner_status res ! k = NFS4_OK"
  shows "\<exists>i cs' cs2. owner_block (la_offset args) (la_count args) cs (la_chunks args ! k) = Some i
    \<and> i < cs_high_water cs \<and> cb_state (cs_blocks cs ! i) = st
    \<and> i_chunk_store s' = Some cs' \<and> cs_nblocks cs' = cs_nblocks cs \<and> cs_blocks cs' ! i = (cs_blocks cs ! i)\<lparr>cb_state := st'\<rparr>
    \<and> chunk_store_load all_allocs (ds_fs s') (ss_state_dir s) ino = Some cs2
    \<and> (\<forall>off. unat off < cs_high_water cs \<longrightarrow> chunk_store_lookup_any (Some cs2) off = chunk_store_lookup_any (Some cs') off)"
proof -
  let ?o = "la_offset args" and ?c = "la_count args"
  have go: "\<not> any_lock_conflict cs args" "mem ''status_val''"
    using r by (auto simp: lifecycle_transition_def lr_error_def split: if_splits)
  obtain oks c1 where t: "transition_owners ?o ?c st st' (la_chunks args) cs = (oks, c1)" by fastforce
  let ?offs = "ok_blocks (owner_block ?o ?c cs) (zip (la_chunks args) oks)"
  have n: "length (cs_blocks cs) = cs_nblocks cs" "cs_high_water cs \<le> cs_nblocks cs" using inv(1) by (auto simp: cs_inv_def)
  have st'': "st' \<noteq> CHUNK_STATE_EMPTY" using st(3) by auto
  from transition_owners_effect [OF t st(1,2) st''] n
  have T: "length oks = length (la_chunks args)" "c1 = set_states st' ?offs cs"
    "\<And>i. i \<in> set ?offs \<Longrightarrow> i < cs_nblocks cs \<and> cb_state (cs_blocks cs ! i) = st"
    "\<And>k. k < length (la_chunks args) \<Longrightarrow> oks ! k = NFS4_OK \<Longrightarrow> owner_block ?o ?c cs (la_chunks args ! k) \<noteq> None" by auto
  obtain e p1 ops where p: "chunk_store_persist mem io (Some c1) (ss_state_dir s) ino = (e, p1, ops)" by (metis prod_cases3)
  have e: "e = None" using r go by (cases e) (auto simp: lifecycle_transition_def t p lr_error_def)
  have out: "lr_owner_status res = oks" "i_chunk_store s' = p1" "ds_fs s' = run_ops ops (ds_fs s)"
    using r(1) go by (auto simp: lifecycle_transition_def t p e)
  obtain i where i: "owner_block ?o ?c cs (la_chunks args ! k) = Some i" using T(4) [OF k(1)] k(2) out(1) by auto
  have im: "i \<in> set ?offs"
  proof -
    have "(la_chunks args ! k, NFS4_OK) \<in> set (zip (la_chunks args) oks)"
      using k T(1) out(1) by (auto simp: set_zip intro!: exI [of _ k])
    then show ?thesis using i by (force simp: ok_blocks_def List.map_filter_def)
  qed
  have ihw: "i < cs_high_water cs" using T(3) [OF im] inv(1) st(2) by (auto simp: cs_inv_def not_less [symmetric])
  have d: "cs_dirty c1" using im by (auto simp: T(2))
  have i1: "cs_inv c1" unfolding T(2) by (rule set_states_inv [OF inv(1) st(3)]) (use T(3) st(2) in auto)
  have e1: "escrows_in_range c1" unfolding T(2) by (rule set_states_escrows [OF inv(1,3)])
  obtain c' path where c': "chunk_store_refresh_escrows mem c1 = Inr c'" "p1 = Some (c'\<lparr>cs_dirty := False\<rparr>)"
    using chunk_store_persist_None [OF p [unfolded e] d] by blast
  note K = refresh_keeps(1,3) [OF c'(1)]
  have h1: "cs_high_water c1 \<le> CHUNK_STORE_MAX_BLOCKS" "cs_high_water c1 = cs_high_water cs" using inv(2) by (simp_all add: T(2))
  obtain cs2 where l: "chunk_store_load all_allocs (run_ops ops (ds_fs s)) (ss_state_dir s) ino = Some cs2"
    "\<forall>off. unat off < cs_high_water c1 \<longrightarrow> chunk_store_lookup_any (Some cs2) off = chunk_store_lookup_any (Some c1) off"
    using persist_reload [OF i1 d h1(1) e1 p [unfolded e c'(2)], of "ds_fs s"] by blast
  have same: "chunk_store_lookup_any (Some (c'\<lparr>cs_dirty := False\<rparr>)) off = chunk_store_lookup_any (Some c1) off" for off
    by (simp add: chunk_store_lookup_any_def K)
  have b: "cs_blocks c1 ! i = (cs_blocks cs ! i)\<lparr>cb_state := st'\<rparr>" using T(3) [OF im] im n by (simp add: T(2) set_states_nth)
  show ?thesis
    using i ihw T(3) [OF im] out c'(2) l b K h1 same
    by (intro exI [of _ i] exI [of _ "c'\<lparr>cs_dirty := False\<rparr>"] exI [of _ cs2]) (simp add: T(2))
qed

section \<open>Locks above the high-water mark\<close>

lemma lock_block_keeps [simp]:
  "cb_state (chunk_lock_block cmp args blk) = cb_state blk" "wf_block (chunk_lock_block cmp args blk) = wf_block blk"
  by (simp_all add: chunk_lock_block_def wf_block_def)

lemma lock_block_locked:
  assumes "cla_flags args AND CHUNK_LOCK_FLAGS_ADOPT = 0"
  shows "block_locked (chunk_lock_block cmp args blk)"
proof -
  have "(x OR 1) AND 1 \<noteq> (0 :: u32)" for x by (simp add: bit_eq_iff bit_simps) (auto intro: exI [of _ 0])
  then show ?thesis using assms by (simp add: chunk_lock_block_def block_locked_def CHUNK_BLOCK_LOCKED_def)
qed

lemma lock_apply_preallocated:
  assumes "cla_flags args AND CHUNK_LOCK_FLAGS_ADOPT = 0" "length (cs_blocks cs) = cs_nblocks cs"
    "\<forall>off \<in> set offs. unat off < cs_nblocks cs"
  shows "\<exists>cs' saved. chunk_lock_apply mem cmp args offs cs = Inr (cs', saved) \<and> cs_nblocks cs' = cs_nblocks cs
    \<and> cs_high_water cs' = cs_high_water cs \<and> length (cs_blocks cs') = length (cs_blocks cs)
    \<and> (cs_dirty cs' \<longleftrightarrow> cs_dirty cs \<or> (\<exists>off \<in> set offs. \<not> block_locked (cs_blocks cs ! unat off)))
    \<and> (\<forall>i < cs_nblocks cs. cs_blocks cs' ! i =
         (if i \<in> unat ` set offs \<and> \<not> block_locked (cs_blocks cs ! i) then chunk_lock_block cmp args (cs_blocks cs ! i)
          else cs_blocks cs ! i))"
  using assms(2,3)
proof (induction offs arbitrary: cs)
  case (Cons off offs)
  let ?b = "cs_blocks cs ! unat off"
  let ?c = "if block_locked ?b then cs else store_block cs off (chunk_lock_block cmp args ?b)"
  have lk: "chunk_store_lookup_any (Some cs) off = Some ?b" using Cons.prems by (simp add: chunk_store_lookup_any_def)
  have c: "length (cs_blocks ?c) = cs_nblocks ?c" "\<forall>off \<in> set offs. unat off < cs_nblocks ?c" "cs_nblocks ?c = cs_nblocks cs"
    "cs_high_water ?c = cs_high_water cs" "cs_dirty ?c \<longleftrightarrow> cs_dirty cs \<or> \<not> block_locked ?b"
    using Cons.prems by (auto simp: store_block_def)
  have nth: "cs_blocks ?c ! i = (if i = unat off \<and> \<not> block_locked ?b then chunk_lock_block cmp args ?b else cs_blocks cs ! i)"
    if "i < cs_nblocks cs" for i using that Cons.prems by (auto simp: store_block_def nth_list_update)
  obtain cs' saved where IH: "chunk_lock_apply mem cmp args offs ?c = Inr (cs', saved)" "cs_nblocks cs' = cs_nblocks ?c"
    "cs_high_water cs' = cs_high_water ?c" "length (cs_blocks cs') = length (cs_blocks ?c)"
    "cs_dirty cs' \<longleftrightarrow> cs_dirty ?c \<or> (\<exists>off \<in> set offs. \<not> block_locked (cs_blocks ?c ! unat off))"
    "\<And>i. i < cs_nblocks ?c \<Longrightarrow> cs_blocks cs' ! i =
       (if i \<in> unat ` set offs \<and> \<not> block_locked (cs_blocks ?c ! i) then chunk_lock_block cmp args (cs_blocks ?c ! i) else cs_blocks ?c ! i)"
    using Cons.IH [OF c(1,2)] by blast
  have run: "chunk_lock_apply mem cmp args (off # offs) cs = Inr (cs', (?b, False) # saved)"
    using IH(1) assms(1) by (simp add: lk block_locked_def [symmetric] split: if_splits)
  note LL = lock_block_locked [OF assms(1), of cmp]
  have "cs_dirty cs' \<longleftrightarrow> cs_dirty cs \<or> (\<exists>o' \<in> set (off # offs). \<not> block_locked (cs_blocks cs ! unat o'))"
    using Cons.prems(2) LL by (auto simp: IH(5) c(5) nth split: if_splits)
  moreover have "cs_blocks cs' ! i =
         (if i \<in> unat ` set (off # offs) \<and> \<not> block_locked (cs_blocks cs ! i) then chunk_lock_block cmp args (cs_blocks cs ! i)
          else cs_blocks cs ! i)" if "i < cs_nblocks cs" for i
    using that IH(6) [of i] LL by (auto simp: c(3) nth)
  ultimately show ?case using run IH(2-4) c Cons.prems by (intro exI [of _ cs'] exI [of _ "(?b, False) # saved"]) simp
qed simp

lemma lock_OK_cases:
  assumes run: "nfs4_op_chunk_lock mem io now cmp args s = Some (res, s')" "clr_status res = NFS4_OK"
    and cs: "i_chunk_store s = Some cs" and na: "cla_flags args AND CHUNK_LOCK_FLAGS_ADOPT = 0" and i: "c_inode cmp = Some inode"
    and ap: "chunk_lock_apply mem cmp args (range_offsets (cla_offset args) (cla_count args)) cs = Inr (c1, saved)"
  obtains p1 ops where "chunk_store_persist mem io (Some c1) (ss_state_dir s) (i_ino inode) = (None, p1, ops)"
    "i_chunk_store s' = p1" "ds_fs s' = run_ops ops (ds_fs s)"
proof -
  let ?offs = "range_offsets (cla_offset args) (cla_count args)"
  have get: "chunk_store_get mem fs (Some cs) d n = Some cs" for fs d n by (simp add: chunk_store_get_def)
  have gu: "chunk_lock_guards cmp args = NFS4_OK" using run by (auto simp: nfs4_op_chunk_lock_def split: if_splits)
  obtain v t where g: "chunk_check_trusted_stateid cmp (cla_stateid args) (co_client_id (cla_owner args)) True now (ds_trust s) = Some (v, t)"
    using run(1) gu by (cases "chunk_check_trusted_stateid cmp (cla_stateid args) (co_client_id (cla_owner args)) True now (ds_trust s)")
      (auto simp: nfs4_op_chunk_lock_def)
  have v1: "v = NFS4_OK" by (rule ccontr) (use run gu g i in \<open>auto simp: nfs4_op_chunk_lock_def\<close>)
  have v2: "mem ''saved'' \<and> mem ''created''" by (rule ccontr) (use run gu g i v1 in \<open>auto simp: nfs4_op_chunk_lock_def\<close>)
  note v = v1 v2
  have ck: "chunk_lock_check_all cs args ?offs = LockRes NFS4_OK"
    by (rule ccontr) (use run gu g i v cs na in \<open>auto simp: nfs4_op_chunk_lock_def get clr_status_OK\<close>)
  obtain fails b where fb: "chunk_test_persist_failure (ss_test_chunk_persist_fail_count s) = (fails, b)" by fastforce
  obtain e p1 ops where p: "chunk_store_persist mem io (Some c1) (ss_state_dir s) (i_ino inode) = (e, p1, ops)" by (metis prod_cases3)
  have f: "\<not> fails" using run gu g i v cs na ck ap fb by (auto simp: nfs4_op_chunk_lock_def get)
  have e: "e = None" using run gu g i v cs na ck ap fb f p by (cases e) (auto simp: nfs4_op_chunk_lock_def get)
  show ?thesis using run gu g i v cs na ck ap fb f p e by (intro that [of p1 ops]) (auto simp: nfs4_op_chunk_lock_def get)
qed

section \<open>A concrete server\<close>

definition wit_co :: "u32 \<Rightarrow> chunk_owner4" where
  "wit_co client = \<lparr>co_cohort_id = 1, co_client_id = client, co_id = 4\<rparr>"

definition wit_block :: chunk_block where
  "wit_block = zero_block\<lparr>cb_state := CHUNK_STATE_FINALIZED, cb_cohort_id := 1, cb_client_id := 9, cb_owner_id := 4\<rparr>"

definition wit_locked :: chunk_block where
  "wit_locked = wit_block\<lparr>cb_flags := CHUNK_BLOCK_LOCKED, cb_lock_cohort_id := 1, cb_lock_client_id := 9, cb_lock_owner_id := 4,
     cb_lock_offset := 3, cb_lock_count := 1\<rparr>"

definition wit_store :: "chunk_block \<Rightarrow> chunk_store" where
  "wit_store b = fresh_store\<lparr>cs_blocks := (cs_blocks fresh_store)[3 := b], cs_high_water := 4\<rparr>"

definition wit_srv :: "chunk_store \<Rightarrow> chunk_srv" where
  "wit_srv cs = \<lparr>ds_trust = wit_table 1 100, i_chunk_store = Some cs, ds_fs = (\<lambda>_. None), ss_state_dir = ''/state'',
     ss_uuid = replicate 16 0, sps_boot_seq = 1, ss_test_chunk_finalize_delay_count = 0,
     ss_test_chunk_commit_delay_count = 0, ss_test_chunk_persist_fail_count = 0, cs_rollback_invoked = Some 0, inode_syncs = []\<rparr>"

definition wit_la :: "u32 \<Rightarrow> CHUNK_LIFECYCLE4args" where
  "wit_la client = \<lparr>la_stateid = wit_stid, la_offset = 3, la_count = 1, la_chunks = [wit_co client]\<rparr>"

definition wit_lk :: CHUNK_LOCK4args where
  "wit_lk = \<lparr>cla_stateid = wit_stid, cla_offset = 3, cla_count = 1, cla_flags = 0, cla_owner = wit_co 9, cla_adopt = None\<rparr>"

lemma wit_range [simp]: "range_offsets 3 1 = [3]"
  by (simp add: range_offsets_def)

lemma wit_store_sel:
  "cs_nblocks (wit_store b) = 64" "cs_high_water (wit_store b) = 4" "length (cs_blocks (wit_store b)) = 64"
  "cs_blocks (wit_store b) ! 3 = b" "\<not> cs_dirty (wit_store b)" "set (cs_blocks (wit_store b)) \<subseteq> {b, zero_block}"
  "i < 64 \<Longrightarrow> cs_blocks (wit_store b) ! i = (if i = 3 then b else zero_block)"
  by (auto simp: wit_store_def fresh_store_def cs_consts nth_list_update dest: set_update_subset_insert [THEN subsetD])

lemma wit_store_inv: "wf_block b \<Longrightarrow> cs_inv (wit_store b)"
  by (auto simp: cs_inv_def wit_store_sel cs_consts)

lemma wit_not_escrowed: "\<not> escrowed wit_block" "\<not> escrowed zero_block" "\<not> escrowed wit_locked"
  by (simp_all add: escrowed_def wit_block_def wit_locked_def zero_block_def CHUNK_BLOCK_ESCROW_def CHUNK_BLOCK_LOCKED_def)

lemma wit_wf: "wf_block wit_block" "wf_block wit_locked"
  by (simp_all add: wit_block_def wit_locked_def wf_block_def zero_block_def)

lemma wit_escrows: "escrows_in_range (wit_store wit_block)" "escrows_in_range fresh_store"
  using wit_not_escrowed by (auto simp: escrows_in_range_def wit_store_sel fresh_store_def)

lemma wit_la_guards: "chunk_lifecycle_guards (wit_io 1) (wit_la client) = NFS4_OK"
  by (simp add: chunk_lifecycle_guards_def wit_io_def wit_la_def network_file_handle_empty_def chunk_op_on_non_chunked_def
      inode_chunked_state_def chunk_lifecycle_check_range_def chunk_lifecycle_check_bounds_def CHUNK_MAX_CHUNKS_PER_OP_def
      CHUNK_MAX_OWNERS_PER_OP_def)

lemma wit_lk_guards: "chunk_lock_guards (wit_io 1) wit_lk = NFS4_OK"
  by (simp add: chunk_lock_guards_def wit_io_def wit_lk_def wit_co_def network_file_handle_empty_def chunk_op_on_non_chunked_def
      inode_chunked_state_def chunk_lifecycle_check_range_def CHUNK_MAX_CHUNKS_PER_OP_def S_ISREG_def chunk_cid_is_reserved_def
      CHUNK_GUARD_CLIENT_ID_NONE_def CHUNK_GUARD_CLIENT_ID_MDS_def)

lemma wit_la_verdict:
  "gate_verdict (wit_io 1) wit_stid CHUNK_GUARD_CLIENT_ID_NONE False 60 (abs_map (wit_table 1 100)) = NFS4_OK"
  "gate_verdict (wit_io 1) wit_stid CHUNK_GUARD_CLIENT_ID_NONE False 200 (abs_map (wit_table 1 100)) \<noteq> NFS4_OK"
  unfolding abs_map_of [OF wit_table_abs]
  by (simp_all add: wit_not_special gate_verdict_def lease_for_def wit_io_def wit_lease_def new_trust_entry_def
      check_trust_entry_def TRUST_ACTIVE_def TRUST_PENDING_def LAYOUTIOMODE4_RW_def)

lemma wit_la_gate:
  obtains t where "chunk_check_trusted_stateid (wit_io 1) wit_stid CHUNK_GUARD_CLIENT_ID_NONE False 60 (wit_table 1 100) = Some (NFS4_OK, t)"
  using chunk_check_run [OF wit_table_reach, of "wit_io 1" wit_stid CHUNK_GUARD_CLIENT_ID_NONE False 60 1 100]
  unfolding wit_la_verdict by blast

lemma wit_lk_gate:
  obtains t where "chunk_check_trusted_stateid (wit_io 1) wit_stid 9 True 60 (wit_table 1 100) = Some (NFS4_OK, t)"
  using chunk_check_run [OF wit_table_reach, of "wit_io 1" wit_stid 9 True 60 1 100] unfolding wit_gate by blast

text \<open>A COMMIT by the owner of the block, and one by another owner while it is locked.\<close>

lemma wit_transition:
  "transition_owners 3 1 CHUNK_STATE_FINALIZED CHUNK_STATE_COMMITTED [wit_co 9] (wit_store wit_block) =
     ([NFS4_OK], set_block_state (wit_store wit_block) 3 CHUNK_STATE_COMMITTED)"
  by (simp add: wit_co_def chunk_store_transition_def wit_store_sel wit_block_def)

lemma wit_no_conflict: "\<not> any_lock_conflict (wit_store wit_block) (wit_la 9)"
  by (simp add: any_lock_conflict_def wit_la_def chunk_lock_conflict_def List.map_filter_simps chunk_store_lookup_any_def
      wit_store_sel wit_block_def zero_block_def)

lemma wit_conflict: "any_lock_conflict (wit_store wit_locked) (wit_la 8)"
  by (rule any_lock_conflictI [of 3 _ _ wit_locked "wit_co 8"])
    (simp_all add: wit_la_def chunk_store_lookup_any_def wit_store_sel block_locked_def wit_locked_def chunk_lock_owner_equal_def
      chunk_lock_owner_values_equal_def wit_co_def CHUNK_BLOCK_LOCKED_def)

lemma wit_commit_run:
  assumes nr: "\<not> chunk_cid_is_reserved c"
  obtains t where "nfs4_op_chunk_commit mem io 60 (wit_io 1) (wit_la c) (wit_srv cs) = Some
    (case lifecycle_transition mem io CHUNK_STATE_FINALIZED CHUNK_STATE_COMMITTED 7 (wit_la c) cs (wit_srv cs\<lparr>ds_trust := t\<rparr>) of
       (res, s) \<Rightarrow> (res, if lr_status res = NFS4_OK then s\<lparr>inode_syncs := 7 # inode_syncs s\<rparr> else s))"
proof -
  obtain t where t: "chunk_check_trusted_stateid (wit_io 1) wit_stid CHUNK_GUARD_CLIENT_ID_NONE False 60 (wit_table 1 100) = Some (NFS4_OK, t)"
    by (rule wit_la_gate)
  have a: "la_stateid (wit_la c) = wit_stid" "la_chunks (wit_la c) = [wit_co c]" "co_client_id (wit_co c) = c"
    "ds_trust (wit_srv cs) = wit_table 1 100" "i_chunk_store (wit_srv cs) = Some cs"
    "ss_test_chunk_commit_delay_count (wit_srv cs) = 0" "c_inode (wit_io 1) = Some \<lparr>i_ino = 7, i_mode = 0x81A4, i_attr_flags = 0xC0\<rparr>"
    by (simp_all add: wit_la_def wit_co_def wit_srv_def wit_io_def)
  have z: "wit_srv cs\<lparr>ds_trust := t, ss_test_chunk_commit_delay_count := 0\<rparr> = wit_srv cs\<lparr>ds_trust := t\<rparr>"
    by (simp add: wit_srv_def)
  show thesis by (rule that [of t])
    (use nr in \<open>simp add: nfs4_op_chunk_commit_def wit_la_guards a t chunk_lifecycle_test_delay_def z split: prod.split\<close>)
qed

section \<open>Properties\<close>

text \<open>
  C3. An answered COMMIT is durable: when \<^verbatim>\<open>nfs4_op_chunk_commit\<close> returns NFS4_OK with
  status NFS4_OK for an owner, one block of that owner in the range went from FINALIZED to COMMITTED
  in memory, nothing else of it changed, loading the metadata file finds the same block, and the
  inode was given to \<^verbatim>\<open>inode_sync_to_disk\<close>. The store is well formed, has at most
  \<open>2^20\<close> blocks in use and its escrow ranges lie inside them.
\<close>

theorem chunk_commit_durable:
  assumes "nfs4_op_chunk_commit mem io now cmp args s = Some (res, s')" "lr_status res = NFS4_OK"
    and "c_inode cmp = Some inode" "i_chunk_store s = Some cs"
    and "cs_inv cs" "cs_high_water cs \<le> CHUNK_STORE_MAX_BLOCKS" "escrows_in_range cs"
    and "k < length (la_chunks args)" "lr_owner_status res ! k = NFS4_OK"
  shows "\<exists>i cs' cs2 co. co = la_chunks args ! k \<and> i \<in> unat ` set (range_offsets (la_offset args) (la_count args))
    \<and> owned_by (co_cohort_id co) (co_client_id co) (co_id co) (cs_blocks cs ! i)
    \<and> cb_state (cs_blocks cs ! i) = CHUNK_STATE_FINALIZED
    \<and> i_chunk_store s' = Some cs'
    \<and> chunk_store_lookup_any (Some cs') (of_nat i) = Some ((cs_blocks cs ! i)\<lparr>cb_state := CHUNK_STATE_COMMITTED\<rparr>)
    \<and> chunk_store_load all_allocs (ds_fs s') (ss_state_dir s) (i_ino inode) = Some cs2
    \<and> chunk_store_lookup_any (Some cs2) (of_nat i) = chunk_store_lookup_any (Some cs') (of_nat i)
    \<and> i_ino inode \<in> set (inode_syncs s')"
  using assms(1)
proof (cases rule: commit_cases)
  case refused
  then show ?thesis using assms(2) by simp
next
  case (ran inode' cs0 s1 s2)
  have eq: "inode' = inode" "cs0 = cs" using ran(1,2) assms(3,4) by auto
  have tr: "lifecycle_transition mem io CHUNK_STATE_FINALIZED CHUNK_STATE_COMMITTED (i_ino inode) args cs s1 = (res, s2)"
    using ran(6) eq by simp
  obtain i cs' cs2 where R: "owner_block (la_offset args) (la_count args) cs (la_chunks args ! k) = Some i"
    "i < cs_high_water cs" "cb_state (cs_blocks cs ! i) = CHUNK_STATE_FINALIZED" "i_chunk_store s2 = Some cs'"
    "cs_nblocks cs' = cs_nblocks cs" "cs_blocks cs' ! i = (cs_blocks cs ! i)\<lparr>cb_state := CHUNK_STATE_COMMITTED\<rparr>"
    "chunk_store_load all_allocs (ds_fs s2) (ss_state_dir s1) (i_ino inode) = Some cs2"
    "\<forall>off. unat off < cs_high_water cs \<longrightarrow> chunk_store_lookup_any (Some cs2) off = chunk_store_lookup_any (Some cs') off"
    using lifecycle_transition_OK [OF tr assms(2) _ _ _ assms(5-9)] by auto
  note O = owner_block_Some [OF R(1)]
  have n: "i < 2 ^ 64" using O(1) assms(5) by (simp add: cs_inv_def cs_consts)
  have u: "unat (of_nat i :: u64) = i" using n by (rule unat_u64_of_nat)
  have m: "i \<in> unat ` set (range_offsets (la_offset args) (la_count args))"
    using O(3) by (auto simp: range_offsets_def)
  have lk: "chunk_store_lookup_any (Some cs') (of_nat i) = Some ((cs_blocks cs ! i)\<lparr>cb_state := CHUNK_STATE_COMMITTED\<rparr>)"
    using O(1) R(5,6) by (simp add: chunk_store_lookup_any_def u)
  show ?thesis using O(2) m R(2-4,7,8) lk ran(5,7) assms(2) u eq
    by (intro exI [of _ i] exI [of _ cs'] exI [of _ cs2] exI [of _ "la_chunks args ! k"]) simp
qed

theorem chunk_commit_durable_witness:
  "\<exists>res s' cs2. nfs4_op_chunk_commit all_allocs io_ok 60 (wit_io 1) (wit_la 9) (wit_srv (wit_store wit_block)) = Some (res, s')
    \<and> lr_status res = NFS4_OK
    \<and> chunk_store_load all_allocs (ds_fs s') ''/state'' 7 = Some cs2
    \<and> (\<exists>off. chunk_store_lookup_any (Some cs2) off = Some (wit_block\<lparr>cb_state := CHUNK_STATE_COMMITTED\<rparr>))"
proof -
  let ?cs = "wit_store wit_block" and ?s = "wit_srv (wit_store wit_block)"
  let ?c1 = "set_block_state ?cs 3 CHUNK_STATE_COMMITTED"
  have "\<forall>b \<in> set (cs_blocks ?c1). \<not> escrowed b"
    using wit_not_escrowed
    by (auto simp: set_block_state_def wit_store_sel(4) escrowed_def
        dest!: set_update_subset_insert [THEN subsetD] subsetD [OF wit_store_sel(6)])
  then obtain p1 ops where p: "chunk_store_persist all_allocs io_ok (Some ?c1) ''/state'' 7 = (None, Some p1, ops)"
    using persist_io_ok [of ?c1] by auto
  have nr: "\<not> chunk_cid_is_reserved 9"
    by (simp add: chunk_cid_is_reserved_def CHUNK_GUARD_CLIENT_ID_NONE_def CHUNK_GUARD_CLIENT_ID_MDS_def)
  obtain t where r: "nfs4_op_chunk_commit all_allocs io_ok 60 (wit_io 1) (wit_la 9) ?s = Some
    (case lifecycle_transition all_allocs io_ok CHUNK_STATE_FINALIZED CHUNK_STATE_COMMITTED 7 (wit_la 9) ?cs (?s\<lparr>ds_trust := t\<rparr>) of
       (res, s) \<Rightarrow> (res, if lr_status res = NFS4_OK then s\<lparr>inode_syncs := 7 # inode_syncs s\<rparr> else s))"
    using wit_commit_run [OF nr] by blast
  have la: "la_offset (wit_la 9) = 3" "la_count (wit_la 9) = 1" "la_chunks (wit_la 9) = [wit_co 9]" by (simp_all add: wit_la_def)
  have d: "ss_state_dir ?s = ''/state''" "i_chunk_store ?s = Some ?cs" by (simp_all add: wit_srv_def)
  obtain res s2 where l: "lifecycle_transition all_allocs io_ok CHUNK_STATE_FINALIZED CHUNK_STATE_COMMITTED 7 (wit_la 9) ?cs (?s\<lparr>ds_trust := t\<rparr>) = (res, s2)"
    "lr_status res = NFS4_OK" "lr_owner_status res = [NFS4_OK]"
    using wit_no_conflict by (simp add: lifecycle_transition_def la wit_transition d p del: transition_owners.simps)
  obtain s' where r': "nfs4_op_chunk_commit all_allocs io_ok 60 (wit_io 1) (wit_la 9) ?s = Some (res, s')" using r l by simp
  obtain inode where i: "c_inode (wit_io 1) = Some inode" "i_ino inode = 7" by (simp add: wit_io_def)
  have h: "cs_high_water ?cs \<le> CHUNK_STORE_MAX_BLOCKS" "0 < length (la_chunks (wit_la 9))" "lr_owner_status res ! 0 = NFS4_OK"
    by (simp_all add: wit_store_sel cs_consts la l)
  obtain k cs' cs2 where R: "k \<in> unat ` set (range_offsets 3 1)"
    "chunk_store_lookup_any (Some cs') (of_nat k) = Some ((cs_blocks ?cs ! k)\<lparr>cb_state := CHUNK_STATE_COMMITTED\<rparr>)"
    "chunk_store_load all_allocs (ds_fs s') ''/state'' 7 = Some cs2"
    "chunk_store_lookup_any (Some cs2) (of_nat k) = chunk_store_lookup_any (Some cs') (of_nat k)"
    using chunk_commit_durable [OF r' l(2) i(1) d(2) wit_store_inv [OF wit_wf(1)] h(1) wit_escrows(1) h(2,3)]
    unfolding la d i by blast
  have "k = 3" using R(1) by simp
  then show ?thesis using r' l(2) R(2-4) by (auto simp: wit_store_sel)
qed

text \<open>
  C7. FINALIZE and COMMIT fail atomically: when either answers anything but NFS4_OK, every block of
  the store in memory and the metadata file of the inode are what they were before, also when the
  save failed after some owners had been moved.
\<close>

theorem chunk_lifecycle_failure_atomic:
  assumes "op = nfs4_op_chunk_finalize \<or> op = nfs4_op_chunk_commit"
    and "op mem io now cmp args s = Some (res, s')" "lr_status res \<noteq> NFS4_OK"
    and "c_inode cmp = Some inode" "i_chunk_store s = Some cs" "cs_inv cs"
  shows "(\<exists>cs'. i_chunk_store s' = Some cs' \<and> cs_blocks cs' = cs_blocks cs \<and> cs_nblocks cs' = cs_nblocks cs) \<and>
    (\<forall>path. chunk_meta_path (ss_state_dir s) (i_ino inode) = Inr path \<longrightarrow> ds_fs s' path = ds_fs s path)"
proof -
  have n: "length (cs_blocks cs) = cs_nblocks cs" using assms(6) by (simp add: cs_inv_def)
  from assms(1) show ?thesis
  proof
    assume "op = nfs4_op_chunk_finalize"
    then have "nfs4_op_chunk_finalize mem io now cmp args s = Some (res, s')" using assms(2) by simp
    then show ?thesis
    proof (cases rule: finalize_cases)
      case (ran inode' cs0 s1)
      then show ?thesis using lifecycle_transition_failed [OF ran(6) assms(3)] n assms(4,5) by simp
    qed (use assms(5) in simp)
  next
    assume "op = nfs4_op_chunk_commit"
    then have "nfs4_op_chunk_commit mem io now cmp args s = Some (res, s')" using assms(2) by simp
    then show ?thesis
    proof (cases rule: commit_cases)
      case (ran inode' cs0 s1 s2)
      then show ?thesis using lifecycle_transition_failed [OF ran(6) assms(3)] n assms(3-5) by simp
    qed (use assms(5) in simp)
  qed
qed

theorem chunk_lifecycle_failure_atomic_witness:
  "\<exists>res s' cs'. nfs4_op_chunk_commit all_allocs (\<lambda>_ _. Some EIO) 60 (wit_io 1) (wit_la 9) (wit_srv (wit_store wit_block)) = Some (res, s')
    \<and> lr_status res = NFS4ERR_SERVERFAULT \<and> i_chunk_store s' = Some cs' \<and> cs_blocks cs' = cs_blocks (wit_store wit_block)"
proof -
  let ?io = "\<lambda>_ _. Some EIO" and ?cs = "wit_store wit_block" and ?s = "wit_srv (wit_store wit_block)"
  let ?c1 = "set_block_state ?cs 3 CHUNK_STATE_COMMITTED"
  obtain x p1 ops where p: "chunk_store_persist all_allocs ?io (Some ?c1) ''/state'' 7 = (Some x, p1, ops)"
    by (cases "chunk_store_refresh_escrows all_allocs ?c1") (simp_all add: chunk_store_persist_def ensure_chunks_dir_def)
  have nr: "\<not> chunk_cid_is_reserved 9"
    by (simp add: chunk_cid_is_reserved_def CHUNK_GUARD_CLIENT_ID_NONE_def CHUNK_GUARD_CLIENT_ID_MDS_def)
  obtain t where r: "nfs4_op_chunk_commit all_allocs ?io 60 (wit_io 1) (wit_la 9) ?s = Some
    (case lifecycle_transition all_allocs ?io CHUNK_STATE_FINALIZED CHUNK_STATE_COMMITTED 7 (wit_la 9) ?cs (?s\<lparr>ds_trust := t\<rparr>) of
       (res, s) \<Rightarrow> (res, if lr_status res = NFS4_OK then s\<lparr>inode_syncs := 7 # inode_syncs s\<rparr> else s))"
    using wit_commit_run [OF nr] by blast
  have la: "la_offset (wit_la 9) = 3" "la_count (wit_la 9) = 1" "la_chunks (wit_la 9) = [wit_co 9]" by (simp_all add: wit_la_def)
  have d: "ss_state_dir ?s = ''/state''" "i_chunk_store ?s = Some ?cs" by (simp_all add: wit_srv_def)
  obtain res s' where r': "nfs4_op_chunk_commit all_allocs ?io 60 (wit_io 1) (wit_la 9) ?s = Some (res, s')"
    "lr_status res = NFS4ERR_SERVERFAULT"
    using r wit_no_conflict by (simp add: lifecycle_transition_def la wit_transition d p lr_error_def del: transition_owners.simps)
  have ne: "lr_status res \<noteq> NFS4_OK" using r'(2) by simp
  obtain inode where i: "c_inode (wit_io 1) = Some inode" by (simp add: wit_io_def)
  obtain cs' where "i_chunk_store s' = Some cs'" "cs_blocks cs' = cs_blocks ?cs"
    using chunk_lifecycle_failure_atomic [OF disjI2 [OF refl] r'(1) ne i d(2) wit_store_inv [OF wit_wf(1)]] by blast
  then show ?thesis using r' by blast
qed

text \<open>
  C11. No lease, no change: in a reachable trust table, a CHUNK operation whose stateid the table
  does not admit answers an error, and leaves the chunk store, the files and the leases as they were.
\<close>

theorem chunk_ops_need_lease:
  assumes "trust_reach x (ds_trust s)"
    and "gate_verdict cmp (op_stateid op) (op_client op) (op_rw op) now (abs_map (ds_trust s)) \<noteq> NFS4_OK"
  shows "\<exists>st s'. chunk_exec mem io now cmp op s = Some (st, s') \<and> st \<noteq> NFS4_OK \<and> i_chunk_store s' = i_chunk_store s
    \<and> ds_fs s' = ds_fs s \<and> trust_reach x (ds_trust s') \<and> trust_abs (ds_trust s') = trust_abs (ds_trust s)"
proof -
  obtain t where t: "chunk_check_trusted_stateid cmp (op_stateid op) (op_client op) (op_rw op) now (ds_trust s) =
      Some (gate_verdict cmp (op_stateid op) (op_client op) (op_rw op) now (abs_map (ds_trust s)), t)"
    "trust_reach x t" "trust_abs t = trust_abs (ds_trust s)"
    using chunk_check_run [OF assms(1)] by blast
  obtain st s' where "chunk_exec mem io now cmp op s = Some (st, s')" "st \<noteq> NFS4_OK" "i_chunk_store s' = i_chunk_store s"
    "ds_fs s' = ds_fs s" "ds_trust s' = ds_trust s \<or> ds_trust s' = t"
    using gate_refuses [OF t(1) assms(2), of mem io] unfolding refuses_def by blast
  then show ?thesis using t assms(1) by auto
qed

theorem chunk_ops_need_lease_witness:
  "\<exists>st s'. chunk_exec all_allocs io_ok 200 (wit_io 1) (ChunkCommit (wit_la 9)) (wit_srv (wit_store wit_block)) = Some (st, s')
    \<and> st \<noteq> NFS4_OK \<and> i_chunk_store s' = Some (wit_store wit_block)"
proof -
  let ?s = "wit_srv (wit_store wit_block)"
  have s: "ds_trust ?s = wit_table 1 100" "i_chunk_store ?s = Some (wit_store wit_block)" by (simp_all add: wit_srv_def)
  have r: "trust_reach (\<lambda>_. 0) (ds_trust ?s)" unfolding s by (rule wit_table_reach)
  have v: "gate_verdict (wit_io 1) (op_stateid (ChunkCommit (wit_la 9))) (op_client (ChunkCommit (wit_la 9)))
      (op_rw (ChunkCommit (wit_la 9))) 200 (abs_map (ds_trust ?s)) \<noteq> NFS4_OK"
    using wit_la_verdict(2) by (simp add: s wit_la_def)
  show ?thesis using chunk_ops_need_lease [OF r v, of all_allocs io_ok] unfolding s by blast
qed

text \<open>
  C14. A lock keeps other owners out: while a block of the range is locked, a FINALIZE, COMMIT,
  ROLLBACK, UNLOCK or plain LOCK that acts for an owner other than the holder answers an error and
  leaves the chunk store and the files as they were. Only the adoption of an escrow is exempt.
\<close>

theorem chunk_lock_excludes:
  assumes "i_chunk_store s = Some cs" "off \<in> set (op_range op)" "chunk_store_lookup_any (Some cs) off = Some blk"
    and "block_locked blk" "co \<in> set (op_owners op)" "\<not> chunk_lock_owner_equal blk co" "\<not> op_adopts op"
    and "chunk_exec mem io now cmp op s = Some (st, s')"
  shows "st \<noteq> NFS4_OK \<and> i_chunk_store s' = i_chunk_store s \<and> ds_fs s' = ds_fs s"
  using assms by (rule lock_refuses)

theorem chunk_lock_excludes_witness:
  "\<exists>s'. chunk_exec all_allocs io_ok 60 (wit_io 1) (ChunkCommit (wit_la 8)) (wit_srv (wit_store wit_locked)) = Some (NFS4ERR_CHUNK_LOCKED, s')
    \<and> i_chunk_store s' = Some (wit_store wit_locked)"
proof -
  let ?cs = "wit_store wit_locked" and ?s = "wit_srv (wit_store wit_locked)"
  have nr: "\<not> chunk_cid_is_reserved 8"
    by (simp add: chunk_cid_is_reserved_def CHUNK_GUARD_CLIENT_ID_NONE_def CHUNK_GUARD_CLIENT_ID_MDS_def)
  obtain t where r: "nfs4_op_chunk_commit all_allocs io_ok 60 (wit_io 1) (wit_la 8) ?s = Some
    (case lifecycle_transition all_allocs io_ok CHUNK_STATE_FINALIZED CHUNK_STATE_COMMITTED 7 (wit_la 8) ?cs (?s\<lparr>ds_trust := t\<rparr>) of
       (res, s) \<Rightarrow> (res, if lr_status res = NFS4_OK then s\<lparr>inode_syncs := 7 # inode_syncs s\<rparr> else s))"
    using wit_commit_run [OF nr] by blast
  obtain s' where r': "chunk_exec all_allocs io_ok 60 (wit_io 1) (ChunkCommit (wit_la 8)) ?s = Some (NFS4ERR_CHUNK_LOCKED, s')"
    using r wit_conflict by (simp add: chunk_exec_def lifecycle_transition_def lr_error_def)
  have a: "i_chunk_store ?s = Some ?cs" "3 \<in> set (op_range (ChunkCommit (wit_la 8)))" "chunk_store_lookup_any (Some ?cs) 3 = Some wit_locked"
    "block_locked wit_locked" "wit_co 8 \<in> set (op_owners (ChunkCommit (wit_la 8)))" "\<not> chunk_lock_owner_equal wit_locked (wit_co 8)"
    "\<not> op_adopts (ChunkCommit (wit_la 8))"
    by (simp_all add: wit_srv_def wit_la_def chunk_store_lookup_any_def wit_store_sel block_locked_def wit_locked_def
        chunk_lock_owner_equal_def chunk_lock_owner_values_equal_def wit_co_def CHUNK_BLOCK_LOCKED_def)
  from chunk_lock_excludes [OF a r'] r' a(1) show ?thesis by auto
qed

text \<open>
  C30. A lock on preallocated blocks is lost at a restart: when the range of a plain LOCK lies above
  the high-water mark and inside the allocated entries, and some block of it was not yet locked, an
  answer NFS4_OK leaves every block of the range locked in memory, but loading the metadata file
  finds no lock on any of them, since the save stops at the high-water mark.
\<close>

theorem chunk_lock_lost_on_restart:
  assumes "nfs4_op_chunk_lock mem io now cmp args s = Some (res, s')" "clr_status res = NFS4_OK"
    and "c_inode cmp = Some inode" "i_chunk_store s = Some cs" "cla_flags args = 0"
    and "cs_inv cs" "cs_high_water cs \<le> CHUNK_STORE_MAX_BLOCKS" "escrows_in_range cs"
    and "\<forall>off \<in> set (range_offsets (cla_offset args) (cla_count args)). cs_high_water cs \<le> unat off \<and> unat off < cs_nblocks cs"
    and "\<exists>off \<in> set (range_offsets (cla_offset args) (cla_count args)). \<not> block_locked (cs_blocks cs ! unat off)"
  shows "\<exists>cs' cs2. i_chunk_store s' = Some cs' \<and> chunk_store_load all_allocs (ds_fs s') (ss_state_dir s) (i_ino inode) = Some cs2
    \<and> (\<forall>off \<in> set (range_offsets (cla_offset args) (cla_count args)).
         (\<exists>blk. chunk_store_lookup_any (Some cs') off = Some blk \<and> block_locked blk)
         \<and> chunk_store_lookup_any (Some cs2) off \<in> {None, Some zero_block})"
proof -
  let ?offs = "range_offsets (cla_offset args) (cla_count args)"
  have na: "cla_flags args AND CHUNK_LOCK_FLAGS_ADOPT = 0" using assms(5) by simp
  have n: "length (cs_blocks cs) = cs_nblocks cs" "cs_high_water cs \<le> cs_nblocks cs" using assms(6) by (auto simp: cs_inv_def)
  have up: "\<forall>off \<in> set ?offs. unat off < cs_nblocks cs" using assms(9) by blast
  obtain c1 saved where A: "chunk_lock_apply mem cmp args ?offs cs = Inr (c1, saved)" "cs_nblocks c1 = cs_nblocks cs"
    "cs_high_water c1 = cs_high_water cs" "length (cs_blocks c1) = length (cs_blocks cs)"
    "cs_dirty c1 \<longleftrightarrow> cs_dirty cs \<or> (\<exists>off \<in> set ?offs. \<not> block_locked (cs_blocks cs ! unat off))"
    and B: "\<And>i. i < cs_nblocks cs \<Longrightarrow> cs_blocks c1 ! i =
       (if i \<in> unat ` set ?offs \<and> \<not> block_locked (cs_blocks cs ! i) then chunk_lock_block cmp args (cs_blocks cs ! i) else cs_blocks cs ! i)"
    using lock_apply_preallocated [OF na n(1) up, of mem cmp] by blast
  have d: "cs_dirty c1" using A(5) assms(10) by blast
  have low: "cs_blocks c1 ! i = cs_blocks cs ! i" if "i < cs_high_water cs" for i
    using B [of i] that n(2) assms(9) by fastforce
  have i1: "cs_inv c1" using assms(6) A(2-4) B by (auto simp: cs_inv_def)
  have e1: "escrows_in_range c1" using assms(8) low by (simp add: escrows_in_range_def A(3))
  obtain p1 ops where p: "chunk_store_persist mem io (Some c1) (ss_state_dir s) (i_ino inode) = (None, p1, ops)"
    "i_chunk_store s' = p1" "ds_fs s' = run_ops ops (ds_fs s)"
    using lock_OK_cases [OF assms(1,2,4) na assms(3) A(1)] by blast
  obtain c' where c': "chunk_store_refresh_escrows mem c1 = Inr c'" "p1 = Some (c'\<lparr>cs_dirty := False\<rparr>)"
    using chunk_store_persist_None [OF p(1) d] by blast
  note K = refresh_keeps(1,3) [OF c'(1)]
  have h1: "cs_high_water c1 \<le> CHUNK_STORE_MAX_BLOCKS" using assms(7) A(3) by simp
  obtain cs2 where l: "chunk_store_load all_allocs (run_ops ops (ds_fs s)) (ss_state_dir s) (i_ino inode) = Some cs2"
    "\<forall>off. cs_high_water c1 \<le> unat off \<longrightarrow> chunk_store_lookup_any (Some cs2) off \<in> {None, Some zero_block}"
    using persist_reload [OF i1 d h1 e1 p(1) [unfolded c'(2)], of "ds_fs s"] by blast
  have "block_locked (cs_blocks c1 ! unat off)" if "off \<in> set ?offs" for off
    using B [of "unat off"] that up lock_block_locked [OF na, of cmp] by auto
  then have "\<exists>blk. chunk_store_lookup_any (Some (c'\<lparr>cs_dirty := False\<rparr>)) off = Some blk \<and> block_locked blk" if "off \<in> set ?offs" for off
    using that up A(2) by (simp add: chunk_store_lookup_any_def K not_le)
  then show ?thesis using p(2,3) c'(2) l assms(9) A(3) by (intro exI [of _ "c'\<lparr>cs_dirty := False\<rparr>"] exI [of _ cs2]) simp
qed

theorem chunk_lock_lost_on_restart_witness:
  "\<exists>s' cs' cs2 blk. nfs4_op_chunk_lock all_allocs io_ok 60 (wit_io 1) wit_lk (wit_srv fresh_store) = Some (LockRes NFS4_OK, s')
    \<and> i_chunk_store s' = Some cs' \<and> chunk_store_lookup_any (Some cs') 3 = Some blk \<and> block_locked blk
    \<and> chunk_store_load all_allocs (ds_fs s') ''/state'' 7 = Some cs2
    \<and> chunk_store_lookup_any (Some cs2) 3 \<in> {None, Some zero_block}"
proof -
  let ?s = "wit_srv fresh_store"
  have fs: "cs_nblocks fresh_store = 64" "cs_high_water fresh_store = 0" "cs_blocks fresh_store = replicate 64 zero_block"
    by (simp_all add: fresh_store_def cs_consts)
  have zb: "cb_flags zero_block = 0" by (simp add: zero_block_def)
  have lk: "cla_stateid wit_lk = wit_stid" "cla_offset wit_lk = 3" "cla_count wit_lk = 1" "cla_flags wit_lk = 0"
    "co_client_id (cla_owner wit_lk) = 9" by (simp_all add: wit_lk_def wit_co_def)
  have d: "ds_trust ?s = wit_table 1 100" "i_chunk_store ?s = Some fresh_store" "ss_state_dir ?s = ''/state''"
    "ss_test_chunk_persist_fail_count ?s = 0" by (simp_all add: wit_srv_def)
  obtain inode where i: "c_inode (wit_io 1) = Some inode" "i_ino inode = 7" by (simp add: wit_io_def)
  obtain t where t: "chunk_check_trusted_stateid (wit_io 1) wit_stid 9 True 60 (wit_table 1 100) = Some (NFS4_OK, t)" by (rule wit_lk_gate)
  let ?c1 = "store_block fresh_store 3 (chunk_lock_block (wit_io 1) wit_lk zero_block)"
  have ap: "chunk_lock_apply all_allocs (wit_io 1) wit_lk [3] fresh_store = Inr (?c1, [(zero_block, False)])"
    by (simp add: chunk_store_lookup_any_def fs lk zb)
  have ck: "chunk_lock_check_all fresh_store wit_lk [3] = LockRes NFS4_OK"
    by (simp add: chunk_lock_check_def chunk_store_lookup_any_def fs lk zb)
  have "\<not> escrowed (chunk_lock_block (wit_io 1) wit_lk zero_block)"
    by (simp add: escrowed_def chunk_lock_block_def lk zb CHUNK_BLOCK_ESCROW_def CHUNK_BLOCK_LOCKED_def)
  then have "\<forall>b \<in> set (cs_blocks ?c1). \<not> escrowed b" "cs_dirty ?c1"
    using wit_not_escrowed(2) by (auto simp: store_block_def fs dest!: set_update_subset_insert [THEN subsetD])
  then obtain p1 ops where p: "chunk_store_persist all_allocs io_ok (Some ?c1) ''/state'' 7 = (None, Some p1, ops)"
    using persist_io_ok [of ?c1] by auto
  have get: "chunk_store_get all_allocs fs (Some fresh_store) d' n = Some fresh_store" for fs d' n by (simp add: chunk_store_get_def)
  obtain s' where r: "nfs4_op_chunk_lock all_allocs io_ok 60 (wit_io 1) wit_lk ?s = Some (LockRes NFS4_OK, s')"
    by (simp add: nfs4_op_chunk_lock_def wit_lk_guards lk d i t get ck ap p chunk_test_persist_failure_def Let_def
        del: chunk_lock_check_all.simps chunk_lock_apply.simps)
  have ok: "clr_status (LockRes NFS4_OK) = NFS4_OK" by simp
  have h: "cs_high_water fresh_store \<le> CHUNK_STORE_MAX_BLOCKS"
    "\<forall>off \<in> set (range_offsets (cla_offset wit_lk) (cla_count wit_lk)). cs_high_water fresh_store \<le> unat off \<and> unat off < cs_nblocks fresh_store"
    "\<exists>off \<in> set (range_offsets (cla_offset wit_lk) (cla_count wit_lk)). \<not> block_locked (cs_blocks fresh_store ! unat off)"
    by (simp_all add: fs lk zb block_locked_def)
  from chunk_lock_lost_on_restart [OF r ok i(1) d(2) lk(4) fresh_store_inv h(1) wit_escrows(2) h(2,3)]
  show ?thesis using r unfolding lk d i by auto
qed

end
