(* ===== verification/Spec2Isabelle.thy ===== *)
theory Spec2Isabelle
  imports RS_Correct SimpleEC NlmProperties ChunkOpsProperties
begin

text \<open>
  Verification library for the reffs file server (C sources under \<^verbatim>\<open>src/\<close>).

  \<^bold>\<open>The program.\<close> reffs is an NFS server that can be a metadata server, a data server or both. A file
  is cut into stripes, each stripe is encoded by an erasure code (\<^verbatim>\<open>src/lib/ec\<close>) and its shards are
  stored as chunks on data servers (\<^verbatim>\<open>src/lib/nfs4/server/chunk_store.c\<close>). The metadata server tells the
  data servers which layout stateids they may trust (\<^verbatim>\<open>trust_stateid.c\<close>, \<^verbatim>\<open>trust_stateid_ops.c\<close>); the
  CHUNK operations pass a gate that consults this table (\<^verbatim>\<open>chunk.c\<close>). NFSv3 clients lock byte ranges
  through the NLM lock manager (\<^verbatim>\<open>src/lib/nlm\<close>) on the lock lists of \<^verbatim>\<open>src/lib/fs/lock.c\<close>.

  \<^bold>\<open>Conventions.\<close> Theory \<open>Reffs_Prelude\<close> has the fixed-width integers (words, so that arithmetic wraps as
  in C), the errno values, the allocation oracle (\<open>allocs\<close>: each allocation site has a name and may
  fail), counted loops, and the lemmas on lists, finite maps and 64-bit arithmetic that the components
  share. A fallible function returns \<open>errno + 'a\<close>. Code on shared objects with reference counts works
  on explicit heaps, and its result is an \<open>option\<close> in which \<open>None\<close> is undefined behaviour: a
  use of freed memory, a count below zero, or a null pointer. Every operation of the lock manager and
  of the trust table is an atomic step; what may happen between two steps is part of the step relations
  \<open>nlm_reach\<close> and \<open>trust_reach\<close>. Clock readings and the results of system calls are
  arguments.

  \<^bold>\<open>Erasure codes.\<close> \<open>GF256\<close> (\<^verbatim>\<open>gf.c\<close>): the log and exp tables as the code fills them, the field
  laws, and that table multiplication is multiplication of polynomials. \<open>GF_Matrix\<close>
  (\<^verbatim>\<open>matrix.c\<close>): Gauss-Jordan inversion, total and exact. \<open>EC_Interface\<close> (\<^verbatim>\<open>ec.h\<close>): shards
  and the locale \<open>erasure_code\<close> of the encodings, with the lemmas on histories of loss and repair.
  \<open>ReedSolomon\<close> and \<open>RS_Correct\<close> (\<^verbatim>\<open>rs.c\<close>): both constructions of the encoding
  matrix are maximum distance separable, the vector and scalar inner loops, encode and decode with
  every error path, and the round trip for every geometry. \<open>SimpleEC\<close> (\<^verbatim>\<open>xor.c\<close>,
  \<^verbatim>\<open>stripe.c\<close>, \<^verbatim>\<open>mirror.c\<close>). The locale is interpreted for Reed-Solomon, XOR and stripe.

  \<^bold>\<open>Chunk store.\<close> \<open>ChunkStore\<close> (\<^verbatim>\<open>chunk_store.c\<close>): blocks, the state machine of a block, range
  operations, rollback and expiry of a writer, the escrow index; locale \<open>block_map\<close> for stores as
  maps from offsets to blocks. \<open>ChunkPersist\<close>: the disk image, saving by write-and-rename as a
  sequence of file operations that may stop at any point, loading of arbitrary files, and the epoch.

  \<^bold>\<open>Locks.\<close> \<open>ByteLocks\<close> (\<^verbatim>\<open>lock.c\<close>): heaps of owners, locks, shares and inodes, ranges of 64-bit
  offsets. \<open>NlmLock\<close> (\<^verbatim>\<open>nlm_lock.c\<close>, \<^verbatim>\<open>nlm_server.c\<close>): hosts, owners, grace period and
  the procedures. \<open>NlmSafety\<close>, \<open>NlmShares\<close>, \<open>NlmOps\<close>, \<open>NlmCorrect\<close>,
  \<open>NlmReach\<close>: the invariant (every reference is accounted for) and the effect of each operation.
  \<open>NlmProperties\<close>: memory safety, mutual exclusion, and the exact effect of lock, unlock,
  FREE_ALL and share reservations over all reachable states.

  \<^bold>\<open>Trust table.\<close> \<open>TrustTable\<close> (\<^verbatim>\<open>trust_stateid.c\<close>): entries, lookups, references, renewal, expiry,
  registration, revocation; the restart loop of the bulk revocation is a recursive function with a
  termination proof. \<open>TrustSpec\<close> and \<open>TrustRefine\<close>: the invariant, the abstraction to a
  map of leases, and the effect of each operation on it. \<open>TrustGate\<close>: the control operations and
  the gates of the data path. \<open>TrustReach\<close>: the specification of the operations and the locale
  \<open>reader_table\<close> of a reader that holds a reference, interpreted for the table.
  \<open>TrustProperties\<close>: refinement, completeness of bulk revocation, the path from TRUST_STATEID to
  an admitted CHUNK operation and back, deadlines, and when renewal keeps a lease.

  \<^bold>\<open>Chunk operations.\<close> \<open>ChunkOps\<close> (\<^verbatim>\<open>chunk.c\<close>): FINALIZE, COMMIT, ROLLBACK, LOCK and UNLOCK, each the
  whole handler on the state \<open>chunk_srv\<close>, which joins the trust table, the chunk store of the
  current file and the files. \<open>ChunkOpsProperties\<close> puts the two components together: no operation
  changes anything without a lease, an answered COMMIT is in the metadata file, a failed FINALIZE or
  COMMIT changes nothing, a lock keeps other owners out, and a lock above the high-water mark is lost
  at a restart.

  \<^bold>\<open>Bounds.\<close> No model uses fuel: every loop of the modelled code is structural or has a measure. Sizes
  appear only as in the code (at most 255 shards, \<open>BULK_BATCH\<close> 64, the limits of the chunk
  store). The hash table of the trust table is the list of linked entries in insertion order, which is
  the order liburcu keeps among entries of one hash; the hash itself cannot be observed. Freed memory is
  freed at once: the RCU grace period only delays it.

  \<^bold>\<open>Not modelled.\<close> The CHUNK operations that move data (WRITE, READ, repair), the escrow operations and
  the sweep over all inodes when a writer dies, which need the data of files and the inode table;
  \<^verbatim>\<open>inode_sync_to_disk\<close> is recorded as a call, its work belongs to the storage backend. The file system tree, attributes, directories, sessions, layouts and delegations of
  the NFSv4 and NFSv3 servers, the proxy server, the dstore fan-out and the NFS clients work on RCU trees,
  remote servers and threads; a faithful model needs the inode and dirent objects first. The storage
  backends, I/O, RPC, TLS and tracing code is system calls. The vendored erasure codes are third-party,
  and the Mojette transform is not covered. Interleavings inside one operation (the lock-free table under
  RCU) and the timed wait of the reaper thread are outside the step relations.
\<close>

end
